(* ===== verification/Outbox_Prelude.thy ===== *)
theory Outbox_Prelude
  imports Main "HOL-Library.Word"
begin

text \<open>
  Shared vocabulary and automation of the development.

  The types that every component uses are named here (instance ids, points in time,
  durations, topics). The SQL side of the program works on tables that are lists of rows with
  a primary key; the four shapes of statement it uses (look a row up by its key, update the
  rows that satisfy a condition, insert with an \<open>ON CONFLICT\<close> arm, delete the rows that
  satisfy a condition) are defined once, and the locale \<open>pk_table\<close> collects what holds
  of each of them for any table that is a field of the database record. The tables of the
  program interpret it in the theory \<open>Tables\<close>.
\<close>

section \<open>Names of the model's types\<close>

type_synonym uuid = "128 word"

type_synonym time = int

type_synonym duration = int

type_synonym topic = string

abbreviation second :: duration where
  "second \<equiv> 1000000000"

text \<open>The collection \<open>schema_ok\<close> has, for every statement and every committed transaction of
  the components, the fact that it keeps the invariant of the schema.\<close>

named_theorems schema_ok

section \<open>SQL values\<close>

text \<open>A nullable column is an option; \<open>COALESCE\<close> takes the first value that is not NULL.\<close>

definition coalesce :: "'a option \<Rightarrow> 'a option \<Rightarrow> 'a option" where
  "coalesce a b = (case a of None \<Rightarrow> b | Some x \<Rightarrow> Some x)"

lemma coalesce_simps [simp]:
  "coalesce None b = b"
  "coalesce (Some x) b = Some x"
  "coalesce a None = a"
  by (simp_all add: coalesce_def split: option.split)

lemma coalesce_eq_None [simp]: "coalesce a b = None \<longleftrightarrow> a = None \<and> b = None"
  by (simp add: coalesce_def split: option.split)

section \<open>Rows and tables\<close>

definition find_row :: "('r \<Rightarrow> 'k) \<Rightarrow> 'k \<Rightarrow> 'r list \<Rightarrow> 'r option" where
  "find_row key k rs = find (\<lambda>r. key r = k) rs"

definition update_where :: "('r \<Rightarrow> bool) \<Rightarrow> ('r \<Rightarrow> 'r) \<Rightarrow> 'r list \<Rightarrow> 'r list" where
  "update_where p f rs = map (\<lambda>r. if p r then f r else r) rs"

definition delete_where :: "('r \<Rightarrow> bool) \<Rightarrow> 'r list \<Rightarrow> 'r list" where
  "delete_where p rs = filter (\<lambda>r. \<not> p r) rs"

definition insert_on_conflict ::
  "('r \<Rightarrow> 'k) \<Rightarrow> ('r \<Rightarrow> 'r) \<Rightarrow> 'r \<Rightarrow> 'r list \<Rightarrow> 'r list" where
  "insert_on_conflict key f new rs =
     (if key new \<in> key ` set rs then update_where (\<lambda>r. key r = key new) f rs else rs @ [new])"

lemma find_row_Nil [simp]: "find_row key k [] = None"
  by (simp add: find_row_def)

lemma find_row_Cons [simp]:
  "find_row key k (r # rs) = (if key r = k then Some r else find_row key k rs)"
  by (simp add: find_row_def)

lemma find_row_append [simp]:
  "find_row key k (rs @ ss) =
     coalesce (find_row key k rs) (find_row key k ss)"
  by (induction rs) simp_all

lemma find_row_None_iff: "find_row key k rs = None \<longleftrightarrow> k \<notin> key ` set rs"
  by (induction rs) auto

lemma find_row_None [intro]: "k \<notin> key ` set rs \<Longrightarrow> find_row key k rs = None"
  by (simp add: find_row_None_iff)

lemma find_row_SomeD: "find_row key k rs = Some r \<Longrightarrow> r \<in> set rs \<and> key r = k"
  by (induction rs) (auto split: if_splits)

lemma find_row_key: "find_row key k rs = Some r \<Longrightarrow> key r = k"
  by (drule find_row_SomeD) simp

lemma find_row_unique:
  "distinct (map key rs) \<Longrightarrow> r \<in> set rs \<Longrightarrow> find_row key (key r) rs = Some r"
  by (induction rs) (auto simp: rev_image_eqI)

lemma find_row_update_where:
  assumes "\<And>r. p r \<Longrightarrow> key (f r) = key r"
  shows "find_row key k (update_where p f rs) =
     map_option (\<lambda>r. if p r then f r else r) (find_row key k rs)"
  using assms by (induction rs) (auto simp: update_where_def)

lemma keys_update_where:
  assumes "\<And>r. p r \<Longrightarrow> key (f r) = key r"
  shows "map key (update_where p f rs) = map key rs"
  using assms by (simp add: update_where_def)

lemma key_image_update_where:
  assumes "\<And>r. p r \<Longrightarrow> key (f r) = key r"
  shows "key ` set (update_where p f rs) = key ` set rs"
  using arg_cong [of _ _ set, OF keys_update_where [of p key f rs]] assms by simp

lemma find_row_insert_on_conflict:
  assumes "\<And>r. key (f r) = key r"
  shows "find_row key k (insert_on_conflict key f new rs) =
     (if k = key new
      then Some (case find_row key k rs of None \<Rightarrow> new | Some r \<Rightarrow> f r)
      else find_row key k rs)"
proof (cases "key new \<in> key ` set rs")
  case True
  then obtain r where r: "find_row key (key new) rs = Some r"
    using find_row_None_iff [of key "key new" rs] by auto
  have upd: "find_row key k (update_where (\<lambda>r. key r = key new) f rs) =
      map_option (\<lambda>r. if key r = key new then f r else r) (find_row key k rs)"
    using assms by (rule find_row_update_where)
  show ?thesis
  proof (cases "k = key new")
    case True
    with \<open>key new \<in> key ` set rs\<close> upd r show ?thesis
      by (auto simp: insert_on_conflict_def dest: find_row_key)
  next
    case False
    with \<open>key new \<in> key ` set rs\<close> upd show ?thesis
      by (cases "find_row key k rs") (auto simp: insert_on_conflict_def dest: find_row_key)
  qed
next
  case False
  then have "find_row key (key new) rs = None" by auto
  with False show ?thesis
    by (auto simp: insert_on_conflict_def split: option.split)
qed

lemma distinct_insert_on_conflict:
  assumes "\<And>r. key (f r) = key r" and "distinct (map key rs)"
  shows "distinct (map key (insert_on_conflict key f new rs))"
proof (cases "key new \<in> key ` set rs")
  case True
  then have "map key (insert_on_conflict key f new rs) = map key rs"
    using assms(1) by (simp add: insert_on_conflict_def keys_update_where)
  with assms(2) show ?thesis by simp
next
  case False
  with assms(2) show ?thesis by (simp add: insert_on_conflict_def)
qed

lemma key_image_insert_on_conflict:
  assumes "\<And>r. key (f r) = key r"
  shows "key ` set (insert_on_conflict key f new rs) = insert (key new) (key ` set rs)"
  using key_image_update_where [of "\<lambda>r. key r = key new" key f rs] assms
  by (auto simp: insert_on_conflict_def)

lemma find_row_delete_where:
  assumes "distinct (map key rs)"
  shows "find_row key k (delete_where p rs) =
     (case find_row key k rs of None \<Rightarrow> None | Some r \<Rightarrow> if p r then None else Some r)"
  using assms
proof (induction rs)
  case Nil
  then show ?case by (simp add: delete_where_def)
next
  case (Cons r rs)
  then have "key r \<notin> key ` set rs" by simp
  have none: "find_row key (key r) rs = None"
    using \<open>key r \<notin> key ` set rs\<close> by (rule find_row_None)
  show ?case
  proof (cases "p r")
    case True
    with Cons none show ?thesis by (auto simp: delete_where_def split: option.split)
  next
    case False
    with Cons none show ?thesis by (auto simp: delete_where_def)
  qed
qed

lemma distinct_delete_where:
  "distinct (map key rs) \<Longrightarrow> distinct (map key (delete_where p rs))"
  by (simp add: delete_where_def distinct_map_filter)

lemma set_delete_where [simp]: "set (delete_where p rs) = {r \<in> set rs. \<not> p r}"
  by (simp add: delete_where_def)

lemma map_of_find_row:
  "map_of (map (\<lambda>r. (key r, r)) rs) k = find_row key k rs"
  by (induction rs) auto

section \<open>The contract of a table with a primary key\<close>

text \<open>
  A table is a field of the database that holds a list of rows, read by \<open>rows\<close> and
  replaced by \<open>put\<close>, and a column (or columns) \<open>key\<close> that identifies a row. The
  facts below are what the queries rely on: which row a key finds after each shape of
  statement, and that no statement ever stores two rows under one key.
\<close>

locale pk_table =
  fixes key :: "'r \<Rightarrow> 'k"
    and rows :: "'d \<Rightarrow> 'r list"
    and put :: "'r list \<Rightarrow> 'd \<Rightarrow> 'd"
  assumes rows_put [simp]: "rows (put rs d) = rs"
    and put_rows: "put (rows d) d = d"
    and put_put: "put rs (put ss d) = put rs d"
begin

lemma lookup_update:
  assumes "\<And>r. p r \<Longrightarrow> key (f r) = key r"
  shows "find_row key k (rows (put (update_where p f (rows d)) d)) =
     map_option (\<lambda>r. if p r then f r else r) (find_row key k (rows d))"
  using find_row_update_where [of p key f k "rows d"] assms by simp

lemma lookup_upsert:
  assumes "\<And>r. key (f r) = key r"
  shows "find_row key k (rows (put (insert_on_conflict key f new (rows d)) d)) =
     (if k = key new
      then Some (case find_row key k (rows d) of None \<Rightarrow> new | Some r \<Rightarrow> f r)
      else find_row key k (rows d))"
  using find_row_insert_on_conflict [of key f k new "rows d"] assms by simp

lemma lookup_delete:
  assumes "distinct (map key (rows d))"
  shows "find_row key k (rows (put (delete_where p (rows d)) d)) =
     (case find_row key k (rows d) of None \<Rightarrow> None | Some r \<Rightarrow> if p r then None else Some r)"
  using find_row_delete_where [OF assms] by simp

lemma pk_update:
  assumes "\<And>r. p r \<Longrightarrow> key (f r) = key r" and "distinct (map key (rows d))"
  shows "distinct (map key (rows (put (update_where p f (rows d)) d)))"
  using keys_update_where [of p key f "rows d"] assms by simp

lemma pk_upsert:
  assumes "\<And>r. key (f r) = key r" and "distinct (map key (rows d))"
  shows "distinct (map key (rows (put (insert_on_conflict key f new (rows d)) d)))"
  using distinct_insert_on_conflict [of key f "rows d" new] assms by simp

lemma pk_delete:
  assumes "distinct (map key (rows d))"
  shows "distinct (map key (rows (put (delete_where p (rows d)) d)))"
  using distinct_delete_where [OF assms] by simp

lemma upsert_idem:
  assumes "find_row key (key new) (rows d) = Some r"
    and "\<And>r'. key r' = key new \<Longrightarrow> f r' = r'"
  shows "put (insert_on_conflict key f new (rows d)) d = d"
proof -
  from assms(1) have "key new \<in> key ` set (rows d)"
    using find_row_SomeD [of key "key new" "rows d" r] by (metis image_eqI)
  then have "insert_on_conflict key f new (rows d) = rows d"
    using assms(2) by (simp add: insert_on_conflict_def update_where_def map_idI)
  then show ?thesis by (simp add: put_rows)
qed

end

end
