(* ===== verification/Go_Runtime.thy ===== *)
theory Go_Runtime
  imports Outbox_Prelude
begin

text \<open>
  What the Go code reads from its surroundings, as values.

  Errors are values of one datatype with the wrapping of \<open>fmt.Errorf ... %w\<close>, and
  \<open>errors.Is\<close> looks through the wrapping. Every call to the database, and every reading
  of a clock, has a name (\<open>site\<close>); an environment record says for each of them how the
  call ended and what the clock showed, so that a handler is a function of its environment and
  every failure of the source is a branch of the model. The package variables that hold
  durations are a record whose default value has the constants of the source.
\<close>

section \<open>Errors\<close>

datatype driver_err = CtxCanceled | CtxDeadlineExceeded | PgError string

datatype go_err =
    ErrExclusiveLeaseHeld
  | ErrExclusiveLeaseRequired
  | ErrMaintenanceLeaseHeld
  | ErrNoRows
  | ContextCanceled
  | ContextDeadlineExceeded
  | DriverError string
  | Errorf string string
  | EmptyPayloadErr topic nat
  | Wrap string string go_err

fun of_driver :: "driver_err \<Rightarrow> go_err" where
  "of_driver CtxCanceled = ContextCanceled"
| "of_driver CtxDeadlineExceeded = ContextDeadlineExceeded"
| "of_driver (PgError s) = DriverError s"

fun errors_Is :: "go_err \<Rightarrow> go_err \<Rightarrow> bool" where
  "errors_Is (Wrap m a e) t = errors_Is e t"
| "errors_Is e t = (e = t)"

lemma of_driver_not_sentinel [simp]:
  "of_driver er \<noteq> ErrExclusiveLeaseHeld"
  "of_driver er \<noteq> ErrExclusiveLeaseRequired"
  "of_driver er \<noteq> ErrMaintenanceLeaseHeld"
  "of_driver er \<noteq> ErrNoRows"
  by (cases er; simp)+

lemma errors_Is_of_driver [simp]:
  "errors_Is (of_driver er) ErrExclusiveLeaseHeld = False"
  "errors_Is (of_driver er) ErrExclusiveLeaseRequired = False"
  "errors_Is (of_driver er) ErrMaintenanceLeaseHeld = False"
  "errors_Is (of_driver er) ErrNoRows = False"
  by (cases er; simp)+

section \<open>Sites: the database calls and clock readings of the handlers\<close>

datatype site =
    AtBegin
  | AtCommit
  | AtInsertMessage
  | AtPubInTx
  | AtInsertTopicIfAbsent
  | AtGetTopicForUpdate
  | AtLeaseCheck
  | AtUpsertConsumerSession
  | AtSetTopicExclusiveConsumer
  | AtReleaseTopic
  | AtGraceExpiry
  | AtAcquireMessagesByTopic
  | AtDeleteMessagesByIds
  | AtBumpTopicActivityIfStale
  | AtGetTopicsWithMessages
  | AtCatchup
  | AtDeleteExpiredConsumerSessions
  | AtGetMaintenanceCandidateTopics
  | AtCountLiveConsumerSessions
  | AtInsertMaintenanceLeases bool
  | AtClaimMaintenanceLeases bool
  | AtInsertMaintenanceLeaseIfAbsent
  | AtSelectMaintenanceLeaseForUpdate
  | AtUpdateMaintenanceLease
  | AtDeleteExpiredMessages
  | AtGetOldestMessageInsertedAt
  | AtLoopCheck
  | AtReleaseMaintenanceLease
  | AtPub
  | AtListenAcquire
  | AtListen
  | AtCreateSchema
  | AtGooseProvider
  | AtGooseUp

text \<open>
  How a call ended. \<open>Failed\<close>: the client got an error and the statement had no effect.
  \<open>Unacked\<close>: the client got an error although the server had carried the statement out,
  which is what a connection that breaks, or a context that ends, between the commit on the
  server and its acknowledgement looks like from the client.
\<close>

datatype outcome = Done | Failed driver_err | Unacked driver_err

fun outcome_err :: "outcome \<Rightarrow> go_err option" where
  "outcome_err Done = None"
| "outcome_err (Failed er) = Some (of_driver er)"
| "outcome_err (Unacked er) = Some (of_driver er)"

fun outcome_applied :: "outcome \<Rightarrow> bool" where
  "outcome_applied Done = True"
| "outcome_applied (Failed er) = False"
| "outcome_applied (Unacked er) = True"

lemma outcome_err_None [simp]: "outcome_err oc = None \<longleftrightarrow> oc = Done"
  by (cases oc) auto

section \<open>The package variables that hold durations\<close>

record atomicDuration =
  atomicDuration_ns :: "64 word"

definition newAtomicDuration :: "64 word \<Rightarrow> atomicDuration" where
  "newAtomicDuration d = \<lparr>atomicDuration_ns = d\<rparr>"

definition atomicDuration_Load :: "atomicDuration \<Rightarrow> 64 word" where
  "atomicDuration_Load a = atomicDuration_ns a"

definition atomicDuration_Store :: "64 word \<Rightarrow> atomicDuration \<Rightarrow> atomicDuration" where
  "atomicDuration_Store d a = a\<lparr>atomicDuration_ns := d\<rparr>"

record timings =
  maintenanceLeaseTimeout :: duration
  topicScanInterval :: duration
  maintenanceIdleInterval :: duration
  maintenanceRetryInterval :: duration
  maintenanceMinInterval :: duration
  maintenanceActivitySlack :: duration
  maintenanceCatchupInterval :: duration
  consumerSessionRetention :: duration
  exclusiveLeaseDuration :: duration
  exclusiveLeaseRenewInterval :: duration
  exclusiveLeaseRetryInterval :: duration
  exclusiveLeaseWriteTimeout :: duration

definition default_timings :: timings where
  "default_timings = \<lparr>
     maintenanceLeaseTimeout = 30 * second,
     topicScanInterval = 30 * second,
     maintenanceIdleInterval = 30 * second,
     maintenanceRetryInterval = 5 * second,
     maintenanceMinInterval = 5 * second,
     maintenanceActivitySlack = 120 * second,
     maintenanceCatchupInterval = 3600 * second,
     consumerSessionRetention = 3600 * second,
     exclusiveLeaseDuration = 30 * second,
     exclusiveLeaseRenewInterval = 10 * second,
     exclusiveLeaseRetryInterval = 1 * second,
     exclusiveLeaseWriteTimeout = 10 * second\<rparr>"

section \<open>The environment of one handler call\<close>

text \<open>
  \<open>e_clock\<close> is \<open>time.Now()\<close> read at a site, on the instance's own clock;
  \<open>e_now\<close> is \<open>now()\<close> on the database's clock, which inside a transaction is the
  time of its \<open>AtBegin\<close>. The lock fields say which rows other transactions hold when a
  statement with \<open>SKIP LOCKED\<close> looks at them, \<open>e_jsonb\<close> is the database's reading of a
  text as a JSON document (NULL where it is none), and \<open>e_shuffle\<close> is the permutation
  that \<open>rand.Shuffle\<close> applies.
\<close>

record env =
  e_outcome :: "site \<Rightarrow> outcome"
  e_clock :: "site \<Rightarrow> time"
  e_now :: "site \<Rightarrow> time"
  e_msg_locked :: "topic \<Rightarrow> int \<Rightarrow> bool"
  e_topic_locked :: "topic \<Rightarrow> bool"
  e_lease_locked :: "topic \<Rightarrow> bool"
  e_jsonb :: "string \<Rightarrow> string option"
  e_shuffle :: "topic list \<Rightarrow> topic list"
  e_timings :: timings

definition quiet_env :: "time \<Rightarrow> env" where
  "quiet_env t = \<lparr>
     e_outcome = (\<lambda>_. Done), e_clock = (\<lambda>_. t), e_now = (\<lambda>_. t),
     e_msg_locked = (\<lambda>_ _. False), e_topic_locked = (\<lambda>_. False), e_lease_locked = (\<lambda>_. False),
     e_jsonb = Some, e_shuffle = (\<lambda>xs. xs), e_timings = default_timings\<rparr>"

abbreviation call_err :: "env \<Rightarrow> site \<Rightarrow> go_err option" where
  "call_err e s \<equiv> outcome_err (e_outcome e s)"

definition no_faults :: "env \<Rightarrow> bool" where
  "no_faults e \<longleftrightarrow> e_outcome e = (\<lambda>_. Done)"

lemma no_faultsD [simp]: "no_faults e \<Longrightarrow> e_outcome e s = Done"
  by (simp add: no_faults_def)

lemma quiet_env_simps [simp]:
  "e_outcome (quiet_env t) s = Done"
  "e_clock (quiet_env t) s = t"
  "e_now (quiet_env t) s = t"
  "e_msg_locked (quiet_env t) tp i = False"
  "e_topic_locked (quiet_env t) tp = False"
  "e_lease_locked (quiet_env t) tp = False"
  "e_jsonb (quiet_env t) = Some"
  "e_shuffle (quiet_env t) = (\<lambda>xs. xs)"
  "e_timings (quiet_env t) = default_timings"
  "no_faults (quiet_env t)"
  by (simp_all add: quiet_env_def no_faults_def)

section \<open>Early returns\<close>

text \<open>
  \<open>if err != nil { return ... }\<close> after a call: the error branch or the rest of the body.
\<close>

definition on_err :: "go_err option \<Rightarrow> (go_err \<Rightarrow> 'r) \<Rightarrow> 'r \<Rightarrow> 'r" where
  "on_err er h k = (case er of Some x \<Rightarrow> h x | None \<Rightarrow> k)"

lemma on_err_simps [simp]:
  "on_err None h k = k"
  "on_err (Some x) h k = h x"
  by (simp_all add: on_err_def)

lemma on_err_split: "P (on_err er h k) \<longleftrightarrow> (er = None \<longrightarrow> P k) \<and> (\<forall>x. er = Some x \<longrightarrow> P (h x))"
  by (simp add: on_err_def split: option.split)

lemma on_err_split_asm:
  "P (on_err er h k) \<longleftrightarrow> \<not> ((er = None \<and> \<not> P k) \<or> (\<exists>x. er = Some x \<and> \<not> P (h x)))"
  by (simp add: on_err_def split: option.split)

lemmas on_err_splits = on_err_split on_err_split_asm

text \<open>A \<open>:one\<close> query: the driver's error, \<open>pgx.ErrNoRows\<close>, or the row.\<close>

definition query_one :: "env \<Rightarrow> site \<Rightarrow> 'r option \<Rightarrow> go_err + 'r" where
  "query_one e s row =
     (case call_err e s of
        Some er \<Rightarrow> Inl er
      | None \<Rightarrow> (case row of None \<Rightarrow> Inl ErrNoRows | Some r \<Rightarrow> Inr r))"

lemma query_one_Inr [simp]:
  "query_one e s row = Inr r \<longleftrightarrow> e_outcome e s = Done \<and> row = Some r"
  by (cases "e_outcome e s") (auto simp: query_one_def split: option.splits)

lemma query_one_NoRows:
  "query_one e s row = Inl er \<Longrightarrow>
     (errors_Is er ErrNoRows \<longleftrightarrow> e_outcome e s = Done \<and> row = None)"
  by (cases "e_outcome e s") (auto simp: query_one_def split: option.splits)

lemma query_one_Done [simp]:
  "e_outcome e s = Done \<Longrightarrow> query_one e s (Some r) = Inr r"
  "e_outcome e s = Done \<Longrightarrow> query_one e s None = Inl ErrNoRows"
  by (simp_all add: query_one_def)

end
