(* ===== verification/Tables.thy ===== *)
theory Tables
  imports Go_Runtime
begin

text \<open>
  The database: the four tables of \<open>sqlc/schema.sql\<close> with the row types of
  \<open>sqlc/models.go\<close>, the identity sequence of \<open>messages\<close>, the notifications of
  \<open>pg_notify\<close>, and the application's own tables (\<open>app\<close>, any type), which a flusher
  may write through the transaction it is given. A nullable column is an option. The insert
  trigger of the schema is here too, with transactions: a transaction works on a copy of the
  database that a commit publishes and a rollback throws away, except for the identity
  sequence, which never goes back.

  The invariant \<open>db_ok\<close> says what the schema promises: primary keys, identities below the
  sequence, and a \<open>topics\<close> row for every stored message.
\<close>

section \<open>Rows\<close>

record Message =
  m_ID :: int
  m_InsertedAt :: time
  m_Topic :: topic
  m_Payload :: string

record Topic =
  t_Topic :: topic
  t_ExpirationNanos :: "duration option"
  t_ExclusiveConsumerID :: "uuid option"
  t_ExclusiveConsumerExpiresAt :: "time option"
  t_LastInsertedAt :: "time option"

record MaintenanceLease =
  l_Topic :: topic
  l_HolderID :: uuid
  l_AcquiredAt :: time

record ConsumerSession =
  s_ConsumerID :: uuid
  s_ExpiresAt :: time
  s_MaintainsDefaultExpiration :: bool

record 'a db =
  messages :: "Message list"
  topics :: "Topic list"
  maintenance_leases :: "MaintenanceLease list"
  consumer_sessions :: "ConsumerSession list"
  messages_id_seq :: int
  tx_notifies :: "(string \<times> string) list"
  notified :: "(string \<times> string) list"
  app :: 'a

definition empty_db :: "'a \<Rightarrow> 'a db" where
  "empty_db a = \<lparr>messages = [], topics = [], maintenance_leases = [], consumer_sessions = [],
     messages_id_seq = 1, tx_notifies = [], notified = [], app = a\<rparr>"

abbreviation find_topic :: "topic \<Rightarrow> 'a db \<Rightarrow> Topic option" where
  "find_topic t d \<equiv> find_row t_Topic t (topics d)"

abbreviation find_lease :: "topic \<Rightarrow> 'a db \<Rightarrow> MaintenanceLease option" where
  "find_lease t d \<equiv> find_row l_Topic t (maintenance_leases d)"

abbreviation find_session :: "uuid \<Rightarrow> 'a db \<Rightarrow> ConsumerSession option" where
  "find_session c d \<equiv> find_row s_ConsumerID c (consumer_sessions d)"

interpretation topics_tbl: pk_table t_Topic topics "\<lambda>rs d. d\<lparr>topics := rs\<rparr>"
  by unfold_locales simp_all

interpretation leases_tbl: pk_table l_Topic maintenance_leases "\<lambda>rs d. d\<lparr>maintenance_leases := rs\<rparr>"
  by unfold_locales simp_all

interpretation sessions_tbl: pk_table s_ConsumerID consumer_sessions "\<lambda>rs d. d\<lparr>consumer_sessions := rs\<rparr>"
  by unfold_locales simp_all

interpretation messages_tbl: pk_table m_ID messages "\<lambda>rs d. d\<lparr>messages := rs\<rparr>"
  by unfold_locales simp_all

section \<open>The invariant of the schema\<close>

definition pk_ok :: "'a db \<Rightarrow> bool" where
  "pk_ok d \<longleftrightarrow> distinct (map t_Topic (topics d)) \<and>
     distinct (map l_Topic (maintenance_leases d)) \<and>
     distinct (map s_ConsumerID (consumer_sessions d)) \<and>
     distinct (map m_ID (messages d))"

definition ids_ok :: "'a db \<Rightarrow> bool" where
  "ids_ok d \<longleftrightarrow> list_all (\<lambda>m. m_ID m < messages_id_seq d) (messages d)"

definition topics_registered :: "'a db \<Rightarrow> bool" where
  "topics_registered d \<longleftrightarrow> list_all (\<lambda>m. m_Topic m \<in> t_Topic ` set (topics d)) (messages d)"

definition db_ok :: "'a db \<Rightarrow> bool" where
  "db_ok d \<longleftrightarrow> pk_ok d \<and> ids_ok d \<and> topics_registered d"

lemma db_ok_empty [simp]: "db_ok (empty_db a)"
  by (simp add: db_ok_def pk_ok_def ids_ok_def topics_registered_def empty_db_def)

lemma db_okD:
  assumes "db_ok d"
  shows "distinct (map t_Topic (topics d))" "distinct (map l_Topic (maintenance_leases d))"
    "distinct (map s_ConsumerID (consumer_sessions d))" "distinct (map m_ID (messages d))"
    "\<And>m. m \<in> set (messages d) \<Longrightarrow> m_ID m < messages_id_seq d"
    "\<And>m. m \<in> set (messages d) \<Longrightarrow> m_Topic m \<in> t_Topic ` set (topics d)"
  using assms
  by (auto simp: db_ok_def pk_ok_def ids_ok_def topics_registered_def list_all_iff)

text \<open>
  What a statement may do and keep the invariant: write rows of the other tables under
  distinct keys, drop messages, and never drop a topic.
\<close>

lemma db_ok_mono:
  assumes "db_ok d"
    and "distinct (map t_Topic (topics d'))" "t_Topic ` set (topics d) \<subseteq> t_Topic ` set (topics d')"
    and "distinct (map l_Topic (maintenance_leases d'))"
    and "distinct (map s_ConsumerID (consumer_sessions d'))"
    and "distinct (map m_ID (messages d'))" "set (messages d') \<subseteq> set (messages d)"
    and "messages_id_seq d \<le> messages_id_seq d'"
  shows "db_ok d'"
  using assms by (fastforce simp: db_ok_def pk_ok_def ids_ok_def topics_registered_def list_all_iff)

lemma db_ok_notifies [simp]:
  "db_ok (d\<lparr>tx_notifies := ns\<rparr>) = db_ok d"
  "db_ok (d\<lparr>notified := ns\<rparr>) = db_ok d"
  "db_ok (d\<lparr>app := a\<rparr>) = db_ok d"
  by (simp_all add: db_ok_def pk_ok_def ids_ok_def topics_registered_def)

lemma db_ok_seq: "db_ok d \<Longrightarrow> messages_id_seq d \<le> n \<Longrightarrow> db_ok (d\<lparr>messages_id_seq := n\<rparr>)"
  by (fastforce simp: db_ok_def pk_ok_def ids_ok_def topics_registered_def list_all_iff)

section \<open>Transactions\<close>

definition begin_tx :: "'a db \<Rightarrow> 'a db" where
  "begin_tx d = d\<lparr>tx_notifies := []\<rparr>"

definition commit_db :: "'a db \<Rightarrow> 'a db" where
  "commit_db tx = tx\<lparr>notified := notified tx @ tx_notifies tx, tx_notifies := []\<rparr>"

definition rollback :: "'a db \<Rightarrow> 'a db \<Rightarrow> 'a db" where
  "rollback d tx = d\<lparr>messages_id_seq := messages_id_seq tx\<rparr>"

text \<open>
  \<open>tx.Commit\<close>: the error the client sees and the database that results. \<open>exec_pool\<close> is
  a single statement on the pool, its own transaction.
\<close>

definition commit_tx :: "env \<Rightarrow> 'a db \<Rightarrow> 'a db \<Rightarrow> go_err option \<times> 'a db" where
  "commit_tx e d tx =
     (call_err e AtCommit,
      if outcome_applied (e_outcome e AtCommit) then commit_db tx else rollback d tx)"

definition exec_pool :: "env \<Rightarrow> site \<Rightarrow> ('a db \<Rightarrow> 'a db) \<Rightarrow> 'a db \<Rightarrow> go_err option \<times> 'a db" where
  "exec_pool e s f d =
     (call_err e s, if outcome_applied (e_outcome e s) then f d else d)"

lemma begin_tx_simps [simp]:
  "messages (begin_tx d) = messages d"
  "topics (begin_tx d) = topics d"
  "maintenance_leases (begin_tx d) = maintenance_leases d"
  "consumer_sessions (begin_tx d) = consumer_sessions d"
  "messages_id_seq (begin_tx d) = messages_id_seq d"
  "tx_notifies (begin_tx d) = []"
  "notified (begin_tx d) = notified d"
  "app (begin_tx d) = app d"
  "db_ok (begin_tx d) = db_ok d"
  by (simp_all add: begin_tx_def)

lemma commit_db_simps [simp]:
  "messages (commit_db d) = messages d"
  "topics (commit_db d) = topics d"
  "maintenance_leases (commit_db d) = maintenance_leases d"
  "consumer_sessions (commit_db d) = consumer_sessions d"
  "messages_id_seq (commit_db d) = messages_id_seq d"
  "tx_notifies (commit_db d) = []"
  "notified (commit_db d) = notified d @ tx_notifies d"
  "app (commit_db d) = app d"
  "db_ok (commit_db d) = db_ok d"
  by (simp_all add: commit_db_def)

lemma rollback_simps [simp]:
  "messages (rollback d tx) = messages d"
  "topics (rollback d tx) = topics d"
  "maintenance_leases (rollback d tx) = maintenance_leases d"
  "consumer_sessions (rollback d tx) = consumer_sessions d"
  "messages_id_seq (rollback d tx) = messages_id_seq tx"
  "tx_notifies (rollback d tx) = tx_notifies d"
  "notified (rollback d tx) = notified d"
  "app (rollback d tx) = app d"
  by (simp_all add: rollback_def)

lemma db_ok_rollback: "db_ok d \<Longrightarrow> messages_id_seq d \<le> messages_id_seq tx \<Longrightarrow> db_ok (rollback d tx)"
  by (simp add: rollback_def db_ok_seq)

lemma rollback_same [simp]: "messages_id_seq tx = messages_id_seq d \<Longrightarrow> rollback d tx = d"
  by (simp add: rollback_def)

lemma commit_tx_err [simp]: "fst (commit_tx e d tx) = call_err e AtCommit"
  by (simp add: commit_tx_def)

lemma exec_pool_err [simp]: "fst (exec_pool e s f d) = call_err e s"
  by (simp add: exec_pool_def)

lemma exec_pool_inv: "P d \<Longrightarrow> P (f d) \<Longrightarrow> P (snd (exec_pool e s f d))"
  by (simp add: exec_pool_def)

lemma commit_tx_inv: "P (commit_db tx) \<Longrightarrow> P (rollback d tx) \<Longrightarrow> P (snd (commit_tx e d tx))"
  by (simp add: commit_tx_def)

section \<open>The insert trigger\<close>

definition bump_granularity :: duration where
  "bump_granularity = 30 * second"

definition stale_activity :: "time \<Rightarrow> Topic \<Rightarrow> bool" where
  "stale_activity now t =
     (case t_LastInsertedAt t of None \<Rightarrow> True | Some l \<Rightarrow> l < now - bump_granularity)"

text \<open>
  \<open>topics_insert_trigger_fn\<close>: bump the activity of the batch's topics whose stamp is
  missing or stale and whose row no other transaction has locked, then register the topics of
  the batch that have no row.
\<close>

definition topics_insert_trigger_fn ::
  "time \<Rightarrow> (topic \<Rightarrow> bool) \<Rightarrow> Message list \<Rightarrow> 'a db \<Rightarrow> 'a db" where
  "topics_insert_trigger_fn now locked inserted d =
     (let batch = remdups (map m_Topic inserted);
          bumped = update_where
            (\<lambda>t. t_Topic t \<in> set batch \<and> stale_activity now t \<and> \<not> locked (t_Topic t))
            (\<lambda>t. t\<lparr>t_LastInsertedAt := Some now\<rparr>) (topics d);
          new_topics = filter (\<lambda>t. t \<notin> t_Topic ` set bumped) batch
      in d\<lparr>topics := bumped @ map (\<lambda>t. \<lparr>t_Topic = t, t_ExpirationNanos = None,
           t_ExclusiveConsumerID = None, t_ExclusiveConsumerExpiresAt = None,
           t_LastInsertedAt = Some now\<rparr>) new_topics\<rparr>)"

lemma trigger_frame [simp]:
  "messages (topics_insert_trigger_fn now lk ins d) = messages d"
  "maintenance_leases (topics_insert_trigger_fn now lk ins d) = maintenance_leases d"
  "consumer_sessions (topics_insert_trigger_fn now lk ins d) = consumer_sessions d"
  "messages_id_seq (topics_insert_trigger_fn now lk ins d) = messages_id_seq d"
  "tx_notifies (topics_insert_trigger_fn now lk ins d) = tx_notifies d"
  "notified (topics_insert_trigger_fn now lk ins d) = notified d"
  "app (topics_insert_trigger_fn now lk ins d) = app d"
  by (simp_all add: topics_insert_trigger_fn_def Let_def)

lemma trigger_topic_keys:
  "t_Topic ` set (topics (topics_insert_trigger_fn now lk ins d)) =
     t_Topic ` set (topics d) \<union> m_Topic ` set ins"
  by (auto simp: topics_insert_trigger_fn_def Let_def key_image_update_where image_Un image_image)

lemma trigger_pk:
  assumes "distinct (map t_Topic (topics d))"
  shows "distinct (map t_Topic (topics (topics_insert_trigger_fn now lk ins d)))"
  using assms
  by (auto simp: topics_insert_trigger_fn_def Let_def key_image_update_where keys_update_where
        comp_def)

text \<open>The trigger never touches the lease columns or the expiration of a row.\<close>

lemma trigger_find_topic:
  "find_topic t (topics_insert_trigger_fn now lk ins d) =
     (case find_topic t d of
        Some r \<Rightarrow> Some (if t \<in> m_Topic ` set ins \<and> stale_activity now r \<and> \<not> lk t
                        then r\<lparr>t_LastInsertedAt := Some now\<rparr> else r)
      | None \<Rightarrow> if t \<in> m_Topic ` set ins
                then Some \<lparr>t_Topic = t, t_ExpirationNanos = None, t_ExclusiveConsumerID = None,
                       t_ExclusiveConsumerExpiresAt = None, t_LastInsertedAt = Some now\<rparr>
                else None)"
proof -
  let ?p = "\<lambda>r. t_Topic r \<in> m_Topic ` set ins \<and> stale_activity now r \<and> \<not> lk (t_Topic r)"
  let ?f = "\<lambda>r. r\<lparr>t_LastInsertedAt := Some now\<rparr>"
  let ?row = "\<lambda>t. \<lparr>t_Topic = t, t_ExpirationNanos = None, t_ExclusiveConsumerID = None,
      t_ExclusiveConsumerExpiresAt = None, t_LastInsertedAt = Some now\<rparr>"
  let ?bumped = "update_where ?p ?f (topics d)"
  let ?new = "filter (\<lambda>t. t \<notin> t_Topic ` set ?bumped) (remdups (map m_Topic ins))"
  have bumped: "find_row t_Topic t ?bumped = map_option (\<lambda>r. if ?p r then ?f r else r) (find_topic t d)"
    by (rule find_row_update_where) simp
  have new: "find_row t_Topic t (map ?row ts) = (if t \<in> set ts then Some (?row t) else None)" for ts
    by (induction ts) auto
  have keys: "t_Topic ` set ?bumped = t_Topic ` set (topics d)"
    by (rule key_image_update_where) simp
  show ?thesis
  proof (cases "find_topic t d")
    case None
    then have "t \<notin> t_Topic ` set (topics d)" by (simp add: find_row_None_iff)
    with None bumped keys show ?thesis
      by (simp add: topics_insert_trigger_fn_def Let_def new)
  next
    case (Some r)
    then have "t_Topic r = t" by (rule find_row_key)
    with Some bumped show ?thesis
      by (auto simp: topics_insert_trigger_fn_def Let_def)
  qed
qed

end
