(* ===== verification/Outbox_Spec.thy ===== *)
theory Outbox_Spec
  imports Tables "HOL-Library.Multiset"
begin

text \<open>
  The abstract specification of an outbox: a list of pending messages, the next identity and the
  identities that open transactions have taken, with the actions that a correct outbox may take. What the actions promise over every run, that no
  message is lost and none leaves twice, is proved here once, in a locale for all systems whose
  steps refine the actions; the interpretation on the model of the program is in \<open>Fleet_Runs\<close>.
\<close>

section \<open>States and actions\<close>

record outbox =
  pending :: "Message list"
  next_id :: int
  reserved :: "int set"

datatype outbox_action =
    Stutter
  | Burn nat
  | Publish topic "Message list"
  | Deliver topic "Message list"
  | Expire topic time
  | Expire_Batch topic time "Message list"
  | Reserve nat
  | Release_Reserved "int set"
  | Publish_Reserved topic "Message list"

text \<open>\<open>Burn\<close> is the sequence moving under a transaction that rolled back; \<open>Publish\<close> is a transaction of
  a producer in one step. A transaction that stays open reserves identities, and publishes under
  them when it commits or gives them up. \<open>Expire_Batch\<close> drops the messages that a transaction found
  old enough when it looked, \<open>Expire\<close> all that are. An action that is not enabled has no result.\<close>

fun outbox_next :: "outbox_action \<Rightarrow> outbox \<Rightarrow> outbox option" where
  "outbox_next Stutter s = Some s"
| "outbox_next (Burn n) s = Some (s\<lparr>next_id := next_id s + int n\<rparr>)"
| "outbox_next (Publish t ms) s =
     (if ms \<noteq> [] \<and> map m_ID ms = map (\<lambda>k. next_id s + int k) [0..<length ms] \<and>
         list_all (\<lambda>m. m_Topic m = t) ms
      then Some (s\<lparr>pending := pending s @ ms, next_id := next_id s + int (length ms)\<rparr>) else None)"
| "outbox_next (Deliver t ms) s =
     (if ms \<noteq> [] \<and> sorted_wrt (<) (map m_ID ms) \<and>
         list_all (\<lambda>m. m_Topic m = t \<and> m \<in> set (pending s)) ms
      then Some (s\<lparr>pending := filter (\<lambda>m. m \<notin> set ms) (pending s)\<rparr>) else None)"
| "outbox_next (Expire t cutoff) s =
     Some (s\<lparr>pending := filter (\<lambda>m. \<not> (m_Topic m = t \<and> m_InsertedAt m < cutoff)) (pending s)\<rparr>)"
| "outbox_next (Expire_Batch t cutoff ms) s =
     (if distinct ms \<and> list_all (\<lambda>m. m_Topic m = t \<and> m_InsertedAt m < cutoff \<and> m \<in> set (pending s)) ms
      then Some (s\<lparr>pending := filter (\<lambda>m. m \<notin> set ms) (pending s)\<rparr>) else None)"
| "outbox_next (Reserve n) s =
     Some (s\<lparr>next_id := next_id s + int n, reserved := reserved s \<union> {next_id s..<next_id s + int n}\<rparr>)"
| "outbox_next (Release_Reserved ids) s = Some (s\<lparr>reserved := reserved s - ids\<rparr>)"
| "outbox_next (Publish_Reserved t ms) s =
     (if ms \<noteq> [] \<and> sorted_wrt (<) (map m_ID ms) \<and> list_all (\<lambda>m. m_Topic m = t \<and> m_ID m \<in> reserved s) ms
      then Some (s\<lparr>pending := pending s @ ms, reserved := reserved s - m_ID ` set ms\<rparr>) else None)"

text \<open>The messages that an action brings in and takes out.\<close>

fun act_published :: "outbox_action \<Rightarrow> Message list" where
  "act_published (Publish t ms) = ms"
| "act_published (Publish_Reserved t ms) = ms"
| "act_published a = []"

fun act_delivered :: "outbox_action \<Rightarrow> Message list" where
  "act_delivered (Deliver t ms) = ms"
| "act_delivered a = []"

fun act_expired :: "outbox_action \<Rightarrow> outbox \<Rightarrow> Message list" where
  "act_expired (Expire t cutoff) s = filter (\<lambda>m. m_Topic m = t \<and> m_InsertedAt m < cutoff) (pending s)"
| "act_expired (Expire_Batch t cutoff ms) s = ms"
| "act_expired a s = []"

text \<open>What the actions promise.\<close>

lemma mset_split: "mset xs = mset (filter P xs) + mset (filter (\<lambda>x. \<not> P x) xs)"
  by (simp add: multiset_partition [symmetric])

lemma mset_taken:
  assumes "distinct xs" "distinct ms" "set ms \<subseteq> set xs"
  shows "mset xs = mset (filter (\<lambda>x. x \<notin> set ms) xs) + mset ms"
proof -
  have "mset ms = mset (filter (\<lambda>x. x \<in> set ms) xs)"
    using assms by (intro set_eq_iff_mset_eq_distinct [THEN iffD1] distinct_filter) auto
  then show ?thesis by (simp only: mset_split [of xs "\<lambda>x. x \<in> set ms"] add.commute)
qed

lemma outbox_conserves:
  assumes "outbox_next a s = Some s'" "distinct (pending s)"
  shows "mset (pending s) + mset (act_published a) =
    mset (pending s') + mset (act_delivered a) + mset (act_expired a s)"
proof (cases a)
  case (Deliver t ms)
  with assms(1) have ms: "set ms \<subseteq> set (pending s)" "sorted_wrt (<) (map m_ID ms)"
    and s': "pending s' = filter (\<lambda>m. m \<notin> set ms) (pending s)"
    by (auto simp: list_all_iff split: if_splits)
  have "distinct ms" using ms(2) by (metis distinct_map strict_sorted_iff)
  from mset_taken [OF assms(2) this ms(1)] show ?thesis unfolding s' by (simp add: Deliver)
next
  case (Expire_Batch t cutoff ms)
  with assms(1) have ms: "set ms \<subseteq> set (pending s)" "distinct ms"
    and s': "pending s' = filter (\<lambda>m. m \<notin> set ms) (pending s)"
    by (auto simp: list_all_iff split: if_splits)
  from mset_taken [OF assms(2) ms(2,1)] show ?thesis unfolding s' by (simp add: Expire_Batch)
next
  case (Expire t cutoff)
  with assms(1) have "pending s' = filter (\<lambda>m. \<not> (m_Topic m = t \<and> m_InsertedAt m < cutoff)) (pending s)"
    by auto
  then have "mset (pending s) = mset (act_expired a s) + mset (pending s')"
    unfolding Expire act_expired.simps
    by (simp only: mset_split [of "pending s" "\<lambda>m. m_Topic m = t \<and> m_InsertedAt m < cutoff"])
  then show ?thesis unfolding Expire by (simp only: act_published.simps act_delivered.simps mset.simps add_0_right ac_simps)
qed (use assms(1) in \<open>auto split: if_splits\<close>)

lemma sorted_ids_distinct: "sorted_wrt (<) (map m_ID ms) \<Longrightarrow> distinct (map m_ID ms)"
  by (simp add: strict_sorted_iff)

text \<open>What becomes published has an identity that was reserved or is new, and is reserved no longer;
  an identity that is neither new nor reserved never will be.\<close>

lemma outbox_published_ids:
  assumes "outbox_next a s = Some s'" "\<And>i. i \<in> reserved s \<Longrightarrow> i < next_id s"
  shows "next_id s \<le> next_id s'" "distinct (map m_ID (act_published a))"
    "i \<in> reserved s' \<Longrightarrow> i \<in> reserved s \<or> next_id s \<le> i"
    "m \<in> set (act_published a) \<Longrightarrow>
       (m_ID m \<in> reserved s \<or> next_id s \<le> m_ID m) \<and> m_ID m < next_id s' \<and> m_ID m \<notin> reserved s'"
proof -
  show "next_id s \<le> next_id s'" "i \<in> reserved s' \<Longrightarrow> i \<in> reserved s \<or> next_id s \<le> i"
    using assms(1) by (cases a; auto split: if_splits)+
  have "distinct (map (\<lambda>k. next_id s + int k) [0..<n])" for n
    by (simp add: distinct_map inj_on_def)
  then show "distinct (map m_ID (act_published a))"
    using assms(1) by (cases a) (auto simp: sorted_ids_distinct split: if_splits)
  assume m: "m \<in> set (act_published a)"
  show "(m_ID m \<in> reserved s \<or> next_id s \<le> m_ID m) \<and> m_ID m < next_id s' \<and> m_ID m \<notin> reserved s'"
  proof (cases a)
    case (Publish t ms)
    with assms(1) have ids: "map m_ID ms = map (\<lambda>k. next_id s + int k) [0..<length ms]"
      and nx: "next_id s' = next_id s + int (length ms)" "reserved s' = reserved s"
      by (auto split: if_splits)
    from m Publish have "m_ID m \<in> set (map m_ID ms)" by simp
    then have "next_id s \<le> m_ID m \<and> m_ID m < next_id s'" unfolding ids nx by auto
    with assms(2) nx(2) show ?thesis by force
  next
    case (Publish_Reserved t ms)
    with m assms show ?thesis by (auto simp: list_all_iff split: if_splits)
  qed (use m in simp_all)
qed

section \<open>Runs of a system that refines the outbox\<close>

text \<open>What the steps of a run yield, one after the other.\<close>

fun collect :: "('op \<Rightarrow> 's \<Rightarrow> 'm list) \<Rightarrow> ('op \<Rightarrow> 's \<Rightarrow> 's) \<Rightarrow> 'op list \<Rightarrow> 's \<Rightarrow> 'm list" where
  "collect f step [] s = []"
| "collect f step (op1 # ops) s = f op1 s @ collect f step ops (step op1 s)"

abbreviation run_published ::
  "('op \<Rightarrow> 's \<Rightarrow> 's) \<Rightarrow> ('op \<Rightarrow> 's \<Rightarrow> outbox_action) \<Rightarrow> 'op list \<Rightarrow> 's \<Rightarrow> Message list" where
  "run_published step act \<equiv> collect (\<lambda>op1 s. act_published (act op1 s)) step"

abbreviation run_delivered ::
  "('op \<Rightarrow> 's \<Rightarrow> 's) \<Rightarrow> ('op \<Rightarrow> 's \<Rightarrow> outbox_action) \<Rightarrow> 'op list \<Rightarrow> 's \<Rightarrow> Message list" where
  "run_delivered step act \<equiv> collect (\<lambda>op1 s. act_delivered (act op1 s)) step"

abbreviation run_expired ::
  "('op \<Rightarrow> 's \<Rightarrow> 's) \<Rightarrow> ('op \<Rightarrow> 's \<Rightarrow> outbox_action) \<Rightarrow> ('s \<Rightarrow> outbox) \<Rightarrow> 'op list \<Rightarrow> 's \<Rightarrow> Message list" where
  "run_expired step act view \<equiv> collect (\<lambda>op1 s. act_expired (act op1 s) (view s)) step"

locale outbox_refinement =
  fixes step :: "'op \<Rightarrow> 's \<Rightarrow> 's"
    and ok :: "'op \<Rightarrow> bool"
    and inv :: "'s \<Rightarrow> bool"
    and view :: "'s \<Rightarrow> outbox"
    and act :: "'op \<Rightarrow> 's \<Rightarrow> outbox_action"
  assumes inv_step: "ok op1 \<Longrightarrow> inv s \<Longrightarrow> inv (step op1 s)"
    and refines_step: "ok op1 \<Longrightarrow> inv s \<Longrightarrow> outbox_next (act op1 s) (view s) = Some (view (step op1 s))"
    and inv_distinct: "inv s \<Longrightarrow> distinct (map m_ID (pending (view s)))"
    and inv_below: "inv s \<Longrightarrow> m \<in> set (pending (view s)) \<Longrightarrow> m_ID m < next_id (view s)"
    and inv_reserved: "inv s \<Longrightarrow> i \<in> reserved (view s) \<Longrightarrow> i < next_id (view s) \<and> i \<notin> m_ID ` set (pending (view s))"
begin

lemma run_inv: "list_all ok ops \<Longrightarrow> inv s \<Longrightarrow> inv (fold step ops s)"
  by (induction ops arbitrary: s) (simp_all add: inv_step)

lemma run_conserves:
  "list_all ok ops \<Longrightarrow> inv s \<Longrightarrow>
     mset (pending (view s)) + mset (run_published step act ops s) =
     mset (pending (view (fold step ops s))) + mset (run_delivered step act ops s) + mset (run_expired step act view ops s)"
proof (induction ops arbitrary: s)
  case (Cons op1 ops)
  let ?s = "step op1 s"
  have "distinct (pending (view s))"
    using inv_distinct [OF Cons.prems(2)] by (simp add: distinct_map)
  with outbox_conserves [OF refines_step] Cons.prems
  have first: "mset (pending (view s)) + mset (act_published (act op1 s)) =
      mset (pending (view ?s)) + mset (act_delivered (act op1 s)) + mset (act_expired (act op1 s) (view s))"
    by simp
  have rest: "mset (pending (view ?s)) + mset (run_published step act ops ?s) =
      mset (pending (view (fold step ops ?s))) + mset (run_delivered step act ops ?s) + mset (run_expired step act view ops ?s)"
    using Cons by (simp add: inv_step)
  have "mset (pending (view s)) + mset (run_published step act (op1 # ops) s) =
      (mset (pending (view s)) + mset (act_published (act op1 s))) + mset (run_published step act ops ?s)"
    by simp
  also have "\<dots> = (mset (pending (view ?s)) + mset (run_published step act ops ?s)) +
      mset (act_delivered (act op1 s)) + mset (act_expired (act op1 s) (view s))"
    unfolding first by (simp only: ac_simps)
  also have "\<dots> = mset (pending (view (fold step (op1 # ops) s))) + mset (run_delivered step act (op1 # ops) s) +
      mset (run_expired step act view (op1 # ops) s)"
    unfolding rest by (simp only: mset_append collect.simps fold_simps ac_simps)
  finally show ?case .
qed simp

lemma step_ids:
  assumes "ok op1" "inv s"
  shows "next_id (view s) \<le> next_id (view (step op1 s))"
    "distinct (map m_ID (act_published (act op1 s)))"
    "i \<in> reserved (view (step op1 s)) \<Longrightarrow> i \<in> reserved (view s) \<or> next_id (view s) \<le> i"
    "m \<in> set (act_published (act op1 s)) \<Longrightarrow>
       (m_ID m \<in> reserved (view s) \<or> next_id (view s) \<le> m_ID m) \<and>
       m_ID m < next_id (view (step op1 s)) \<and> m_ID m \<notin> reserved (view (step op1 s))"
  using outbox_published_ids [OF refines_step [OF assms]] inv_reserved [OF assms(2)] by blast+

lemma run_published_ids:
  "list_all ok ops \<Longrightarrow> inv s \<Longrightarrow>
     distinct (map m_ID (run_published step act ops s)) \<and>
     (\<forall>m \<in> set (run_published step act ops s). m_ID m \<in> reserved (view s) \<or> next_id (view s) \<le> m_ID m)"
proof (induction ops arbitrary: s)
  case (Cons op1 ops)
  let ?s = "step op1 s"
  from Cons.prems have ok: "ok op1" "inv s" by simp_all
  have new: "distinct (map m_ID (run_published step act ops ?s))"
    "m \<in> set (run_published step act ops ?s) \<Longrightarrow> m_ID m \<in> reserved (view ?s) \<or> next_id (view ?s) \<le> m_ID m" for m
    using Cons by (simp_all add: inv_step)
  have above: "m_ID m \<in> reserved (view s) \<or> next_id (view s) \<le> m_ID m"
    if "m \<in> set (run_published step act ops ?s)" for m
    using new(2) [OF that] step_ids(1,3) [OF ok] by force
  have "m_ID m \<noteq> m_ID m'" if "m \<in> set (act_published (act op1 s))" "m' \<in> set (run_published step act ops ?s)" for m m'
    using step_ids(4) [OF ok that(1)] new(2) [OF that(2)] by auto
  then have "m_ID ` set (act_published (act op1 s)) \<inter> m_ID ` set (run_published step act ops ?s) = {}"
    by blast
  with new(1) step_ids(2,4) [OF ok] above show ?case by auto
qed simp

lemma run_once:
  assumes "list_all ok ops" "inv s"
  shows "distinct (map m_ID (pending (view (fold step ops s)) @ run_delivered step act ops s @
    run_expired step act view ops s))"
proof -
  have "m_ID m \<noteq> m_ID m'" if m: "m \<in> set (pending (view s))" and m': "m' \<in> set (run_published step act ops s)" for m m'
  proof -
    have "m_ID m' \<in> reserved (view s) \<or> next_id (view s) \<le> m_ID m'"
      using run_published_ids [OF assms] m' by blast
    with inv_below [OF assms(2) m] inv_reserved [OF assms(2), of "m_ID m"] m show ?thesis by auto
  qed
  then have "m_ID ` set (pending (view s)) \<inter> m_ID ` set (run_published step act ops s) = {}"
    by blast
  then have dist: "distinct (map m_ID (pending (view s) @ run_published step act ops s))"
    using inv_distinct [OF assms(2)] run_published_ids [OF assms] by simp
  have same: "mset (map m_ID (pending (view s) @ run_published step act ops s)) =
      mset (map m_ID (pending (view (fold step ops s)) @ run_delivered step act ops s @
        run_expired step act view ops s))"
    using arg_cong [OF run_conserves [OF assms], of "image_mset m_ID"] by (simp add: add.assoc)
  from dist show ?thesis unfolding mset_eq_imp_distinct_iff [OF same] .
qed

text \<open>An identity that is given up, or was never taken, is gone: nothing with it is ever pending or
  leaves. And what has left was not reserved.\<close>

lemma run_gone:
  assumes "list_all ok ops" "inv s"
    and "i < next_id (view s)" "i \<notin> reserved (view s)" "i \<notin> m_ID ` set (pending (view s))"
  shows "i \<notin> m_ID ` set (pending (view (fold step ops s)) @ run_delivered step act ops s @ run_expired step act view ops s)"
proof -
  have "set (pending (view (fold step ops s)) @ run_delivered step act ops s @ run_expired step act view ops s) =
      set (pending (view s)) \<union> set (run_published step act ops s)"
    using arg_cong [OF run_conserves [OF assms(1,2)], of set_mset] by (simp add: Un_assoc)
  moreover have "i \<notin> m_ID ` set (run_published step act ops s)"
    using run_published_ids [OF assms(1,2)] assms(3,4) by force
  ultimately show ?thesis using assms(5) by (auto simp: image_Un)
qed

lemma run_unreserved:
  "list_all ok ops \<Longrightarrow> inv s \<Longrightarrow> i < next_id (view s) \<Longrightarrow> i \<notin> reserved (view s) \<Longrightarrow>
     i \<notin> reserved (view (fold step ops s))"
proof (induction ops arbitrary: s)
  case (Cons op1 ops)
  then have ok: "ok op1" "inv s" by simp_all
  have "i < next_id (view (step op1 s))" using step_ids(1) [OF ok] Cons.prems(3) by linarith
  moreover have "i \<notin> reserved (view (step op1 s))" using step_ids(3) [OF ok, of i] Cons.prems(3,4) by auto
  ultimately show ?case using Cons.IH [of "step op1 s"] Cons.prems(1) ok by (simp add: inv_step)
qed simp

lemma run_delivered_unreserved:
  "list_all ok ops \<Longrightarrow> inv s \<Longrightarrow> m \<in> set (run_delivered step act ops s) \<Longrightarrow>
     m_ID m \<notin> reserved (view (fold step ops s))"
proof (induction ops arbitrary: s)
  case (Cons op1 ops)
  then have ok: "ok op1" "inv s" by simp_all
  show ?case
  proof (cases "m \<in> set (act_delivered (act op1 s))")
    case True
    then have "m \<in> set (pending (view s))"
      using refines_step [OF ok] by (cases "act op1 s") (auto simp: list_all_iff split: if_splits)
    with inv_below [OF ok(2)] inv_reserved [OF ok(2)] run_unreserved [OF Cons.prems(1) ok(2), of "m_ID m"]
    show ?thesis by auto
  next
    case False
    with Cons show ?thesis by (auto simp: inv_step)
  qed
qed simp

end

end
