(* ===== verification/Queries.thy ===== *)
theory Queries
  imports Tables "HOL-Library.Char_ord" "HOL-Library.List_Lexorder"
begin

text \<open>
  The statements of \<open>sqlc/queries.sql.go\<close>, one definition each, under the names of the
  methods of \<open>sqlc.Queries\<close>. A definition is what the SQL text does to the database and
  which rows it returns; whether the call succeeds is decided by the handler that makes it.
  \<open>now\<close> is the database's \<open>now()\<close>. A parameter that is a \<open>pgtype\<close> value or a
  pointer is an option. Durations and times are exact, in nanoseconds; where a query compares
  seconds as floating point numbers the model compares nanoseconds.
\<close>

section \<open>Messages\<close>

text \<open>\<open>FOR UPDATE SKIP LOCKED\<close> drops the rows another transaction has locked before the limit counts.\<close>

definition AcquireMessagesByTopic ::
  "(topic \<Rightarrow> int \<Rightarrow> bool) \<Rightarrow> topic \<Rightarrow> int option \<Rightarrow> 'a db \<Rightarrow> Message list" where
  "AcquireMessagesByTopic locked topic limit d =
     take (nat (case limit of None \<Rightarrow> 100 | Some n \<Rightarrow> n))
       (filter (\<lambda>m. \<not> locked (m_Topic m) (m_ID m))
         (sort_key m_ID (filter (\<lambda>m. m_Topic m = topic) (messages d))))"

definition DeleteMessagesByIds :: "topic \<Rightarrow> int list \<Rightarrow> 'a db \<Rightarrow> 'a db" where
  "DeleteMessagesByIds topic ids d =
     d\<lparr>messages := delete_where (\<lambda>m. m_Topic m = topic \<and> m_ID m \<in> set ids) (messages d)\<rparr>"

definition DeleteExpiredMessages :: "topic \<Rightarrow> time option \<Rightarrow> 'a db \<Rightarrow> 'a db" where
  "DeleteExpiredMessages topic cutoff d =
     d\<lparr>messages := delete_where
         (\<lambda>m. m_Topic m = topic \<and> (case cutoff of None \<Rightarrow> False | Some c \<Rightarrow> m_InsertedAt m < c))
         (messages d)\<rparr>"

definition GetOldestMessageInsertedAt :: "topic \<Rightarrow> 'a db \<Rightarrow> time option" where
  "GetOldestMessageInsertedAt topic d =
     (case sort_key (\<lambda>t. t) (map m_InsertedAt (filter (\<lambda>m. m_Topic m = topic) (messages d))) of
        [] \<Rightarrow> None
      | t # _ \<Rightarrow> Some t)"

text \<open>
  The recursive common table expression of \<open>GetTopicsWithMessages\<close>: the least key, then
  again and again the least key above the last one, until there is none.
\<close>

definition least_above :: "'k::linorder option \<Rightarrow> 'k list \<Rightarrow> 'k option" where
  "least_above prev ks =
     (case sort (filter (\<lambda>k. case prev of None \<Rightarrow> True | Some l \<Rightarrow> l < k) ks) of
        [] \<Rightarrow> None
      | k # _ \<Rightarrow> Some k)"

lemma least_above_SomeD:
  "least_above prev ks = Some k \<Longrightarrow>
     k \<in> set ks \<and> (\<forall>l. prev = Some l \<longrightarrow> l < k) \<and>
     (\<forall>x \<in> set ks. (\<forall>l. prev = Some l \<longrightarrow> l < x) \<longrightarrow> k \<le> x)"
proof -
  let ?p = "\<lambda>k. case prev of None \<Rightarrow> True | Some l \<Rightarrow> l < k"
  assume "least_above prev ks = Some k"
  then obtain xs where xs: "sort (filter ?p ks) = k # xs"
    by (auto simp: least_above_def split: list.splits)
  have "set (sort (filter ?p ks)) = set (filter ?p ks)" by simp
  with xs have s: "set (k # xs) = {x \<in> set ks. ?p x}" by simp
  have "sorted (sort (filter ?p ks))" by simp
  with xs have "\<forall>x \<in> set (k # xs). k \<le> x" by (simp del: sorted_sort)
  moreover from s have "k \<in> {x \<in> set ks. ?p x}" by auto
  ultimately show ?thesis using s by (auto split: option.splits)
qed

lemma least_above_NoneD:
  "least_above prev ks = None \<Longrightarrow> x \<in> set ks \<Longrightarrow> \<exists>l. prev = Some l \<and> x \<le> l"
proof -
  let ?p = "\<lambda>k. case prev of None \<Rightarrow> True | Some l \<Rightarrow> l < k"
  assume "least_above prev ks = None" and x: "x \<in> set ks"
  then have "sort (filter ?p ks) = []"
    by (auto simp: least_above_def split: list.splits)
  then have "filter ?p ks = []"
    by (metis set_empty set_sort)
  with x have "\<not> ?p x" by (auto simp: filter_empty_conv)
  then show ?thesis by (auto split: option.splits)
qed

definition keys_above :: "'k::linorder option \<Rightarrow> 'k list \<Rightarrow> 'k set" where
  "keys_above prev ks = {x \<in> set ks. \<forall>l. prev = Some l \<longrightarrow> l < x}"

lemma card_keys_above:
  assumes "least_above prev ks = Some k"
  shows "card (keys_above (Some k) ks) < card (keys_above prev ks)"
proof -
  from least_above_SomeD [OF assms]
  have "k \<in> keys_above prev ks" "k \<notin> keys_above (Some k) ks"
    and "keys_above (Some k) ks \<subseteq> keys_above prev ks"
    by (auto simp: keys_above_def)
  then have "keys_above (Some k) ks \<subset> keys_above prev ks" by blast
  then show ?thesis by (rule psubset_card_mono [rotated]) (simp add: keys_above_def)
qed

function topics_above :: "'k::linorder option \<Rightarrow> 'k list \<Rightarrow> 'k list" where
  "topics_above prev ks =
     (case least_above prev ks of None \<Rightarrow> [] | Some k \<Rightarrow> k # topics_above (Some k) ks)"
  by pat_completeness auto
termination
  by (relation "measure (\<lambda>(prev, ks). card (keys_above prev ks))") (auto intro: card_keys_above)

declare topics_above.simps [simp del]

text \<open>
  The order of the \<open>topic\<close> column is the lexicographic order of its bytes, the \<open>C\<close>
  collation; the recursion itself is defined, and terminates, for any linear order.
\<close>

definition GetTopicsWithMessages :: "'a db \<Rightarrow> topic list" where
  "GetTopicsWithMessages d = topics_above None (map m_Topic (messages d))"

section \<open>Topics\<close>

definition InsertTopicIfAbsent :: "time \<Rightarrow> topic \<Rightarrow> duration option \<Rightarrow> 'a db \<Rightarrow> 'a db" where
  "InsertTopicIfAbsent now topic expirationNanos d =
     d\<lparr>topics := insert_on_conflict t_Topic
         (\<lambda>t. t\<lparr>t_ExpirationNanos := coalesce (t_ExpirationNanos t) expirationNanos\<rparr>)
         \<lparr>t_Topic = topic, t_ExpirationNanos = expirationNanos, t_ExclusiveConsumerID = None,
          t_ExclusiveConsumerExpiresAt = None, t_LastInsertedAt = Some now\<rparr>
         (topics d)\<rparr>"

definition BumpTopicActivityIfStale :: "time \<Rightarrow> topic \<Rightarrow> 'a db \<Rightarrow> 'a db" where
  "BumpTopicActivityIfStale now topic d =
     d\<lparr>topics := update_where
         (\<lambda>t. t_Topic t = topic \<and>
            (case t_LastInsertedAt t of None \<Rightarrow> True | Some l \<Rightarrow> l < now - 30 * second))
         (\<lambda>t. t\<lparr>t_LastInsertedAt := Some now\<rparr>) (topics d)\<rparr>"

record GetTopicForUpdateRow =
  g_ExclusiveConsumerID :: "uuid option"
  g_ExclusiveConsumerExpiresAt :: "time option"

definition GetTopicForUpdate :: "topic \<Rightarrow> 'a db \<Rightarrow> GetTopicForUpdateRow option" where
  "GetTopicForUpdate topic d =
     map_option (\<lambda>t. \<lparr>g_ExclusiveConsumerID = t_ExclusiveConsumerID t,
         g_ExclusiveConsumerExpiresAt = coalesce (t_ExclusiveConsumerExpiresAt t)
           (case t_ExclusiveConsumerID t of
              None \<Rightarrow> None
            | Some c \<Rightarrow> map_option s_ExpiresAt (find_session c d))\<rparr>)
       (find_topic topic d)"

definition SetTopicExclusiveConsumer ::
  "topic \<Rightarrow> uuid option \<Rightarrow> time option \<Rightarrow> 'a db \<Rightarrow> 'a db" where
  "SetTopicExclusiveConsumer topic consumer expiresAt d =
     d\<lparr>topics := update_where (\<lambda>t. t_Topic t = topic)
         (\<lambda>t. t\<lparr>t_ExclusiveConsumerID := consumer, t_ExclusiveConsumerExpiresAt := expiresAt\<rparr>)
         (topics d)\<rparr>"

definition RenewTopicExclusiveConsumer ::
  "topic \<Rightarrow> uuid option \<Rightarrow> time option \<Rightarrow> 'a db \<Rightarrow> 'a db" where
  "RenewTopicExclusiveConsumer topic consumer expiresAt d =
     d\<lparr>topics := update_where
         (\<lambda>t. t_Topic t = topic \<and> consumer \<noteq> None \<and> t_ExclusiveConsumerID t = consumer)
         (\<lambda>t. t\<lparr>t_ExclusiveConsumerExpiresAt := expiresAt\<rparr>) (topics d)\<rparr>"

definition GetTopicsWithExpiration :: "'a db \<Rightarrow> Topic list" where
  "GetTopicsWithExpiration d = filter (\<lambda>t. t_ExpirationNanos t \<noteq> None) (topics d)"

section \<open>Consumer sessions\<close>

definition UpsertConsumerSession :: "uuid \<Rightarrow> time \<Rightarrow> bool \<Rightarrow> 'a db \<Rightarrow> 'a db" where
  "UpsertConsumerSession consumer expiresAt maintains d =
     d\<lparr>consumer_sessions := insert_on_conflict s_ConsumerID
         (\<lambda>s. s\<lparr>s_ExpiresAt := expiresAt, s_MaintainsDefaultExpiration := maintains\<rparr>)
         \<lparr>s_ConsumerID = consumer, s_ExpiresAt = expiresAt,
          s_MaintainsDefaultExpiration = maintains\<rparr>
         (consumer_sessions d)\<rparr>"

definition DeleteExpiredConsumerSessions :: "time option \<Rightarrow> 'a db \<Rightarrow> 'a db" where
  "DeleteExpiredConsumerSessions cutoff d =
     d\<lparr>consumer_sessions := delete_where
         (\<lambda>s. case cutoff of None \<Rightarrow> False | Some c \<Rightarrow> s_ExpiresAt s < c) (consumer_sessions d)\<rparr>"

definition CountLiveConsumerSessions :: "time \<Rightarrow> 'a db \<Rightarrow> nat \<times> nat" where
  "CountLiveConsumerSessions now d =
     (let live = filter (\<lambda>s. s_ExpiresAt s > now) (consumer_sessions d)
      in (length live, length (filter s_MaintainsDefaultExpiration live)))"

text \<open>\<open>s.expired\<close> of the joined session: NULL where the holder has no session row.\<close>

definition session_expired :: "time \<Rightarrow> uuid \<Rightarrow> 'a db \<Rightarrow> bool option" where
  "session_expired now holder d = map_option (\<lambda>s. s_ExpiresAt s < now) (find_session holder d)"

section \<open>Maintenance leases\<close>

definition InsertMaintenanceLeaseIfAbsent :: "time \<Rightarrow> topic \<Rightarrow> uuid \<Rightarrow> 'a db \<Rightarrow> 'a db" where
  "InsertMaintenanceLeaseIfAbsent now topic holder d =
     d\<lparr>maintenance_leases := insert_on_conflict l_Topic (\<lambda>l. l)
         \<lparr>l_Topic = topic, l_HolderID = holder, l_AcquiredAt = now\<rparr> (maintenance_leases d)\<rparr>"

fun InsertMaintenanceLeases :: "time \<Rightarrow> topic list \<Rightarrow> uuid \<Rightarrow> 'a db \<Rightarrow> topic list \<times> 'a db" where
  "InsertMaintenanceLeases now [] holder d = ([], d)"
| "InsertMaintenanceLeases now (t # ts) holder d =
     (let (won, d') = InsertMaintenanceLeases now ts holder
            (InsertMaintenanceLeaseIfAbsent now t holder d)
      in (if find_lease t d = None then t # won else won, d'))"

record SelectMaintenanceLeaseForUpdateRow =
  sl_HolderID :: uuid
  sl_LeaseExpired :: bool

definition SelectMaintenanceLeaseForUpdate ::
  "time \<Rightarrow> time option \<Rightarrow> topic \<Rightarrow> 'a db \<Rightarrow> SelectMaintenanceLeaseForUpdateRow option" where
  "SelectMaintenanceLeaseForUpdate now staleCutoff topic d =
     map_option (\<lambda>l. \<lparr>sl_HolderID = l_HolderID l,
         sl_LeaseExpired = the (coalesce (session_expired now (l_HolderID l) d)
           (coalesce (map_option (\<lambda>c. l_AcquiredAt l < c) staleCutoff) (Some True)))\<rparr>)
       (find_lease topic d)"

definition UpdateMaintenanceLease :: "time \<Rightarrow> topic \<Rightarrow> uuid \<Rightarrow> 'a db \<Rightarrow> 'a db" where
  "UpdateMaintenanceLease now topic holder d =
     d\<lparr>maintenance_leases := update_where (\<lambda>l. l_Topic l = topic)
         (\<lambda>l. l\<lparr>l_HolderID := holder, l_AcquiredAt := now\<rparr>) (maintenance_leases d)\<rparr>"

text \<open>\<open>WHERE\<close> keeps a row only where its condition is true, so a NULL drops it.\<close>

definition claimable_lease ::
  "(topic \<Rightarrow> bool) \<Rightarrow> time \<Rightarrow> topic list \<Rightarrow> time option \<Rightarrow> 'a db \<Rightarrow> MaintenanceLease \<Rightarrow> bool" where
  "claimable_lease locked now ts staleCutoff d l \<longleftrightarrow>
     l_Topic l \<in> set ts \<and>
     coalesce (session_expired now (l_HolderID l) d)
       (map_option (\<lambda>c. l_AcquiredAt l < c) staleCutoff) = Some True \<and>
     \<not> locked (l_Topic l)"

definition ClaimMaintenanceLeases ::
  "(topic \<Rightarrow> bool) \<Rightarrow> time \<Rightarrow> uuid \<Rightarrow> topic list \<Rightarrow> time option \<Rightarrow> 'a db \<Rightarrow> topic list \<times> 'a db" where
  "ClaimMaintenanceLeases locked now holder ts staleCutoff d =
     (map l_Topic (filter (claimable_lease locked now ts staleCutoff d) (maintenance_leases d)),
      d\<lparr>maintenance_leases := update_where (claimable_lease locked now ts staleCutoff d)
         (\<lambda>l. l\<lparr>l_HolderID := holder, l_AcquiredAt := now\<rparr>) (maintenance_leases d)\<rparr>)"

definition ReleaseMaintenanceLease :: "topic \<Rightarrow> uuid \<Rightarrow> 'a db \<Rightarrow> 'a db" where
  "ReleaseMaintenanceLease topic holder d =
     d\<lparr>maintenance_leases := delete_where (\<lambda>l. l_Topic l = topic \<and> l_HolderID l = holder)
         (maintenance_leases d)\<rparr>"

record GetMaintenanceCandidateTopicsRow =
  c_Topic :: topic
  c_ExpirationNanos :: "duration option"
  c_HeldByMe :: bool
  c_Unleased :: bool
  c_LeaseExpired :: bool

definition candidate_topic ::
  "time \<Rightarrow> duration option \<Rightarrow> topic list \<Rightarrow> duration \<Rightarrow> Topic \<Rightarrow> bool" where
  "candidate_topic now defaultNanos include slack t \<longleftrightarrow>
     the (coalesce (t_ExpirationNanos t) (coalesce defaultNanos (Some 0))) > 0 \<and>
     (t_Topic t \<in> set include \<or>
      (case t_LastInsertedAt t of
         None \<Rightarrow> True
       | Some l \<Rightarrow>
           (case coalesce (t_ExpirationNanos t) defaultNanos of
              None \<Rightarrow> False
            | Some ttl \<Rightarrow> now - l < ttl + slack)))"

definition candidate_row ::
  "time \<Rightarrow> uuid \<Rightarrow> time option \<Rightarrow> 'a db \<Rightarrow> Topic \<Rightarrow> GetMaintenanceCandidateTopicsRow" where
  "candidate_row now holder staleCutoff d t =
     (let l = find_lease (t_Topic t) d;
          expired = (case l of None \<Rightarrow> None | Some r \<Rightarrow> session_expired now (l_HolderID r) d);
          stale = (case l of None \<Rightarrow> None
                   | Some r \<Rightarrow> map_option (\<lambda>c. l_AcquiredAt r < c) staleCutoff)
      in \<lparr>c_Topic = t_Topic t, c_ExpirationNanos = t_ExpirationNanos t,
          c_HeldByMe = (case l of None \<Rightarrow> False | Some r \<Rightarrow> l_HolderID r = holder),
          c_Unleased = (l = None),
          c_LeaseExpired = the (coalesce expired (coalesce stale (Some True)))\<rparr>)"

definition GetMaintenanceCandidateTopics ::
  "time \<Rightarrow> uuid \<Rightarrow> time option \<Rightarrow> duration option \<Rightarrow> topic list \<Rightarrow> duration \<Rightarrow> 'a db
     \<Rightarrow> GetMaintenanceCandidateTopicsRow list" where
  "GetMaintenanceCandidateTopics now holder staleCutoff defaultNanos include slack d =
     map (candidate_row now holder staleCutoff d)
       (filter (candidate_topic now defaultNanos include slack) (topics d))"

section \<open>Which tables a statement leaves alone\<close>

lemma DeleteMessagesByIds_frame [simp]:
  "topics (DeleteMessagesByIds tp ids d) = topics d"
  "maintenance_leases (DeleteMessagesByIds tp ids d) = maintenance_leases d"
  "consumer_sessions (DeleteMessagesByIds tp ids d) = consumer_sessions d"
  "messages_id_seq (DeleteMessagesByIds tp ids d) = messages_id_seq d"
  "tx_notifies (DeleteMessagesByIds tp ids d) = tx_notifies d"
  "notified (DeleteMessagesByIds tp ids d) = notified d"
  "app (DeleteMessagesByIds tp ids d) = app d"
  by (simp_all add: DeleteMessagesByIds_def)

lemma DeleteExpiredMessages_frame [simp]:
  "topics (DeleteExpiredMessages tp c d) = topics d"
  "maintenance_leases (DeleteExpiredMessages tp c d) = maintenance_leases d"
  "consumer_sessions (DeleteExpiredMessages tp c d) = consumer_sessions d"
  "messages_id_seq (DeleteExpiredMessages tp c d) = messages_id_seq d"
  "tx_notifies (DeleteExpiredMessages tp c d) = tx_notifies d"
  "notified (DeleteExpiredMessages tp c d) = notified d"
  "app (DeleteExpiredMessages tp c d) = app d"
  by (simp_all add: DeleteExpiredMessages_def)

lemma InsertTopicIfAbsent_frame [simp]:
  "messages (InsertTopicIfAbsent now tp x d) = messages d"
  "maintenance_leases (InsertTopicIfAbsent now tp x d) = maintenance_leases d"
  "consumer_sessions (InsertTopicIfAbsent now tp x d) = consumer_sessions d"
  "messages_id_seq (InsertTopicIfAbsent now tp x d) = messages_id_seq d"
  "tx_notifies (InsertTopicIfAbsent now tp x d) = tx_notifies d"
  "notified (InsertTopicIfAbsent now tp x d) = notified d"
  "app (InsertTopicIfAbsent now tp x d) = app d"
  by (simp_all add: InsertTopicIfAbsent_def)

lemma BumpTopicActivityIfStale_frame [simp]:
  "messages (BumpTopicActivityIfStale now tp d) = messages d"
  "maintenance_leases (BumpTopicActivityIfStale now tp d) = maintenance_leases d"
  "consumer_sessions (BumpTopicActivityIfStale now tp d) = consumer_sessions d"
  "messages_id_seq (BumpTopicActivityIfStale now tp d) = messages_id_seq d"
  "tx_notifies (BumpTopicActivityIfStale now tp d) = tx_notifies d"
  "notified (BumpTopicActivityIfStale now tp d) = notified d"
  "app (BumpTopicActivityIfStale now tp d) = app d"
  by (simp_all add: BumpTopicActivityIfStale_def)

lemma SetTopicExclusiveConsumer_frame [simp]:
  "messages (SetTopicExclusiveConsumer tp c x d) = messages d"
  "maintenance_leases (SetTopicExclusiveConsumer tp c x d) = maintenance_leases d"
  "consumer_sessions (SetTopicExclusiveConsumer tp c x d) = consumer_sessions d"
  "messages_id_seq (SetTopicExclusiveConsumer tp c x d) = messages_id_seq d"
  "tx_notifies (SetTopicExclusiveConsumer tp c x d) = tx_notifies d"
  "notified (SetTopicExclusiveConsumer tp c x d) = notified d"
  "app (SetTopicExclusiveConsumer tp c x d) = app d"
  by (simp_all add: SetTopicExclusiveConsumer_def)

lemma RenewTopicExclusiveConsumer_frame [simp]:
  "messages (RenewTopicExclusiveConsumer tp c x d) = messages d"
  "maintenance_leases (RenewTopicExclusiveConsumer tp c x d) = maintenance_leases d"
  "consumer_sessions (RenewTopicExclusiveConsumer tp c x d) = consumer_sessions d"
  "messages_id_seq (RenewTopicExclusiveConsumer tp c x d) = messages_id_seq d"
  "tx_notifies (RenewTopicExclusiveConsumer tp c x d) = tx_notifies d"
  "notified (RenewTopicExclusiveConsumer tp c x d) = notified d"
  "app (RenewTopicExclusiveConsumer tp c x d) = app d"
  by (simp_all add: RenewTopicExclusiveConsumer_def)

lemma UpsertConsumerSession_frame [simp]:
  "messages (UpsertConsumerSession c x b d) = messages d"
  "topics (UpsertConsumerSession c x b d) = topics d"
  "maintenance_leases (UpsertConsumerSession c x b d) = maintenance_leases d"
  "messages_id_seq (UpsertConsumerSession c x b d) = messages_id_seq d"
  "tx_notifies (UpsertConsumerSession c x b d) = tx_notifies d"
  "notified (UpsertConsumerSession c x b d) = notified d"
  "app (UpsertConsumerSession c x b d) = app d"
  by (simp_all add: UpsertConsumerSession_def)

lemma DeleteExpiredConsumerSessions_frame [simp]:
  "messages (DeleteExpiredConsumerSessions c d) = messages d"
  "topics (DeleteExpiredConsumerSessions c d) = topics d"
  "maintenance_leases (DeleteExpiredConsumerSessions c d) = maintenance_leases d"
  "messages_id_seq (DeleteExpiredConsumerSessions c d) = messages_id_seq d"
  "tx_notifies (DeleteExpiredConsumerSessions c d) = tx_notifies d"
  "notified (DeleteExpiredConsumerSessions c d) = notified d"
  "app (DeleteExpiredConsumerSessions c d) = app d"
  by (simp_all add: DeleteExpiredConsumerSessions_def)

lemma InsertMaintenanceLeaseIfAbsent_frame [simp]:
  "messages (InsertMaintenanceLeaseIfAbsent now tp h d) = messages d"
  "topics (InsertMaintenanceLeaseIfAbsent now tp h d) = topics d"
  "consumer_sessions (InsertMaintenanceLeaseIfAbsent now tp h d) = consumer_sessions d"
  "messages_id_seq (InsertMaintenanceLeaseIfAbsent now tp h d) = messages_id_seq d"
  "tx_notifies (InsertMaintenanceLeaseIfAbsent now tp h d) = tx_notifies d"
  "notified (InsertMaintenanceLeaseIfAbsent now tp h d) = notified d"
  "app (InsertMaintenanceLeaseIfAbsent now tp h d) = app d"
  by (simp_all add: InsertMaintenanceLeaseIfAbsent_def)

lemma UpdateMaintenanceLease_frame [simp]:
  "messages (UpdateMaintenanceLease now tp h d) = messages d"
  "topics (UpdateMaintenanceLease now tp h d) = topics d"
  "consumer_sessions (UpdateMaintenanceLease now tp h d) = consumer_sessions d"
  "messages_id_seq (UpdateMaintenanceLease now tp h d) = messages_id_seq d"
  "tx_notifies (UpdateMaintenanceLease now tp h d) = tx_notifies d"
  "notified (UpdateMaintenanceLease now tp h d) = notified d"
  "app (UpdateMaintenanceLease now tp h d) = app d"
  by (simp_all add: UpdateMaintenanceLease_def)

lemma ReleaseMaintenanceLease_frame [simp]:
  "messages (ReleaseMaintenanceLease tp h d) = messages d"
  "topics (ReleaseMaintenanceLease tp h d) = topics d"
  "consumer_sessions (ReleaseMaintenanceLease tp h d) = consumer_sessions d"
  "messages_id_seq (ReleaseMaintenanceLease tp h d) = messages_id_seq d"
  "tx_notifies (ReleaseMaintenanceLease tp h d) = tx_notifies d"
  "notified (ReleaseMaintenanceLease tp h d) = notified d"
  "app (ReleaseMaintenanceLease tp h d) = app d"
  by (simp_all add: ReleaseMaintenanceLease_def)

lemma InsertMaintenanceLeases_frame [simp]:
  "messages (snd (InsertMaintenanceLeases now ts h d)) = messages d"
  "topics (snd (InsertMaintenanceLeases now ts h d)) = topics d"
  "consumer_sessions (snd (InsertMaintenanceLeases now ts h d)) = consumer_sessions d"
  "messages_id_seq (snd (InsertMaintenanceLeases now ts h d)) = messages_id_seq d"
  "tx_notifies (snd (InsertMaintenanceLeases now ts h d)) = tx_notifies d"
  "notified (snd (InsertMaintenanceLeases now ts h d)) = notified d"
  "app (snd (InsertMaintenanceLeases now ts h d)) = app d"
  by (induction ts arbitrary: d) (simp_all add: Let_def case_prod_unfold)

lemma ClaimMaintenanceLeases_frame [simp]:
  "messages (snd (ClaimMaintenanceLeases lk now h ts c d)) = messages d"
  "topics (snd (ClaimMaintenanceLeases lk now h ts c d)) = topics d"
  "consumer_sessions (snd (ClaimMaintenanceLeases lk now h ts c d)) = consumer_sessions d"
  "messages_id_seq (snd (ClaimMaintenanceLeases lk now h ts c d)) = messages_id_seq d"
  "tx_notifies (snd (ClaimMaintenanceLeases lk now h ts c d)) = tx_notifies d"
  "notified (snd (ClaimMaintenanceLeases lk now h ts c d)) = notified d"
  "app (snd (ClaimMaintenanceLeases lk now h ts c d)) = app d"
  by (simp_all add: ClaimMaintenanceLeases_def)

section \<open>What a key finds after a statement\<close>

lemma find_topic_InsertTopicIfAbsent [simp]:
  "find_topic t (InsertTopicIfAbsent now tp x d) =
     (if t = tp
      then Some (case find_topic t d of
          None \<Rightarrow> \<lparr>t_Topic = tp, t_ExpirationNanos = x, t_ExclusiveConsumerID = None,
             t_ExclusiveConsumerExpiresAt = None, t_LastInsertedAt = Some now\<rparr>
        | Some r \<Rightarrow> r\<lparr>t_ExpirationNanos := coalesce (t_ExpirationNanos r) x\<rparr>)
      else find_topic t d)"
  by (simp add: InsertTopicIfAbsent_def find_row_insert_on_conflict)

lemma find_topic_BumpTopicActivityIfStale [simp]:
  "find_topic t (BumpTopicActivityIfStale now tp d) =
     map_option (\<lambda>r. if t_Topic r = tp \<and> stale_activity now r
        then r\<lparr>t_LastInsertedAt := Some now\<rparr> else r) (find_topic t d)"
  unfolding BumpTopicActivityIfStale_def stale_activity_def bump_granularity_def
  by (simp add: find_row_update_where)

lemma find_topic_SetTopicExclusiveConsumer [simp]:
  "find_topic t (SetTopicExclusiveConsumer tp c x d) =
     map_option (\<lambda>r. if t_Topic r = tp
        then r\<lparr>t_ExclusiveConsumerID := c, t_ExclusiveConsumerExpiresAt := x\<rparr> else r)
       (find_topic t d)"
  by (simp add: SetTopicExclusiveConsumer_def find_row_update_where)

lemma find_topic_RenewTopicExclusiveConsumer [simp]:
  "find_topic t (RenewTopicExclusiveConsumer tp c x d) =
     map_option (\<lambda>r. if t_Topic r = tp \<and> c \<noteq> None \<and> t_ExclusiveConsumerID r = c
        then r\<lparr>t_ExclusiveConsumerExpiresAt := x\<rparr> else r) (find_topic t d)"
  by (simp add: RenewTopicExclusiveConsumer_def find_row_update_where)

lemma find_session_UpsertConsumerSession [simp]:
  "find_session c (UpsertConsumerSession c' x b d) =
     (if c = c' then Some \<lparr>s_ConsumerID = c, s_ExpiresAt = x, s_MaintainsDefaultExpiration = b\<rparr>
      else find_session c d)"
  by (auto simp: UpsertConsumerSession_def find_row_insert_on_conflict
      dest: find_row_key split: option.split)

lemma find_lease_InsertMaintenanceLeaseIfAbsent [simp]:
  "find_lease t (InsertMaintenanceLeaseIfAbsent now tp h d) =
     (if t = tp \<and> find_lease t d = None
      then Some \<lparr>l_Topic = tp, l_HolderID = h, l_AcquiredAt = now\<rparr> else find_lease t d)"
  by (auto simp: InsertMaintenanceLeaseIfAbsent_def find_row_insert_on_conflict split: option.split)

lemma find_lease_UpdateMaintenanceLease [simp]:
  "find_lease t (UpdateMaintenanceLease now tp h d) =
     map_option (\<lambda>r. if l_Topic r = tp then r\<lparr>l_HolderID := h, l_AcquiredAt := now\<rparr> else r)
       (find_lease t d)"
  by (simp add: UpdateMaintenanceLease_def find_row_update_where)

lemma find_lease_ClaimMaintenanceLeases [simp]:
  "find_lease t (snd (ClaimMaintenanceLeases lk now h ts c d)) =
     map_option (\<lambda>r. if claimable_lease lk now ts c d r
        then r\<lparr>l_HolderID := h, l_AcquiredAt := now\<rparr> else r) (find_lease t d)"
  by (simp add: ClaimMaintenanceLeases_def find_row_update_where)

lemma find_lease_ReleaseMaintenanceLease:
  assumes "distinct (map l_Topic (maintenance_leases d))"
  shows "find_lease t (ReleaseMaintenanceLease tp h d) =
     (case find_lease t d of None \<Rightarrow> None
      | Some r \<Rightarrow> if l_Topic r = tp \<and> l_HolderID r = h then None else Some r)"
  using find_row_delete_where [OF assms] by (simp add: ReleaseMaintenanceLease_def)

lemma find_lease_InsertMaintenanceLeases:
  "find_lease t (snd (InsertMaintenanceLeases now ts h d)) =
     (if t \<in> set ts \<and> find_lease t d = None
      then Some \<lparr>l_Topic = t, l_HolderID = h, l_AcquiredAt = now\<rparr> else find_lease t d)"
proof (induction ts arbitrary: d)
  case Nil
  then show ?case by simp
next
  case (Cons tp ts)
  show ?case
    using Cons.IH [of "InsertMaintenanceLeaseIfAbsent now tp h d"]
    by (auto simp: Let_def case_prod_unfold)
qed

lemma InsertMaintenanceLeases_won:
  "set (fst (InsertMaintenanceLeases now ts h d)) = {t \<in> set ts. find_lease t d = None}"
proof (induction ts arbitrary: d)
  case Nil
  then show ?case by simp
next
  case (Cons tp ts)
  show ?case
    using Cons.IH [of "InsertMaintenanceLeaseIfAbsent now tp h d"]
    by (auto simp: Let_def case_prod_unfold)
qed

lemma InsertMaintenanceLeases_won_length:
  "length (fst (InsertMaintenanceLeases now ts h d)) \<le> length ts"
proof (induction ts arbitrary: d)
  case Nil
  then show ?case by simp
next
  case (Cons tp ts)
  show ?case
    using Cons.IH [of "InsertMaintenanceLeaseIfAbsent now tp h d"]
    by (auto simp: Let_def case_prod_unfold)
qed

section \<open>Every statement keeps the invariant of the schema\<close>

lemma topic_keys_queries [simp]:
  "t_Topic ` set (topics (InsertTopicIfAbsent now tp x d)) = insert tp (t_Topic ` set (topics d))"
  "t_Topic ` set (topics (BumpTopicActivityIfStale now tp d)) = t_Topic ` set (topics d)"
  "t_Topic ` set (topics (SetTopicExclusiveConsumer tp c x' d)) = t_Topic ` set (topics d)"
  "t_Topic ` set (topics (RenewTopicExclusiveConsumer tp c x' d)) = t_Topic ` set (topics d)"
  by (simp_all add: InsertTopicIfAbsent_def BumpTopicActivityIfStale_def
      SetTopicExclusiveConsumer_def RenewTopicExclusiveConsumer_def
      key_image_insert_on_conflict key_image_update_where)

lemma db_ok_InsertTopicIfAbsent: "db_ok d \<Longrightarrow> db_ok (InsertTopicIfAbsent now tp x d)"
  by (rule db_ok_mono, assumption)
    (auto dest: db_okD(1-4) simp: InsertTopicIfAbsent_def key_image_insert_on_conflict
      intro!: distinct_insert_on_conflict)

lemma db_ok_topic_updates:
  assumes "db_ok d"
  shows "db_ok (BumpTopicActivityIfStale now tp d)"
    and "db_ok (SetTopicExclusiveConsumer tp c x d)"
    and "db_ok (RenewTopicExclusiveConsumer tp c x d)"
  by (auto intro!: db_ok_mono [OF assms] db_okD(1-4) [OF assms] simp: keys_update_where
      key_image_update_where BumpTopicActivityIfStale_def SetTopicExclusiveConsumer_def
      RenewTopicExclusiveConsumer_def)

lemma db_ok_session_updates:
  assumes "db_ok d"
  shows "db_ok (UpsertConsumerSession h x b d)"
    and "db_ok (DeleteExpiredConsumerSessions c d)"
  by (auto intro!: db_ok_mono [OF assms] db_okD(1-4) [OF assms] distinct_insert_on_conflict
      distinct_delete_where simp: UpsertConsumerSession_def DeleteExpiredConsumerSessions_def)

lemma db_ok_message_deletes:
  assumes "db_ok d"
  shows "db_ok (DeleteMessagesByIds tp ids d)"
    and "db_ok (DeleteExpiredMessages tp c d)"
  by (auto intro!: db_ok_mono [OF assms] db_okD(1-4) [OF assms] distinct_delete_where
      simp: DeleteMessagesByIds_def DeleteExpiredMessages_def)

lemma db_ok_lease_updates:
  assumes "db_ok d"
  shows "db_ok (InsertMaintenanceLeaseIfAbsent now tp h d)"
    and "db_ok (UpdateMaintenanceLease now tp h d)"
    and "db_ok (ReleaseMaintenanceLease tp h d)"
    and "db_ok (snd (ClaimMaintenanceLeases lk now h ts c d))"
  by (auto intro!: db_ok_mono [OF assms] db_okD(1-4) [OF assms] distinct_insert_on_conflict
      distinct_delete_where simp: InsertMaintenanceLeaseIfAbsent_def UpdateMaintenanceLease_def
      ReleaseMaintenanceLease_def ClaimMaintenanceLeases_def keys_update_where)

lemma db_ok_InsertMaintenanceLeases:
  "db_ok d \<Longrightarrow> db_ok (snd (InsertMaintenanceLeases now ts h d))"
proof (induction ts arbitrary: d)
  case Nil
  then show ?case by simp
next
  case (Cons tp ts)
  then show ?case
    using Cons.IH [OF db_ok_lease_updates(1) [OF Cons.prems]]
    by (simp add: Let_def case_prod_unfold)
qed

lemmas db_ok_queries [schema_ok] = db_ok_InsertTopicIfAbsent db_ok_topic_updates db_ok_session_updates
  db_ok_message_deletes db_ok_lease_updates db_ok_InsertMaintenanceLeases

end
