(* ===== verification/Query_Laws.thy ===== *)
theory Query_Laws
  imports Queries "HOL-Library.Multiset" "HOL-Library.Product_Lexorder"
begin

text \<open>
  What the two queries with an algorithm of their own compute: the batch that
  \<open>AcquireMessagesByTopic\<close> selects, and the loose index scan of
  \<open>GetTopicsWithMessages\<close>, which is equal to the plain list of the topics that occur.
\<close>

section \<open>The batch of a topic\<close>

definition claimable_messages :: "(topic \<Rightarrow> int \<Rightarrow> bool) \<Rightarrow> topic \<Rightarrow> 'a db \<Rightarrow> Message list" where
  "claimable_messages locked topic d =
     filter (\<lambda>m. m_Topic m = topic \<and> \<not> locked topic (m_ID m)) (messages d)"

lemma claimable_messages_mem:
  "m \<in> set (claimable_messages lk tp d) \<longleftrightarrow>
     m \<in> set (messages d) \<and> m_Topic m = tp \<and> \<not> lk tp (m_ID m)"
  by (auto simp: claimable_messages_def)

lemma distinct_claimable_messages:
  "db_ok d \<Longrightarrow> distinct (map m_ID (claimable_messages lk tp d))"
  by (simp add: claimable_messages_def distinct_map_filter db_okD(4))

lemma AcquireMessagesByTopic_alt:
  "AcquireMessagesByTopic lk tp (Some n) d =
     take (nat n) (sort_key m_ID (claimable_messages lk tp d))"
proof -
  have "filter (\<lambda>m. \<not> lk (m_Topic m) (m_ID m)) (filter (\<lambda>m. m_Topic m = tp) (messages d)) =
      claimable_messages lk tp d"
    by (auto simp: claimable_messages_def intro: filter_cong)
  then show ?thesis by (simp add: AcquireMessagesByTopic_def filter_sort)
qed

lemma sorted_wrt_take: "sorted_wrt P xs \<Longrightarrow> sorted_wrt P (take n xs)"
  by (metis append_take_drop_id sorted_wrt_append)

lemma sort_key_strict:
  assumes "distinct (map f xs)"
  shows "sorted_wrt (<) (map f (sort_key f xs))"
  using assms by (simp add: strict_sorted_iff distinct_map)

lemma take_sorted_le_drop:
  assumes "sorted_wrt (<) (map f xs)" and "x \<in> set (take n xs)" and "y \<in> set (drop n xs)"
  shows "f x < (f y :: 'b::order)"
proof -
  from assms(1) have "sorted_wrt (<) (map f (take n xs) @ map f (drop n xs))"
    by (simp flip: map_append)
  with assms(2,3) show ?thesis by (auto simp: sorted_wrt_append)
qed

lemma AcquireMessagesByTopic_mem:
  "m \<in> set (AcquireMessagesByTopic lk tp (Some n) d) \<Longrightarrow>
     m \<in> set (messages d) \<and> m_Topic m = tp \<and> \<not> lk tp (m_ID m)"
  by (auto simp: AcquireMessagesByTopic_alt claimable_messages_mem dest!: in_set_takeD)

lemma AcquireMessagesByTopic_strict:
  "db_ok d \<Longrightarrow> sorted_wrt (<) (map m_ID (AcquireMessagesByTopic lk tp (Some n) d))"
  unfolding AcquireMessagesByTopic_alt take_map [symmetric]
  by (intro sorted_wrt_take sort_key_strict distinct_claimable_messages)

lemma AcquireMessagesByTopic_distinct:
  "db_ok d \<Longrightarrow> distinct (map m_ID (AcquireMessagesByTopic lk tp (Some n) d))"
  using AcquireMessagesByTopic_strict [of d lk tp n] strict_sorted_iff by blast

lemma AcquireMessagesByTopic_length:
  "length (AcquireMessagesByTopic lk tp (Some n) d) =
     min (nat n) (length (claimable_messages lk tp d))"
  by (simp add: AcquireMessagesByTopic_alt min.commute)

lemma AcquireMessagesByTopic_Nil:
  "0 < n \<Longrightarrow> AcquireMessagesByTopic lk tp (Some n) d = [] \<longleftrightarrow> claimable_messages lk tp d = []"
  by (simp add: AcquireMessagesByTopic_alt) (metis length_0_conv length_sort)

lemma AcquireMessagesByTopic_oldest:
  assumes "db_ok d"
    and "m \<in> set (AcquireMessagesByTopic lk tp (Some n) d)"
    and "m' \<in> set (messages d)" "m_Topic m' = tp" "\<not> lk tp (m_ID m')"
    and "m' \<notin> set (AcquireMessagesByTopic lk tp (Some n) d)"
  shows "m_ID m < m_ID m'"
proof -
  let ?xs = "sort_key m_ID (claimable_messages lk tp d)"
  have "m' \<in> set ?xs" using assms(3-5) by (simp add: claimable_messages_mem)
  then have "m' \<in> set (take (nat n) ?xs @ drop (nat n) ?xs)" by simp
  with assms(6) have "m' \<in> set (drop (nat n) ?xs)"
    by (simp add: AcquireMessagesByTopic_alt del: append_take_drop_id)
  moreover have "sorted_wrt (<) (map m_ID ?xs)"
    using assms(1) by (intro sort_key_strict distinct_claimable_messages)
  ultimately show ?thesis
    using assms(2) take_sorted_le_drop [of m_ID ?xs m "nat n" m']
    by (simp add: AcquireMessagesByTopic_alt)
qed

text \<open>
  \<open>ORDER BY id\<close> as the order of a type: messages compare by their identity first, so the batch is
  the beginning of the sorted list of the set of claimable messages.
\<close>

definition message_key :: "'a Message_scheme \<Rightarrow> int \<times> time \<times> topic \<times> string \<times> 'a" where
  "message_key m = (m_ID m, m_InsertedAt m, m_Topic m, m_Payload m, Message.more m)"

lemma message_key_inj: "message_key m = message_key m' \<Longrightarrow> m = m'"
  by (rule Message.equality) (simp_all add: message_key_def)

instantiation Message_ext :: (linorder) linorder
begin

definition less_eq_Message_ext :: "'a Message_scheme \<Rightarrow> 'a Message_scheme \<Rightarrow> bool" where
  "m \<le> m' \<longleftrightarrow> message_key m \<le> message_key m'"

definition less_Message_ext :: "'a Message_scheme \<Rightarrow> 'a Message_scheme \<Rightarrow> bool" where
  "m < m' \<longleftrightarrow> message_key m < message_key m'"

instance
  by standard (auto simp: less_eq_Message_ext_def less_Message_ext_def less_le_not_le intro: message_key_inj)

end

lemma message_less_id: "m_ID m < m_ID m' \<Longrightarrow> m < m'"
  by (simp add: less_Message_ext_def message_key_def)

lemma AcquireMessagesByTopic_least:
  assumes "db_ok d"
  shows "AcquireMessagesByTopic lk tp (Some n) d =
    take (nat n) (sorted_list_of_set (set (claimable_messages lk tp d)))"
proof -
  let ?xs = "sort_key m_ID (claimable_messages lk tp d)"
  have "sorted_wrt (<) (map m_ID ?xs)"
    using assms by (intro sort_key_strict distinct_claimable_messages)
  then have "sorted_wrt (<) ?xs"
    unfolding sorted_wrt_map by (rule sorted_wrt_mono_rel [rotated]) (simp add: message_less_id)
  then have "sorted_list_of_set (set ?xs) = ?xs"
    using sorted_list_of_set.idem_if_sorted_distinct [of ?xs] by (simp add: strict_sorted_iff)
  then show ?thesis by (simp add: AcquireMessagesByTopic_alt)
qed

section \<open>The loose index scan\<close>

lemma keys_above_unfold:
  assumes "least_above prev ks = Some k"
  shows "keys_above prev ks = insert k (keys_above (Some k) ks)"
    and "Min (keys_above prev ks) = k" and "k \<notin> keys_above (Some k) ks"
proof -
  note k = least_above_SomeD [OF assms]
  show ins: "keys_above prev ks = insert k (keys_above (Some k) ks)"
    using k by (fastforce simp: keys_above_def)
  show "k \<notin> keys_above (Some k) ks" by (simp add: keys_above_def)
  have "finite (keys_above prev ks)" by (simp add: keys_above_def)
  then show "Min (keys_above prev ks) = k"
    using k by (intro Min_eqI) (auto simp: keys_above_def)
qed

lemma topics_above_sorted_list_of_set:
  "topics_above prev ks = sorted_list_of_set (keys_above prev ks)"
proof (induction prev ks rule: topics_above.induct)
  case (1 prev ks)
  show ?case
  proof (cases "least_above prev ks")
    case None
    then have "keys_above prev ks = {}"
      using least_above_NoneD [OF None] by (fastforce simp: keys_above_def)
    with None show ?thesis by (simp add: topics_above.simps [of prev])
  next
    case (Some k)
    note unf = keys_above_unfold [OF Some]
    have "finite (keys_above prev ks)" by (simp add: keys_above_def)
    then have "sorted_list_of_set (keys_above prev ks) =
        k # sorted_list_of_set (keys_above prev ks - {k})"
      using sorted_list_of_set_nonempty [of "keys_above prev ks"] unf by auto
    also have "keys_above prev ks - {k} = keys_above (Some k) ks"
      using unf by auto
    finally show ?thesis
      using "1" [OF Some] Some by (simp add: topics_above.simps [of prev])
  qed
qed

lemma set_GetTopicsWithMessages [simp]:
  "set (GetTopicsWithMessages d) = m_Topic ` set (messages d)"
  by (simp add: GetTopicsWithMessages_def topics_above_sorted_list_of_set keys_above_def)

text \<open>
  C40: \<open>GetTopicsWithMessages\<close> emulates a loose index scan with a recursive query. It returns
  exactly the topics that hold a message, each once, in ascending order: the same list as a
  sort of the distinct topics, whatever the messages are.
\<close>

theorem GetTopicsWithMessages_equiv:
  "GetTopicsWithMessages d = sorted_list_of_set (m_Topic ` set (messages d))"
  by (simp add: GetTopicsWithMessages_def topics_above_sorted_list_of_set keys_above_def)

text \<open>
  The batch that \<open>AcquireMessagesByTopic\<close> locks has at most the requested number of
  messages and as many as can be claimed; all are stored messages of the topic that no other
  transaction holds, in strictly ascending id order, and every claimable message that is left
  out has a larger id than every one taken (the oldest messages go first).
\<close>

theorem AcquireMessagesByTopic_batch:
  fixes d :: "'a db"
  assumes "db_ok d"
  shows "let batch = AcquireMessagesByTopic lk tp (Some n) d in
    length batch = min (nat n) (length (claimable_messages lk tp d)) \<and>
    set batch \<subseteq> set (claimable_messages lk tp d) \<and>
    sorted_wrt (<) (map m_ID batch) \<and>
    (\<forall>m \<in> set batch. \<forall>m' \<in> set (claimable_messages lk tp d) - set batch. m_ID m < m_ID m')"
  unfolding Let_def
  using AcquireMessagesByTopic_mem [of _ lk tp n d] AcquireMessagesByTopic_oldest [OF assms(1)]
  by (auto simp: AcquireMessagesByTopic_length AcquireMessagesByTopic_strict [OF assms(1)]
      claimable_messages_mem)

definition sample_message :: "int \<Rightarrow> topic \<Rightarrow> time \<Rightarrow> Message" where
  "sample_message i tp at = \<lparr>m_ID = i, m_InsertedAt = at, m_Topic = tp, m_Payload = ''{}''\<rparr>"

definition sample_topic :: "topic \<Rightarrow> Topic" where
  "sample_topic tp = \<lparr>t_Topic = tp, t_ExpirationNanos = None, t_ExclusiveConsumerID = None,
     t_ExclusiveConsumerExpiresAt = None, t_LastInsertedAt = Some 0\<rparr>"

definition sample_db :: "unit db" where
  "sample_db = (empty_db ())\<lparr>
     messages := [sample_message 3 ''b'' 30, sample_message 1 ''a'' 10, sample_message 2 ''b'' 20],
     topics := [sample_topic ''a'', sample_topic ''b''], messages_id_seq := 4\<rparr>"

lemma db_ok_sample: "db_ok sample_db"
  by (simp add: sample_db_def sample_message_def sample_topic_def empty_db_def db_ok_def pk_ok_def
      ids_ok_def topics_registered_def)

theorem AcquireMessagesByTopic_batch_witness:
  "map m_ID (AcquireMessagesByTopic (\<lambda>_ _. False) ''b'' (Some 1) sample_db) = [2] \<and>
   sample_message 3 ''b'' 30 \<in> set (claimable_messages (\<lambda>_ _. False) ''b'' sample_db) \<and>
   m_ID (hd (AcquireMessagesByTopic (\<lambda>_ _. False) ''b'' (Some 1) sample_db)) < 3"
proof -
  let ?b = "AcquireMessagesByTopic (\<lambda>_ _. False) ''b'' (Some 1) sample_db"
  have b: "map m_ID ?b = [2]"
    by (simp add: AcquireMessagesByTopic_alt claimable_messages_def sample_db_def
        sample_message_def empty_db_def)
  then have "?b \<noteq> []" and n: "sample_message 3 ''b'' 30 \<notin> set ?b"
    by (auto simp: sample_message_def)
  then have h: "hd ?b \<in> set ?b" by simp
  have c: "sample_message 3 ''b'' 30 \<in> set (claimable_messages (\<lambda>_ _. False) ''b'' sample_db)"
    by (simp add: claimable_messages_def sample_db_def sample_message_def empty_db_def)
  have "m_ID (hd ?b) < m_ID (sample_message 3 ''b'' 30)"
    using AcquireMessagesByTopic_batch [OF db_ok_sample, of "\<lambda>_ _. False" "''b''" 1] h c n
    unfolding Let_def by blast
  with b c show ?thesis by (simp add: sample_message_def)
qed

end
