(* ===== verification/Options.thy ===== *)
theory Options
  imports Go_Runtime "HOL-Library.AList"
begin

text \<open>
  The option values of the API. An option of the source is a function that writes one field of
  an options record; here each kind of option is a datatype with the source's constructors and
  an \<open>apply\<close> function, and a call applies its options from left to right to the defaults.
  A Go \<open>int\<close> is a 64-bit word and \<open>batchSize\<close> a 32-bit one, both read as signed.
\<close>

section \<open>Options of \<open>ProcessMessages\<close>\<close>

definition defaultBatchSize :: int where
  "defaultBatchSize = 1000"

definition MaxInt32 :: int where
  "MaxInt32 = 2147483647"

record processOpts =
  batchSize :: "32 word"

definition defaultProcessOpts :: processOpts where
  "defaultProcessOpts = \<lparr>batchSize = word_of_int defaultBatchSize\<rparr>"

datatype ProcessOpt = WithBatchSize "64 word"

fun apply_ProcessOpt :: "ProcessOpt \<Rightarrow> processOpts \<Rightarrow> processOpts" where
  "apply_ProcessOpt (WithBatchSize n) opts =
     (if sint n \<le> 0 \<or> sint n > MaxInt32 then opts else opts\<lparr>batchSize := ucast n\<rparr>)"

definition process_opts :: "ProcessOpt list \<Rightarrow> processOpts" where
  "process_opts popts = fold apply_ProcessOpt popts defaultProcessOpts"

section \<open>Options of \<open>Subscribe\<close>\<close>

definition defaultPollInterval :: duration where
  "defaultPollInterval = 5 * second"

record subscribeOpts =
  pollInterval :: duration
  so_processOpts :: "ProcessOpt list"
  exclusive :: bool

definition defaultSubscribeOpts :: subscribeOpts where
  "defaultSubscribeOpts =
     \<lparr>pollInterval = defaultPollInterval, so_processOpts = [], exclusive = False\<rparr>"

datatype SubscribeOpt =
    WithPollInterval duration
  | WithProcessOpts "ProcessOpt list"
  | WithExclusive

fun apply_SubscribeOpt :: "SubscribeOpt \<Rightarrow> subscribeOpts \<Rightarrow> subscribeOpts" where
  "apply_SubscribeOpt (WithPollInterval d) opts =
     (if d \<le> 0 then opts else opts\<lparr>pollInterval := d\<rparr>)"
| "apply_SubscribeOpt (WithProcessOpts popts) opts =
     opts\<lparr>so_processOpts := so_processOpts opts @ popts\<rparr>"
| "apply_SubscribeOpt WithExclusive opts = opts\<lparr>exclusive := True\<rparr>"

definition subscribe_opts :: "SubscribeOpt list \<Rightarrow> subscribeOpts" where
  "subscribe_opts sopts = fold apply_SubscribeOpt sopts defaultSubscribeOpts"

section \<open>Options of \<open>NewOutbox\<close> and \<open>Migrate\<close>\<close>

text \<open>The map of expirations is an association list without duplicate keys.\<close>

record 'p outboxImplOpts =
  opt_schema :: string
  opt_autoMigrate :: bool
  opt_expirations :: "(topic \<times> duration) list"
  opt_defaultExpiration :: duration
  opt_pubsub :: "'p option"

definition defaultOpts :: "'p outboxImplOpts" where
  "defaultOpts = \<lparr>opt_schema = ''outbox'', opt_autoMigrate = True, opt_expirations = [],
     opt_defaultExpiration = 0, opt_pubsub = None\<rparr>"

datatype 'p OutboxOpt =
    WithSchema string
  | WithAutoMigrate bool
  | WithTopicExpiration topic duration
  | WithDefaultExpiration duration
  | WithPubSub 'p

fun apply_OutboxOpt :: "'p OutboxOpt \<Rightarrow> 'p outboxImplOpts \<Rightarrow> 'p outboxImplOpts" where
  "apply_OutboxOpt (WithSchema s) opts = opts\<lparr>opt_schema := s\<rparr>"
| "apply_OutboxOpt (WithAutoMigrate b) opts = opts\<lparr>opt_autoMigrate := b\<rparr>"
| "apply_OutboxOpt (WithTopicExpiration t ttl) opts =
     opts\<lparr>opt_expirations := AList.update t ttl (opt_expirations opts)\<rparr>"
| "apply_OutboxOpt (WithDefaultExpiration ttl) opts = opts\<lparr>opt_defaultExpiration := ttl\<rparr>"
| "apply_OutboxOpt (WithPubSub ps) opts = opts\<lparr>opt_pubsub := Some ps\<rparr>"

definition outbox_opts :: "'p OutboxOpt list \<Rightarrow> 'p outboxImplOpts" where
  "outbox_opts fs = fold apply_OutboxOpt fs defaultOpts"

section \<open>What the options guarantee\<close>

lemma batch_size_cast:
  assumes "0 < sint (n :: 64 word)" and "sint n \<le> MaxInt32"
  shows "sint (ucast n :: 32 word) = sint n"
proof -
  have "uint n = take_bit 64 (sint n)" by (simp add: uint_sint)
  also have "\<dots> = sint n"
    using assms by (intro take_bit_int_eq_self) (simp_all add: MaxInt32_def)
  finally have u: "uint n = sint n" .
  have "uint (ucast n :: 32 word) = take_bit 32 (uint n)" by (simp add: unsigned_ucast_eq)
  also have "\<dots> = sint n"
    using assms u by (simp add: take_bit_int_eq_self MaxInt32_def)
  finally have "sint (ucast n :: 32 word) = signed_take_bit 31 (sint n)"
    by (simp add: sint_uint)
  also have "\<dots> = sint n"
    using assms by (intro signed_take_bit_int_eq_self) (simp_all add: MaxInt32_def)
  finally show ?thesis .
qed

lemma apply_ProcessOpt_batchSize:
  "sint (batchSize (apply_ProcessOpt (WithBatchSize n) po)) =
     (if 0 < sint n \<and> sint n \<le> MaxInt32 then sint n else sint (batchSize po))"
  by (simp add: batch_size_cast)

lemma fold_ProcessOpt_positive:
  "0 < sint (batchSize po) \<Longrightarrow> 0 < sint (batchSize (fold apply_ProcessOpt popts po))"
proof (induction popts arbitrary: po)
  case Nil
  then show ?case by simp
next
  case (Cons p popts)
  obtain n where "p = WithBatchSize n" by (cases p)
  with Cons.prems have "0 < sint (batchSize (apply_ProcessOpt p po))"
    by (simp del: apply_ProcessOpt.simps add: apply_ProcessOpt_batchSize)
  then show ?case using Cons.IH by simp
qed

lemma default_batch_positive [simp]: "sint (batchSize defaultProcessOpts) = 1000"
  by (simp add: defaultProcessOpts_def defaultBatchSize_def)

lemma batch_size_positive [simp]: "0 < sint (batchSize (process_opts popts))"
  unfolding process_opts_def by (rule fold_ProcessOpt_positive) simp

text \<open>
  Whatever options a caller passes, the batch size that reaches the database is positive
  and a 32-bit integer, and it is the last acceptable value given: an option whose value is not
  positive or does not fit changes nothing, and an accepted value survives the conversion to
  32 bits unchanged.
\<close>

theorem batch_size_last_valid:
  "sint (batchSize (process_opts popts)) =
     fold (\<lambda>p b. case p of WithBatchSize n \<Rightarrow> if 0 < sint n \<and> sint n \<le> MaxInt32 then sint n else b)
       popts 1000 \<and>
   0 < sint (batchSize (process_opts popts)) \<and> sint (batchSize (process_opts popts)) \<le> MaxInt32"
proof -
  have step: "sint (batchSize (fold apply_ProcessOpt popts po)) =
      fold (\<lambda>p b. case p of WithBatchSize n \<Rightarrow> if 0 < sint n \<and> sint n \<le> MaxInt32 then sint n else b)
        popts (sint (batchSize po))" for po
  proof (induction popts arbitrary: po)
    case Nil
    then show ?case by simp
  next
    case (Cons p popts)
    then show ?case
      by (cases p) (simp del: apply_ProcessOpt.simps add: apply_ProcessOpt_batchSize)
  qed
  have "sint (batchSize (process_opts popts)) < 2 ^ (LENGTH(32) - 1)"
    by (rule sint_lt)
  then show ?thesis
    using step [of defaultProcessOpts] batch_size_positive [of popts]
    by (simp add: process_opts_def [symmetric] MaxInt32_def)
qed

text \<open>
  The options of \<open>Subscribe\<close>: the poll interval stays positive, so the poll timer always has
  a future to fire in, and the forwarded process options keep their order.
\<close>

lemma poll_interval_positive: "0 < pollInterval (subscribe_opts sopts)"
proof -
  have "0 < pollInterval so \<Longrightarrow> 0 < pollInterval (fold apply_SubscribeOpt sopts so)" for so
  proof (induction sopts arbitrary: so)
    case Nil
    then show ?case by simp
  next
    case (Cons s sopts)
    then have "0 < pollInterval (apply_SubscribeOpt s so)" by (cases s) auto
    then show ?case using Cons.IH by simp
  qed
  then show ?thesis
    by (simp add: subscribe_opts_def defaultSubscribeOpts_def defaultPollInterval_def)
qed

lemma distinct_expirations: "distinct (map fst (opt_expirations (outbox_opts fs)))"
proof -
  have "distinct (map fst (opt_expirations o0)) \<Longrightarrow>
      distinct (map fst (opt_expirations (fold apply_OutboxOpt fs o0)))" for o0 :: "'a outboxImplOpts"
  proof (induction fs arbitrary: o0)
    case Nil
    then show ?case by simp
  next
    case (Cons f fs)
    then have "distinct (map fst (opt_expirations (apply_OutboxOpt f o0)))"
      by (cases f) (auto simp: distinct_update)
    then show ?case using Cons.IH by simp
  qed
  then show ?thesis by (simp add: outbox_opts_def defaultOpts_def)
qed

end
