(* ===== verification/Producer.thy ===== *)
theory Producer
  imports Query_Laws Options
begin

text \<open>
  The instance (\<open>outboxImpl\<close>) and its producing side: the registry of flushers,
  \<open>AddMessages\<close> with the bulk copy of \<open>sqlc/copyfrom.go\<close>, and the \<open>Notifier\<close> that
  carries notifications past the commit. Flushers and the pub/sub transport are interfaces of
  the source; a flusher is a function on the transaction it is handed, a transport a pair of
  publishing functions of which the transactional one is optional. Notifiers are mutated
  through pointers, so they live in a store.
\<close>

section \<open>The instance\<close>

record PubSubMessage =
  ps_Topic :: topic
  ps_Payload :: "string option"

record 'a PubSub =
  ps_Pub :: "topic \<Rightarrow> string option \<Rightarrow> go_err option"
  ps_PubInTx :: "(topic \<Rightarrow> string option \<Rightarrow> 'a db \<Rightarrow> go_err option \<times> 'a db) option"

type_synonym 'a flusher = "Message list \<Rightarrow> 'a db \<Rightarrow> go_err option \<times> 'a db"

definition NopFlusher_Flush :: "'a flusher" where
  "NopFlusher_Flush msgs tx = (None, tx)"

record 'a outboxImpl =
  instanceID :: uuid
  expirations :: "(topic \<times> duration) list"
  defaultExpiration :: duration
  pubsub :: "'a PubSub option"
  txPub :: "(topic \<Rightarrow> string option \<Rightarrow> 'a db \<Rightarrow> go_err option \<times> 'a db) option"
  flushers :: "topic \<Rightarrow> 'a flusher option"

definition asTxPublisher ::
  "'a PubSub option \<Rightarrow> (topic \<Rightarrow> string option \<Rightarrow> 'a db \<Rightarrow> go_err option \<times> 'a db) option" where
  "asTxPublisher ps = (case ps of None \<Rightarrow> None | Some p \<Rightarrow> ps_PubInTx p)"

definition new_outboxImpl :: "uuid \<Rightarrow> 'a PubSub outboxImplOpts \<Rightarrow> 'a outboxImpl" where
  "new_outboxImpl fresh opts = \<lparr>
     instanceID = fresh,
     expirations = opt_expirations opts,
     defaultExpiration = opt_defaultExpiration opts,
     pubsub = opt_pubsub opts,
     txPub = asTxPublisher (opt_pubsub opts),
     flushers = (\<lambda>_. None)\<rparr>"

definition AddFlusher :: "topic \<Rightarrow> 'a flusher \<Rightarrow> 'a outboxImpl \<Rightarrow> 'a outboxImpl" where
  "AddFlusher topic f o1 = o1\<lparr>flushers := (flushers o1)(topic \<mapsto> f)\<rparr>"

definition getFlusher :: "'a outboxImpl \<Rightarrow> topic \<Rightarrow> 'a flusher option" where
  "getFlusher o1 topic = flushers o1 topic"

section \<open>The bulk copy\<close>

record InsertMessageParams =
  p_Topic :: topic
  p_Payload :: string

record iteratorForInsertMessage =
  it_rows :: "InsertMessageParams list"
  skippedFirstNextCall :: bool

definition iterator_Next :: "iteratorForInsertMessage \<Rightarrow> bool \<times> iteratorForInsertMessage" where
  "iterator_Next r =
     (if it_rows r = [] then (False, r)
      else if \<not> skippedFirstNextCall r then (True, r\<lparr>skippedFirstNextCall := True\<rparr>)
      else (let rest = tl (it_rows r) in (rest \<noteq> [], r\<lparr>it_rows := rest\<rparr>)))"

text \<open>\<open>r.rows[0]\<close> panics on an empty slice.\<close>

definition iterator_Values :: "iteratorForInsertMessage \<Rightarrow> (topic \<times> string) option" where
  "iterator_Values r =
     (case it_rows r of [] \<Rightarrow> None | p # _ \<Rightarrow> Some (p_Topic p, p_Payload p))"

text \<open>
  The protocol of \<open>pgx.CopyFromSource\<close>: call \<open>Next\<close>, and \<open>Values\<close> after every true
  answer, until \<open>Next\<close> answers false. \<open>None\<close> is a panic of \<open>Values\<close>.
\<close>

function copy_source :: "iteratorForInsertMessage \<Rightarrow> (topic \<times> string) list option" where
  "copy_source r =
     (case iterator_Next r of
        (False, r') \<Rightarrow> Some []
      | (True, r') \<Rightarrow>
          (case iterator_Values r' of
             None \<Rightarrow> None
           | Some v \<Rightarrow> map_option (\<lambda>vs. v # vs) (copy_source r')))"
  by pat_completeness auto
termination
  by (relation "measure (\<lambda>r. 2 * length (it_rows r) + (if skippedFirstNextCall r then 0 else 1))")
    (auto simp: iterator_Next_def Let_def split: if_splits)

declare copy_source.simps [simp del]

lemma copy_source_skipped:
  "copy_source \<lparr>it_rows = p # ps, skippedFirstNextCall = True\<rparr> =
     Some (map (\<lambda>q. (p_Topic q, p_Payload q)) ps)"
proof (induction ps arbitrary: p)
  case Nil
  then show ?case by (subst copy_source.simps) (simp add: iterator_Next_def)
next
  case (Cons q ps)
  then show ?case
    by (subst copy_source.simps) (simp add: iterator_Next_def iterator_Values_def)
qed

lemma copy_source_all:
  "copy_source \<lparr>it_rows = ps, skippedFirstNextCall = False\<rparr> =
     Some (map (\<lambda>q. (p_Topic q, p_Payload q)) ps)"
proof (cases ps)
  case Nil
  then show ?thesis by (subst copy_source.simps) (simp add: iterator_Next_def)
next
  case (Cons p ps')
  then show ?thesis
    by (subst copy_source.simps) (simp add: iterator_Next_def iterator_Values_def copy_source_skipped)
qed

fun number_rows :: "int \<Rightarrow> time \<Rightarrow> (topic \<times> string) list \<Rightarrow> Message list" where
  "number_rows i now [] = []"
| "number_rows i now ((t, doc) # vs) =
     \<lparr>m_ID = i, m_InsertedAt = now, m_Topic = t, m_Payload = doc\<rparr> # number_rows (i + 1) now vs"

text \<open>
  What the server does with the copied rows: read every payload as a JSON document (any one
  that is none fails the statement), store the rows under fresh identities with the
  transaction's time, and fire the statement trigger.
\<close>

definition copy_messages ::
  "env \<Rightarrow> (topic \<times> string) list \<Rightarrow> 'a db \<Rightarrow> (go_err + nat) \<times> 'a db" where
  "copy_messages e vs d =
     (case those (map (e_jsonb e \<circ> snd) vs) of
        None \<Rightarrow> (Inl (DriverError ''invalid input syntax for type json''), d)
      | Some docs \<Rightarrow>
          (let ms = number_rows (messages_id_seq d) (e_now e AtBegin) (zip (map fst vs) docs);
               d' = d\<lparr>messages := messages d @ ms,
                      messages_id_seq := messages_id_seq d + int (length ms)\<rparr>
           in (Inr (length ms),
               topics_insert_trigger_fn (e_now e AtBegin) (e_topic_locked e) ms d')))"

definition InsertMessage ::
  "env \<Rightarrow> InsertMessageParams list \<Rightarrow> 'a db \<Rightarrow> (go_err + nat) \<times> 'a db" where
  "InsertMessage e arg d =
     on_err (call_err e AtInsertMessage) (\<lambda>er. (Inl er, d))
       (case copy_source \<lparr>it_rows = arg, skippedFirstNextCall = False\<rparr> of
          None \<Rightarrow> (Inl (DriverError ''panic''), d)
        | Some vs \<Rightarrow> copy_messages e vs d)"

lemma InsertMessage_alt:
  "InsertMessage e arg d =
     on_err (call_err e AtInsertMessage) (\<lambda>er. (Inl er, d))
       (copy_messages e (map (\<lambda>q. (p_Topic q, p_Payload q)) arg) d)"
  by (simp add: InsertMessage_def copy_source_all)

section \<open>\<open>AddMessages\<close> and the \<open>Notifier\<close>\<close>

record MessageOpts =
  Payload :: string

type_synonym notifier_ref = nat

text \<open>A notifier holds hooks; a hook is \<open>newMessageNotifier\<close> for a topic.\<close>

type_synonym notifier_store = "notifier_ref \<Rightarrow> topic list"

datatype AddOpt = WithNotifier notifier_ref

definition add_opts :: "AddOpt list \<Rightarrow> notifier_ref option" where
  "add_opts aopts = fold (\<lambda>a n. case a of WithNotifier r \<Rightarrow> Some r) aopts None"

fun insert_params :: "topic \<Rightarrow> nat \<Rightarrow> MessageOpts list \<Rightarrow> go_err + InsertMessageParams list" where
  "insert_params topic i [] = Inr []"
| "insert_params topic i (msg # msgs) =
     (if Payload msg = [] then Inl (EmptyPayloadErr topic i)
      else (case insert_params topic (Suc i) msgs of
              Inl er \<Rightarrow> Inl er
            | Inr ps \<Rightarrow> Inr (\<lparr>p_Topic = topic, p_Payload = Payload msg\<rparr> # ps)))"

definition AddMessages ::
  "'a outboxImpl \<Rightarrow> env \<Rightarrow> topic \<Rightarrow> MessageOpts list \<Rightarrow> AddOpt list \<Rightarrow> notifier_store \<Rightarrow> 'a db
     \<Rightarrow> go_err option \<times> notifier_store \<times> 'a db" where
  "AddMessages o1 e topic msgs aopts store tx =
     (if topic = [] then (Some (Errorf ''topic must not be empty'' []), store, tx)
      else if msgs = [] then (None, store, tx)
      else (case insert_params topic 0 msgs of
        Inl er \<Rightarrow> (Some er, store, tx)
      | Inr params \<Rightarrow>
          (case InsertMessage e params tx of
             (Inl er, tx1) \<Rightarrow> (Some (Wrap ''could not insert messages for topic'' topic er), store, tx1)
           | (Inr n, tx1) \<Rightarrow>
               (case txPub o1 of
                  Some pubInTx \<Rightarrow>
                    (case pubInTx topic None tx1 of
                       (Some er, tx2) \<Rightarrow>
                         (Some (Wrap ''could not publish new-message notification for topic'' topic er),
                          store, tx2)
                     | (None, tx2) \<Rightarrow> (None, store, tx2))
                | None \<Rightarrow>
                    (None,
                     (case (pubsub o1, add_opts aopts) of
                        (Some _, Some r) \<Rightarrow> store(r := store r @ [topic])
                      | _ \<Rightarrow> store),
                     tx1)))))"

text \<open>The hook publishes; a failure is logged, and the log line is what is left of it.\<close>

definition newMessageNotifier :: "'a PubSub \<Rightarrow> topic \<Rightarrow> (topic \<times> go_err) option" where
  "newMessageNotifier ps topic = map_option (\<lambda>er. (topic, er)) (ps_Pub ps topic None)"

definition Notifier_Notify :: "'a PubSub \<Rightarrow> topic list \<Rightarrow> (topic \<times> go_err) list" where
  "Notifier_Notify ps hooks = List.map_filter (newMessageNotifier ps) hooks"

section \<open>Lemmas\<close>

lemma insert_params_Inr:
  "insert_params tp i msgs = Inr ps \<longleftrightarrow>
     list_all (\<lambda>m. Payload m \<noteq> []) msgs \<and>
     ps = map (\<lambda>m. \<lparr>p_Topic = tp, p_Payload = Payload m\<rparr>) msgs"
proof (induction msgs arbitrary: i ps)
  case Nil
  then show ?case by auto
next
  case (Cons m msgs)
  show ?case
  proof (cases "insert_params tp (Suc i) msgs")
    case (Inl er)
    with Cons.IH [of "Suc i"] show ?thesis by auto
  next
    case (Inr qs)
    with Cons.IH [of "Suc i" qs] show ?thesis by auto
  qed
qed

lemma insert_params_Inl:
  "insert_params tp i msgs = Inl er \<longleftrightarrow>
     (\<exists>k < length msgs. er = EmptyPayloadErr tp (i + k) \<and> Payload (msgs ! k) = [] \<and>
        (\<forall>j < k. Payload (msgs ! j) \<noteq> []))"
proof (induction msgs arbitrary: i)
  case Nil
  then show ?case by simp
next
  case (Cons m msgs)
  show ?case
  proof (cases "Payload m = []")
    case True
    then show ?thesis by (auto simp: Ex_less_Suc2 All_less_Suc2)
  next
    case False
    then have "insert_params tp i (m # msgs) = Inl er \<longleftrightarrow> insert_params tp (Suc i) msgs = Inl er"
      by (auto split: sum.splits)
    also have "\<dots> \<longleftrightarrow> (\<exists>k < length msgs. er = EmptyPayloadErr tp (Suc i + k) \<and>
        Payload (msgs ! k) = [] \<and> (\<forall>j < k. Payload (msgs ! j) \<noteq> []))"
      by (rule Cons.IH)
    also have "\<dots> \<longleftrightarrow> (\<exists>k < length (m # msgs). er = EmptyPayloadErr tp (i + k) \<and>
        Payload ((m # msgs) ! k) = [] \<and> (\<forall>j < k. Payload ((m # msgs) ! j) \<noteq> []))"
      using False by (simp add: Ex_less_Suc2 All_less_Suc2)
    finally show ?thesis .
  qed
qed

lemma number_rows_length [simp]: "length (number_rows i now vs) = length vs"
  by (induction vs arbitrary: i) auto

lemma number_rows_ids: "map m_ID (number_rows i now vs) = map (\<lambda>k. i + int k) [0..<length vs]"
proof (induction vs arbitrary: i)
  case Nil
  then show ?case by simp
next
  case (Cons v vs)
  obtain t doc where "v = (t, doc)" by (cases v)
  then have "map m_ID (number_rows i now (v # vs)) =
      i # map (\<lambda>k. i + 1 + int k) [0..<length vs]"
    using Cons.IH by simp
  also have "\<dots> = map (\<lambda>k. i + int k) (0 # map Suc [0..<length vs])"
    by simp
  also have "0 # map Suc [0..<length vs] = [0..<length (v # vs)]"
    by (simp add: map_Suc_upt upt_conv_Cons del: upt_Suc)
  finally show ?case .
qed

lemma number_rows_fields:
  "map m_Topic (number_rows i now vs) = map fst vs"
  "map m_Payload (number_rows i now vs) = map snd vs"
  "m \<in> set (number_rows i now vs) \<Longrightarrow> m_InsertedAt m = now"
  by (induction vs arbitrary: i) auto

lemma number_rows_id_bounds:
  "m \<in> set (number_rows i now vs) \<Longrightarrow> i \<le> m_ID m \<and> m_ID m < i + int (length vs)"
  by (induction vs arbitrary: i) fastforce+

lemma number_rows_distinct: "distinct (map m_ID (number_rows i now vs))"
  by (simp add: number_rows_ids distinct_map inj_on_def)

lemma those_Some_iff: "those xs = Some ys \<longleftrightarrow> xs = map Some ys"
proof (induction xs arbitrary: ys)
  case Nil
  then show ?case by auto
next
  case (Cons x xs)
  then show ?case by (cases x; cases ys) auto
qed

text \<open>Appending rows under fresh identities keeps the invariant, since the trigger registers their topics.\<close>

lemma db_ok_append_rows:
  assumes "db_ok d" "distinct (map m_ID ms)"
    and "\<And>m. m \<in> set ms \<Longrightarrow> m_ID m < messages_id_seq d \<and> m_ID m \<notin> m_ID ` set (messages d)"
  shows "db_ok (topics_insert_trigger_fn now lk ms (d\<lparr>messages := messages d @ ms\<rparr>))"
    (is "db_ok ?t")
proof -
  have "m_ID ` set (messages d) \<inter> m_ID ` set ms = {}"
    unfolding disjoint_iff using assms(3) by (metis imageE)
  then have "distinct (map m_ID (messages ?t))"
    using db_okD(4) [OF assms(1)] assms(2) by simp
  moreover have "list_all (\<lambda>m. m_ID m < messages_id_seq ?t) (messages ?t)"
    using db_okD(5) [OF assms(1)] assms(3) by (auto simp: list_all_iff)
  moreover have "list_all (\<lambda>m. m_Topic m \<in> t_Topic ` set (topics ?t)) (messages ?t)"
    using db_okD(6) [OF assms(1)] by (auto simp: list_all_iff trigger_topic_keys)
  moreover have "distinct (map t_Topic (topics ?t))"
    using db_okD(1) [OF assms(1)] by (intro trigger_pk) simp
  ultimately show ?thesis
    using db_okD(2,3) [OF assms(1)]
    by (simp add: db_ok_def pk_ok_def ids_ok_def topics_registered_def)
qed

lemma db_ok_insert_rows:
  assumes "db_ok d"
  shows "db_ok (topics_insert_trigger_fn now lk (number_rows (messages_id_seq d) now vs)
     (d\<lparr>messages := messages d @ number_rows (messages_id_seq d) now vs,
        messages_id_seq := messages_id_seq d + int (length vs)\<rparr>))"
proof -
  let ?d = "d\<lparr>messages_id_seq := messages_id_seq d + int (length vs)\<rparr>"
  have ok: "db_ok ?d" using assms by (rule db_ok_seq) simp
  have same: "d\<lparr>messages := ms, messages_id_seq := n\<rparr> = d\<lparr>messages_id_seq := n, messages := ms\<rparr>" for ms n
    by simp
  have "db_ok (topics_insert_trigger_fn now lk (number_rows (messages_id_seq d) now vs)
      (?d\<lparr>messages := messages ?d @ number_rows (messages_id_seq d) now vs\<rparr>))"
    using db_okD(5) [OF assms]
    by (intro db_ok_append_rows [OF ok] number_rows_distinct) (fastforce dest: number_rows_id_bounds)
  then show ?thesis unfolding same by simp
qed

lemma copy_messages_Inr:
  assumes "copy_messages e vs d = (Inr n, d')"
  obtains docs where "map (e_jsonb e \<circ> snd) vs = map Some docs" and "n = length vs"
    and "d' = topics_insert_trigger_fn (e_now e AtBegin) (e_topic_locked e)
        (number_rows (messages_id_seq d) (e_now e AtBegin) (zip (map fst vs) docs))
        (d\<lparr>messages := messages d @
             number_rows (messages_id_seq d) (e_now e AtBegin) (zip (map fst vs) docs),
           messages_id_seq := messages_id_seq d + int (length vs)\<rparr>)"
proof -
  from assms obtain docs where docs: "map (e_jsonb e \<circ> snd) vs = map Some docs"
    by (auto simp: copy_messages_def those_Some_iff split: option.splits)
  then have len: "length docs = length vs" by (metis length_map)
  have "those (map (e_jsonb e \<circ> snd) vs) = Some docs"
    using docs by (simp only: those_Some_iff)
  with assms len have "n = length vs"
    and "d' = topics_insert_trigger_fn (e_now e AtBegin) (e_topic_locked e)
        (number_rows (messages_id_seq d) (e_now e AtBegin) (zip (map fst vs) docs))
        (d\<lparr>messages := messages d @
             number_rows (messages_id_seq d) (e_now e AtBegin) (zip (map fst vs) docs),
           messages_id_seq := messages_id_seq d + int (length vs)\<rparr>)"
    by (auto simp: copy_messages_def Let_def)
  with docs show ?thesis by (rule that)
qed

lemma copy_messages_Inl: "copy_messages e vs d = (Inl er, d') \<Longrightarrow> d' = d"
  by (auto simp: copy_messages_def Let_def split: option.splits)

lemma db_ok_copy_messages [schema_ok]: "db_ok d \<Longrightarrow> db_ok (snd (copy_messages e vs d))"
proof -
  assume ok: "db_ok d"
  obtain r d' where c: "copy_messages e vs d = (r, d')" by (cases "copy_messages e vs d")
  show ?thesis
  proof (cases r)
    case (Inl er)
    with c ok show ?thesis by (auto dest: copy_messages_Inl)
  next
    case (Inr n)
    from c [unfolded Inr] obtain docs where
      len: "map (e_jsonb e \<circ> snd) vs = map Some docs" and
      d': "d' = topics_insert_trigger_fn (e_now e AtBegin) (e_topic_locked e)
        (number_rows (messages_id_seq d) (e_now e AtBegin) (zip (map fst vs) docs))
        (d\<lparr>messages := messages d @
             number_rows (messages_id_seq d) (e_now e AtBegin) (zip (map fst vs) docs),
           messages_id_seq := messages_id_seq d + int (length vs)\<rparr>)"
      by (rule copy_messages_Inr)
    from len have "length vs = length (zip (map fst vs) docs)" by (metis length_map length_zip min.idem)
    then show ?thesis
      using db_ok_insert_rows [OF ok, of "e_now e AtBegin" "e_topic_locked e" "zip (map fst vs) docs"]
        c d' by simp
  qed
qed

section \<open>Activity of a topic\<close>

text \<open>
  Maintenance relies on \<open>last_inserted_at\<close>: a stored message is never more than one bump
  window younger than its topic's stamp says. Rows without a stamp count as active and
  promise nothing.
\<close>

definition activity_ok :: "'a db \<Rightarrow> bool" where
  "activity_ok d \<longleftrightarrow>
     list_all (\<lambda>m. case find_topic (m_Topic m) d of
         None \<Rightarrow> False
       | Some t \<Rightarrow> (case t_LastInsertedAt t of
             None \<Rightarrow> True
           | Some l \<Rightarrow> m_InsertedAt m \<le> l + bump_granularity)) (messages d)"

definition messages_until :: "time \<Rightarrow> 'a db \<Rightarrow> bool" where
  "messages_until now d \<longleftrightarrow> list_all (\<lambda>m. m_InsertedAt m \<le> now) (messages d)"

lemma activity_ok_iff:
  "activity_ok d \<longleftrightarrow>
     (\<forall>m \<in> set (messages d). \<exists>t. find_topic (m_Topic m) d = Some t \<and>
        (\<forall>l. t_LastInsertedAt t = Some l \<longrightarrow> m_InsertedAt m \<le> l + bump_granularity))"
  by (force simp: activity_ok_def list_all_iff split: option.splits)

lemma activity_ok_cong:
  "messages d' = messages d \<Longrightarrow> topics d' = topics d \<Longrightarrow> activity_ok d' = activity_ok d"
  by (simp add: activity_ok_def)

lemma activity_ok_trigger:
  assumes "activity_ok d" and "messages_until now d"
    and "\<And>m. m \<in> set ms \<Longrightarrow> m_InsertedAt m = now"
    and "\<And>m. m \<in> set ms \<Longrightarrow> \<not> lk (m_Topic m)"
    and "messages d1 = messages d @ ms" and "topics d1 = topics d"
  shows "activity_ok (topics_insert_trigger_fn now lk ms d1)"
  unfolding activity_ok_iff
proof
  fix m
  assume "m \<in> set (messages (topics_insert_trigger_fn now lk ms d1))"
  with assms(5) have m: "m \<in> set (messages d) \<or> m \<in> set ms" by auto
  let ?d = "topics_insert_trigger_fn now lk ms d1"
  let ?t = "m_Topic m"
  have le_now: "m_InsertedAt m \<le> now"
    using m assms(2,3) by (auto simp: messages_until_def list_all_iff)
  have bump: "0 \<le> bump_granularity" by (simp add: bump_granularity_def)
  show "\<exists>t. find_topic ?t ?d = Some t \<and>
      (\<forall>l. t_LastInsertedAt t = Some l \<longrightarrow> m_InsertedAt m \<le> l + bump_granularity)"
  proof (cases "find_topic ?t d")
    case None
    with m have "m \<in> set ms" using assms(1) by (auto simp: activity_ok_iff)
    with None le_now bump show ?thesis
      by (auto simp: trigger_find_topic assms(6))
  next
    case (Some r)
    show ?thesis
    proof (cases "?t \<in> m_Topic ` set ms \<and> stale_activity now r \<and> \<not> lk ?t")
      case True
      with Some le_now bump show ?thesis by (auto simp: trigger_find_topic assms(6))
    next
      case False
      then have row: "find_topic ?t ?d = Some r"
        using Some by (auto simp: trigger_find_topic assms(6))
      show ?thesis
      proof (cases "m \<in> set ms")
        case True
        with False assms(4) have "\<not> stale_activity now r" by auto
        with row le_now show ?thesis
          by (auto simp: stale_activity_def split: option.splits)
      next
        case False
        with m assms(1) Some have
          "\<forall>l. t_LastInsertedAt r = Some l \<longrightarrow> m_InsertedAt m \<le> l + bump_granularity"
          by (fastforce simp: activity_ok_iff)
        with row show ?thesis by blast
      qed
    qed
  qed
qed

lemma activity_ok_copy_messages:
  assumes "activity_ok d" and "messages_until (e_now e AtBegin) d"
    and "\<And>v. v \<in> set vs \<Longrightarrow> \<not> e_topic_locked e (fst v)"
  shows "activity_ok (snd (copy_messages e vs d))"
proof -
  obtain r d' where c: "copy_messages e vs d = (r, d')" by (cases "copy_messages e vs d")
  show ?thesis
  proof (cases r)
    case (Inl er)
    with c assms(1) show ?thesis by (auto dest: copy_messages_Inl)
  next
    case (Inr n)
    from c [unfolded Inr] obtain docs where
      "map (e_jsonb e \<circ> snd) vs = map Some docs" and
      d': "d' = topics_insert_trigger_fn (e_now e AtBegin) (e_topic_locked e)
        (number_rows (messages_id_seq d) (e_now e AtBegin) (zip (map fst vs) docs))
        (d\<lparr>messages := messages d @
             number_rows (messages_id_seq d) (e_now e AtBegin) (zip (map fst vs) docs),
           messages_id_seq := messages_id_seq d + int (length vs)\<rparr>)"
      by (rule copy_messages_Inr)
    let ?ms = "number_rows (messages_id_seq d) (e_now e AtBegin) (zip (map fst vs) docs)"
    have "m_Topic m \<in> fst ` set vs" if "m \<in> set ?ms" for m
    proof -
      have "m_Topic m \<in> set (map m_Topic ?ms)" using that by simp
      also have "map m_Topic ?ms = map fst (zip (map fst vs) docs)"
        by (rule number_rows_fields(1))
      finally show ?thesis by (auto dest: set_zip_leftD)
    qed
    then have "\<not> e_topic_locked e (m_Topic m)" if "m \<in> set ?ms" for m
      using that assms(3) by fastforce
    then show ?thesis
      unfolding c snd_conv d'
      by (intro activity_ok_trigger [OF assms(1,2)]) (simp_all add: number_rows_fields)
  qed
qed

section \<open>Properties of \<open>AddMessages\<close>\<close>

lemma AddMessages_insert:
  assumes "topic \<noteq> []" and "msgs \<noteq> []" and "list_all (\<lambda>m. Payload m \<noteq> []) msgs"
    and "e_outcome e AtInsertMessage = Done"
    and "copy_messages e (map (\<lambda>m. (topic, Payload m)) msgs) tx = (Inr n, tx1)"
  shows "AddMessages o1 e topic msgs aopts store tx =
     (case txPub o1 of
        Some pubInTx \<Rightarrow>
          (case pubInTx topic None tx1 of
             (Some er, tx2) \<Rightarrow>
               (Some (Wrap ''could not publish new-message notification for topic'' topic er), store, tx2)
           | (None, tx2) \<Rightarrow> (None, store, tx2))
      | None \<Rightarrow>
          (None, (case (pubsub o1, add_opts aopts) of
              (Some _, Some r) \<Rightarrow> store(r := store r @ [topic]) | _ \<Rightarrow> store), tx1))"
proof -
  have "insert_params topic 0 msgs = Inr (map (\<lambda>m. \<lparr>p_Topic = topic, p_Payload = Payload m\<rparr>) msgs)"
    using assms(3) by (simp add: insert_params_Inr)
  moreover have "InsertMessage e (map (\<lambda>m. \<lparr>p_Topic = topic, p_Payload = Payload m\<rparr>) msgs) tx =
      (Inr n, tx1)"
    using assms(4,5) by (simp add: InsertMessage_alt comp_def)
  ultimately show ?thesis using assms(1,2) by (simp add: AddMessages_def)
qed

text \<open>
  \<open>AddMessages\<close> checks its arguments before it touches the transaction: an empty topic is
  an error, no messages is a success without effect, and the first message with an empty
  payload is reported with its index; in each case transaction and notifiers are unchanged.
\<close>

theorem AddMessages_validation:
  "AddMessages o1 e [] msgs aopts store tx = (Some (Errorf ''topic must not be empty'' []), store, tx) \<and>
   (topic \<noteq> [] \<longrightarrow> AddMessages o1 e topic [] aopts store tx = (None, store, tx)) \<and>
   (topic \<noteq> [] \<and> k < length msgs \<and> Payload (msgs ! k) = [] \<and> (\<forall>j < k. Payload (msgs ! j) \<noteq> []) \<longrightarrow>
      AddMessages o1 e topic msgs aopts store tx = (Some (EmptyPayloadErr topic k), store, tx))"
proof -
  have "insert_params topic 0 msgs = Inl (EmptyPayloadErr topic k)"
    if "k < length msgs" "Payload (msgs ! k) = []" "\<forall>j < k. Payload (msgs ! j) \<noteq> []"
    using that by (auto simp: insert_params_Inl)
  then show ?thesis by (auto simp: AddMessages_def)
qed

theorem AddMessages_validation_witness:
  "AddMessages (new_outboxImpl 1 defaultOpts) (quiet_env 0) ''orders''
      [\<lparr>Payload = ''1''\<rparr>, \<lparr>Payload = []\<rparr>, \<lparr>Payload = ''2''\<rparr>] [] (\<lambda>_. []) (empty_db ()) =
     (Some (EmptyPayloadErr ''orders'' 1), \<lambda>_. [], empty_db ())"
  using AddMessages_validation [of "new_outboxImpl 1 defaultOpts" "quiet_env 0"
      "[\<lparr>Payload = ''1''\<rparr>, \<lparr>Payload = []\<rparr>, \<lparr>Payload = ''2''\<rparr>]" "[]" "\<lambda>_. []" "empty_db ()" "''orders''" 1]
  by simp



text \<open>
  Whatever happens during \<open>AddMessages\<close> (rejected arguments, a failed or an acknowledged
  insert, a failed or a successful publication), the transaction it leaves satisfies the
  schema's invariant, and the activity stamps stay accurate as long as no other transaction
  holds the topic's row: no stored message is more than one bump window younger than the stamp.
\<close>

theorem AddMessages_invariants:
  assumes "db_ok tx" and "activity_ok tx" and "messages_until (e_now e AtBegin) tx"
    and "\<not> e_topic_locked e topic"
    and "\<And>f d. txPub o1 = Some f \<Longrightarrow>
           messages (snd (f topic None d)) = messages d \<and> topics (snd (f topic None d)) = topics d \<and>
           (db_ok d \<longrightarrow> db_ok (snd (f topic None d)))"
  shows "db_ok (snd (snd (AddMessages o1 e topic msgs aopts store tx))) \<and>
     activity_ok (snd (snd (AddMessages o1 e topic msgs aopts store tx)))"
proof (cases "topic = [] \<or> msgs = [] \<or> \<not> list_all (\<lambda>m. Payload m \<noteq> []) msgs")
  case True
  then have "snd (snd (AddMessages o1 e topic msgs aopts store tx)) = tx"
    by (auto simp: AddMessages_def insert_params_Inr split: sum.splits)
  with assms(1,2) show ?thesis by simp
next
  case False
  let ?vs = "map (\<lambda>m. (topic, Payload m)) msgs"
  obtain r tx1 where c: "copy_messages e ?vs tx = (r, tx1)" by (cases "copy_messages e ?vs tx")
  have tx1: "db_ok tx1" "activity_ok tx1"
    using db_ok_copy_messages [OF assms(1), of e ?vs]
      activity_ok_copy_messages [OF assms(2,3), of ?vs] assms(4) c by (simp, fastforce)
  have ins: "InsertMessage e (map (\<lambda>m. \<lparr>p_Topic = topic, p_Payload = Payload m\<rparr>) msgs) tx =
      on_err (call_err e AtInsertMessage) (\<lambda>er. (Inl er, tx)) (r, tx1)"
    using c by (simp add: InsertMessage_alt comp_def)
  have par: "insert_params topic 0 msgs = Inr (map (\<lambda>m. \<lparr>p_Topic = topic, p_Payload = Payload m\<rparr>) msgs)"
    using False by (simp add: insert_params_Inr)
  show ?thesis
  proof (cases "\<exists>n. e_outcome e AtInsertMessage = Done \<and> r = Inr n")
    case False
    then have "snd (snd (AddMessages o1 e topic msgs aopts store tx)) \<in> {tx, tx1}"
      using par ins by (cases r) (auto simp: AddMessages_def on_err_def split: option.splits)
    with tx1 assms(1,2) show ?thesis by auto
  next
    case True
    then obtain n where "e_outcome e AtInsertMessage = Done" and "r = Inr n" by blast
    with c False AddMessages_insert [of topic msgs e tx n tx1 o1 aopts store]
    have add: "AddMessages o1 e topic msgs aopts store tx =
     (case txPub o1 of
        Some pubInTx \<Rightarrow>
          (case pubInTx topic None tx1 of
             (Some er, tx2) \<Rightarrow>
               (Some (Wrap ''could not publish new-message notification for topic'' topic er), store, tx2)
           | (None, tx2) \<Rightarrow> (None, store, tx2))
      | None \<Rightarrow>
          (None, (case (pubsub o1, add_opts aopts) of
              (Some _, Some r) \<Rightarrow> store(r := store r @ [topic]) | _ \<Rightarrow> store), tx1))"
      by blast
    show ?thesis
    proof (cases "txPub o1")
      case None
      with add tx1 show ?thesis by simp
    next
      case (Some f)
      obtain er tx2 where f: "f topic None tx1 = (er, tx2)" by (cases "f topic None tx1")
      with assms(5) [OF Some, of tx1] tx1 have "db_ok tx2" "activity_ok tx2"
        by (simp_all add: activity_ok_cong [of tx2 tx1])
      with add Some f show ?thesis by (cases er) simp_all
    qed
  qed
qed

theorem AddMessages_invariants_witness:
  "db_ok (snd (snd (AddMessages (new_outboxImpl 1 defaultOpts) (quiet_env 0) ''orders''
       [\<lparr>Payload = ''1''\<rparr>] [] (\<lambda>_. []) (empty_db ()))))"
proof -
  have pub: "txPub (new_outboxImpl 1 defaultOpts :: unit outboxImpl) = None"
    by (simp add: new_outboxImpl_def defaultOpts_def asTxPublisher_def)
  have "activity_ok (empty_db ())" "messages_until (e_now (quiet_env 0) AtBegin) (empty_db ())"
    by (simp_all add: activity_ok_def messages_until_def empty_db_def)
  then show ?thesis
    using AddMessages_invariants [of "empty_db ()" "quiet_env 0" "''orders''"
        "new_outboxImpl 1 defaultOpts" "[\<lparr>Payload = ''1''\<rparr>]" "[]" "\<lambda>_. []"] pub
    by simp
qed

end
