(* ===== verification/Lease_Contract.thy ===== *)
theory Lease_Contract
  imports Outbox_Prelude
begin

text \<open>
  The contract that the program's two kinds of lease share: exclusive consumption of a topic,
  and maintenance of a topic. A lease has a holder, is live or lapsed when somebody looks at it
  (\<open>'c\<close> is what the looker sees: its clock, the outcome of its calls), and is taken by an
  attempt that answers whether it succeeded. What follows from the contract is proved once;
  both leases interpret it in the theories of their components.
\<close>

locale lease_contract =
  fixes ident :: "'i \<Rightarrow> uuid"
    and holder :: "'k \<Rightarrow> 'd \<Rightarrow> uuid option"
    and live :: "'i \<Rightarrow> 'c \<Rightarrow> 'k \<Rightarrow> 'd \<Rightarrow> bool"
    and attempt :: "'i \<Rightarrow> 'c \<Rightarrow> 'k \<Rightarrow> 'd \<Rightarrow> bool \<times> 'd"
  assumes refused: "holder k d = Some a \<Longrightarrow> a \<noteq> ident i \<Longrightarrow> live i c k d \<Longrightarrow>
      \<not> fst (attempt i c k d) \<and> holder k (snd (attempt i c k d)) = Some a"
    and taken: "fst (attempt i c k d) \<Longrightarrow> holder k (snd (attempt i c k d)) = Some (ident i)"
    and only_self: "holder k (snd (attempt i c k d)) \<noteq> holder k d \<Longrightarrow>
      holder k (snd (attempt i c k d)) = Some (ident i)"
    and other_keys: "k' \<noteq> k \<Longrightarrow> holder k' (snd (attempt i c k d)) = holder k' d"
begin

text \<open>A lease that is live is lost to nobody.\<close>

lemma lost_only_when_lapsed:
  assumes "holder k d = Some a" and "holder k (snd (attempt i c k' d)) \<noteq> Some a"
  shows "k' = k \<and> ident i \<noteq> a \<and> \<not> live i c k d \<and> holder k (snd (attempt i c k' d)) = Some (ident i)"
proof -
  have k: "k' = k"
  proof (rule ccontr)
    assume "k' \<noteq> k"
    then have "holder k (snd (attempt i c k' d)) = holder k d"
      using other_keys [of k k' i c d] by simp
    with assms show False by simp
  qed
  have new: "holder k (snd (attempt i c k' d)) = Some (ident i)"
    using only_self [of k i c d] assms k by simp
  with assms(2) have "ident i \<noteq> a" by auto
  with refused [of k d a i c] assms k new show ?thesis by auto
qed

text \<open>However many attempts follow each other, on whatever keys and by whatever instances: a
  holder is replaced only by an attempt that found its lease lapsed.\<close>

lemma handover_needs_lapse:
  assumes "holder k d = Some a"
    and "holder k (fold (\<lambda>(i, c, k') d. snd (attempt i c k' d)) as d) \<noteq> Some a"
  shows "\<exists>pre i c post. as = pre @ (i, c, k) # post \<and> ident i \<noteq> a \<and>
     holder k (fold (\<lambda>(i, c, k') d. snd (attempt i c k' d)) pre d) = Some a \<and>
     \<not> live i c k (fold (\<lambda>(i, c, k') d. snd (attempt i c k' d)) pre d)"
  using assms
proof (induction as arbitrary: d)
  case Nil
  then show ?case by simp
next
  case (Cons x as)
  obtain i c k' where x: "x = (i, c, k')" by (cases x)
  let ?d = "snd (attempt i c k' d)"
  show ?case
  proof (cases "holder k ?d = Some a")
    case True
    with Cons.IH [of ?d] Cons.prems(2) x obtain pre j c' post where
      p: "as = pre @ (j, c', k) # post" "ident j \<noteq> a"
        "holder k (fold (\<lambda>(i, c, k') d. snd (attempt i c k' d)) pre ?d) = Some a"
        "\<not> live j c' k (fold (\<lambda>(i, c, k') d. snd (attempt i c k' d)) pre ?d)"
      by auto
    with x show ?thesis by (intro exI [of _ "x # pre"] exI [of _ j] exI [of _ c'] exI [of _ post]) simp
  next
    case False
    from lost_only_when_lapsed [OF Cons.prems(1) this] Cons.prems(1) x show ?thesis
      by (intro exI [of _ "[]"] exI [of _ i] exI [of _ c] exI [of _ as]) simp
  qed
qed

text \<open>Who has won an attempt keeps everybody else out for as long as the lease is live.\<close>

lemma winner_keeps_out:
  assumes "fst (attempt i c k d)" and "ident j \<noteq> ident i" and "live j c' k (snd (attempt i c k d))"
  shows "\<not> fst (attempt j c' k (snd (attempt i c k d)))"
  using refused [OF taken [OF assms(1)] _ assms(3)] assms(2) by simp

end

text \<open>
  A system in which attempts are some of the steps: what the other steps promise is that they leave
  every holder alone. Then leases change hands in the whole system only as the contract says.
\<close>

locale lease_system = lease_contract ident holder live attempt
  for ident :: "'i \<Rightarrow> uuid"
    and holder :: "'k \<Rightarrow> 'd \<Rightarrow> uuid option"
    and live :: "'i \<Rightarrow> 'c \<Rightarrow> 'k \<Rightarrow> 'd \<Rightarrow> bool"
    and attempt :: "'i \<Rightarrow> 'c \<Rightarrow> 'k \<Rightarrow> 'd \<Rightarrow> bool \<times> 'd" +
  fixes step :: "'op \<Rightarrow> 'd \<Rightarrow> 'd"
    and ok :: "'op \<Rightarrow> bool"
    and inv :: "'d \<Rightarrow> bool"
    and attempt_of :: "'op \<Rightarrow> ('i \<times> 'c \<times> 'k) option"
  assumes inv_step: "ok op1 \<Longrightarrow> inv d \<Longrightarrow> inv (step op1 d)"
    and attempts: "attempt_of op1 = Some (i, c, k) \<Longrightarrow> step op1 d = snd (attempt i c k d)"
    and others: "attempt_of op1 = None \<Longrightarrow> ok op1 \<Longrightarrow> inv d \<Longrightarrow> holder k (step op1 d) = holder k d"
begin

lemma system_step_holder:
  assumes "ok op1" "inv d" "holder k d = Some a"
  obtains (kept) "holder k (step op1 d) = Some a"
  | (lost) i c where "attempt_of op1 = Some (i, c, k)" "ident i \<noteq> a" "\<not> live i c k d"
      "holder k (step op1 d) = Some (ident i)"
proof (cases "attempt_of op1")
  case None
  with others [OF None assms(1,2)] assms(3) kept show ?thesis by simp
next
  case (Some x)
  obtain i c k' where x: "x = (i, c, k')" by (cases x)
  with Some have step: "step op1 d = snd (attempt i c k' d)" by (simp add: attempts)
  show ?thesis
  proof (cases "holder k (step op1 d) = Some a")
    case False
    with step have "holder k (snd (attempt i c k' d)) \<noteq> Some a" by simp
    from lost_only_when_lapsed [OF assms(3) this] have
      lapsed: "k' = k" "ident i \<noteq> a" "\<not> live i c k d" "holder k (snd (attempt i c k' d)) = Some (ident i)"
      by blast+
    show ?thesis
      by (rule lost [of i c]) (use Some x lapsed step in simp_all)
  qed (rule kept)
qed

lemma system_handover:
  "list_all ok ops \<Longrightarrow> inv d \<Longrightarrow> holder k d = Some a \<Longrightarrow>
     holder k (fold step ops d) \<noteq> None \<and>
     (holder k (fold step ops d) = Some a \<or>
       (\<exists>ops1 op1 ops2 i c. ops = ops1 @ op1 # ops2 \<and> attempt_of op1 = Some (i, c, k) \<and> ident i \<noteq> a \<and>
          holder k (fold step ops1 d) = Some a \<and> \<not> live i c k (fold step ops1 d)))"
proof (induction ops arbitrary: d a)
  case (Cons op1 ops)
  then have ok: "ok op1" "list_all ok ops" "inv (step op1 d)" by (simp_all add: inv_step)
  show ?case
  proof (cases rule: system_step_holder [OF ok(1) Cons.prems(2,3)])
    case 1
    from Cons.IH [OF ok(2,3) 1] show ?thesis
    proof (elim conjE disjE exE)
      fix ops1 op2 ops2 i c
      assume "ops = ops1 @ op2 # ops2" "attempt_of op2 = Some (i, c, k)" "ident i \<noteq> a"
        "holder k (fold step ops1 (step op1 d)) = Some a" "\<not> live i c k (fold step ops1 (step op1 d))"
        "holder k (fold step ops (step op1 d)) \<noteq> None"
      then show ?thesis
        by (intro conjI disjI2 exI [of _ "op1 # ops1"] exI [of _ op2] exI [of _ ops2] exI [of _ i] exI [of _ c])
          simp_all
    qed simp
  next
    case (2 i c)
    with Cons.IH [OF ok(2,3) 2(4)] Cons.prems(3) show ?thesis
      by (intro conjI disjI2 exI [of _ "[]"] exI [of _ op1] exI [of _ ops] exI [of _ i] exI [of _ c]) simp_all
  qed
qed simp

end

end
