(* ===== verification/Lease_Watcher.thy ===== *)
theory Lease_Watcher
  imports Outbox_Prelude
begin

text \<open>
  \<open>exclusive_lease_watcher.go\<close>, at the granularity at which its goroutines interleave.

  The state has the map \<open>running\<close>, every watcher goroutine ever started with its program
  counter and the first cause its context was cancelled with, the contexts that have ended,
  and the program counter of every caller inside \<open>Start\<close> or \<open>Stop\<close>. One event is one
  atomic action of a caller, of a goroutine, or of the environment (a context ends); an event
  that is not enabled gives \<open>None\<close>. With \<open>serial\<close> a caller enters \<open>Start\<close> or
  \<open>Stop\<close> for a topic only while no other caller is inside one for that topic.
\<close>

section \<open>State\<close>

type_synonym ctx = nat

type_synonym handle = nat

type_synonym caller = nat

datatype cause = ErrLeaseWatcherStopped | CtxEnded

datatype watcher_pc = Watching | Firing | Exiting | Removed | Closed

record watch =
  wt_topic :: topic
  wt_ctx :: ctx
  wt_cause :: "cause option"
  wt_pc :: watcher_pc

text \<open>\<open>Some c\<close> in a caller's state is a \<open>Start\<close> with context \<open>c\<close>, \<open>None\<close> a \<open>Stop\<close>.\<close>

datatype caller_pc =
    Idle
  | Loading topic "ctx option"
  | Cancelling topic handle "ctx option"
  | Waiting topic handle "ctx option"
  | Storing topic ctx
  | Returned topic bool

record leaseWatcher =
  running :: "topic \<Rightarrow> handle option"
  watches :: "handle \<Rightarrow> watch option"
  next_handle :: handle
  ended :: "ctx \<Rightarrow> bool"
  callers :: "caller \<Rightarrow> caller_pc"
  fired :: "handle list"

definition newLeaseWatcher :: leaseWatcher where
  "newLeaseWatcher = \<lparr>running = (\<lambda>_. None), watches = (\<lambda>_. None), next_handle = 0,
     ended = (\<lambda>_. False), callers = (\<lambda>_. Idle), fired = []\<rparr>"

fun caller_topic :: "caller_pc \<Rightarrow> topic option" where
  "caller_topic Idle = None"
| "caller_topic (Loading t k) = Some t"
| "caller_topic (Cancelling t h k) = Some t"
| "caller_topic (Waiting t h k) = Some t"
| "caller_topic (Storing t c) = Some t"
| "caller_topic (Returned t b) = Some t"

section \<open>Events\<close>

datatype lw_event =
    CallStop caller topic
  | CallStart caller ctx topic
  | LoadAndDelete caller
  | CancelHandle caller
  | AwaitDone caller
  | StoreHandle caller
  | Return caller
  | EndCtx ctx
  | Wake handle
  | OnCancelDone handle
  | CompareAndDelete handle
  | CloseDone handle

abbreviation set_caller :: "caller \<Rightarrow> caller_pc \<Rightarrow> leaseWatcher \<Rightarrow> leaseWatcher" where
  "set_caller i p s \<equiv> s\<lparr>callers := (callers s)(i := p)\<rparr>"

abbreviation set_watch :: "handle \<Rightarrow> watch \<Rightarrow> leaseWatcher \<Rightarrow> leaseWatcher" where
  "set_watch h w s \<equiv> s\<lparr>watches := (watches s)(h \<mapsto> w)\<rparr>"

text \<open>The first cause a context is cancelled with stays its cause.\<close>

definition cancel_watch :: "cause \<Rightarrow> watch \<Rightarrow> watch" where
  "cancel_watch c w = (if wt_cause w = None then w\<lparr>wt_cause := Some c\<rparr> else w)"

text \<open>The end of a context cancels every watch derived from it.\<close>

definition end_ctx :: "ctx \<Rightarrow> watch \<Rightarrow> watch" where
  "end_ctx c w = (if wt_ctx w = c then cancel_watch CtxEnded w else w)"

text \<open>After \<open>Stop\<close>: return its answer, or go on with the rest of \<open>Start\<close>.\<close>

definition after_stop :: "topic \<Rightarrow> ctx option \<Rightarrow> bool \<Rightarrow> caller_pc" where
  "after_stop t k b = (case k of None \<Rightarrow> Returned t b | Some c \<Rightarrow> Storing t c)"

fun lw_step :: "bool \<Rightarrow> (topic \<Rightarrow> caller \<Rightarrow> bool) \<Rightarrow> lw_event \<Rightarrow> leaseWatcher \<Rightarrow> leaseWatcher option" where
  "lw_step serial busy (CallStop i t) s =
     (if callers s i = Idle \<and> \<not> (serial \<and> busy t i)
      then Some (set_caller i (Loading t None) s) else None)"
| "lw_step serial busy (CallStart i c t) s =
     (if callers s i = Idle \<and> \<not> (serial \<and> busy t i)
      then Some (set_caller i (Loading t (Some c)) s) else None)"
| "lw_step serial busy (LoadAndDelete i) s =
     (case callers s i of
        Loading t k \<Rightarrow>
          (case running s t of
             None \<Rightarrow> Some (set_caller i (after_stop t k False) s)
           | Some h \<Rightarrow> Some (set_caller i (Cancelling t h k)
                (s\<lparr>running := (running s)(t := None)\<rparr>)))
      | _ \<Rightarrow> None)"
| "lw_step serial busy (CancelHandle i) s =
     (case callers s i of
        Cancelling t h k \<Rightarrow>
          (case watches s h of
             None \<Rightarrow> None
           | Some w \<Rightarrow> Some (set_caller i (Waiting t h k)
                (set_watch h (cancel_watch ErrLeaseWatcherStopped w) s)))
      | _ \<Rightarrow> None)"
| "lw_step serial busy (AwaitDone i) s =
     (case callers s i of
        Waiting t h k \<Rightarrow>
          (case watches s h of
             None \<Rightarrow> None
           | Some w \<Rightarrow>
               if wt_pc w = Closed then Some (set_caller i (after_stop t k True) s) else None)
      | _ \<Rightarrow> None)"
| "lw_step serial busy (StoreHandle i) s =
     (case callers s i of
        Storing t c \<Rightarrow>
          Some (set_caller i Idle
            (set_watch (next_handle s) \<lparr>wt_topic = t, wt_ctx = c,
                 wt_cause = (if ended s c then Some CtxEnded else None), wt_pc = Watching\<rparr>
              (s\<lparr>running := (running s)(t \<mapsto> next_handle s), next_handle := Suc (next_handle s)\<rparr>)))
      | _ \<Rightarrow> None)"
| "lw_step serial busy (Return i) s =
     (case callers s i of Returned t b \<Rightarrow> Some (set_caller i Idle s) | _ \<Rightarrow> None)"
| "lw_step serial busy (EndCtx c) s =
     Some (s\<lparr>ended := (ended s)(c := True),
             watches := (\<lambda>h. map_option (end_ctx c) (watches s h))\<rparr>)"
| "lw_step serial busy (Wake h) s =
     (case watches s h of
        None \<Rightarrow> None
      | Some w \<Rightarrow>
          if wt_pc w = Watching
          then (case wt_cause w of
                  None \<Rightarrow> None
                | Some ErrLeaseWatcherStopped \<Rightarrow> Some (set_watch h (w\<lparr>wt_pc := Exiting\<rparr>) s)
                | Some CtxEnded \<Rightarrow> Some (set_watch h (w\<lparr>wt_pc := Firing\<rparr>) s))
          else None)"
| "lw_step serial busy (OnCancelDone h) s =
     (case watches s h of
        None \<Rightarrow> None
      | Some w \<Rightarrow>
          if wt_pc w = Firing
          then Some (set_watch h (w\<lparr>wt_pc := Exiting\<rparr>) (s\<lparr>fired := fired s @ [h]\<rparr>)) else None)"
| "lw_step serial busy (CompareAndDelete h) s =
     (case watches s h of
        None \<Rightarrow> None
      | Some w \<Rightarrow>
          if wt_pc w = Exiting
          then Some (set_watch h (w\<lparr>wt_pc := Removed\<rparr>)
                 (if running s (wt_topic w) = Some h
                  then s\<lparr>running := (running s)(wt_topic w := None)\<rparr> else s))
          else None)"
| "lw_step serial busy (CloseDone h) s =
     (case watches s h of
        None \<Rightarrow> None
      | Some w \<Rightarrow>
          if wt_pc w = Removed then Some (set_watch h (w\<lparr>wt_pc := Closed\<rparr>) s) else None)"

text \<open>A caller is busy with a topic while it is inside \<open>Start\<close> or \<open>Stop\<close> for it.\<close>

definition other_busy :: "leaseWatcher \<Rightarrow> topic \<Rightarrow> caller \<Rightarrow> bool" where
  "other_busy s t i \<longleftrightarrow> (\<exists>j. j \<noteq> i \<and> caller_topic (callers s j) = Some t)"

inductive lw_reachable :: "bool \<Rightarrow> leaseWatcher \<Rightarrow> bool" for serial where
  start: "lw_reachable serial newLeaseWatcher"
| step: "lw_reachable serial s \<Longrightarrow> lw_step serial (other_busy s) ev s = Some s' \<Longrightarrow>
    lw_reachable serial s'"

text \<open>A given sequence of events, executable when \<open>serial\<close> is False.\<close>

fun lw_run :: "bool \<Rightarrow> lw_event list \<Rightarrow> leaseWatcher \<Rightarrow> leaseWatcher option" where
  "lw_run serial [] s = Some s"
| "lw_run serial (ev # evs) s =
     (case lw_step serial (other_busy s) ev s of
        None \<Rightarrow> None
      | Some s' \<Rightarrow> lw_run serial evs s')"

section \<open>What holds in every run\<close>

definition live_pc :: "watcher_pc \<Rightarrow> bool" where
  "live_pc p \<longleftrightarrow> p = Watching \<or> p = Firing \<or> p = Exiting"

text \<open>A goroutine that fires does so once, and only because its context ended by itself.\<close>

definition firing_ok :: "leaseWatcher \<Rightarrow> bool" where
  "firing_ok s \<longleftrightarrow> distinct (fired s) \<and>
     (\<forall>h \<in> set (fired s). \<exists>w. watches s h = Some w \<and> wt_cause w = Some CtxEnded \<and>
        wt_pc w \<noteq> Watching \<and> wt_pc w \<noteq> Firing) \<and>
     (\<forall>h w. watches s h = Some w \<and> wt_pc w = Firing \<longrightarrow> wt_cause w = Some CtxEnded) \<and>
     (\<forall>h. next_handle s \<le> h \<longrightarrow> watches s h = None)"

lemma cancel_watch_simps [simp]:
  "wt_topic (cancel_watch c w) = wt_topic w"
  "wt_ctx (cancel_watch c w) = wt_ctx w"
  "wt_pc (cancel_watch c w) = wt_pc w"
  "wt_cause (cancel_watch c w) = (case wt_cause w of None \<Rightarrow> Some c | Some x \<Rightarrow> Some x)"
  by (auto simp: cancel_watch_def split: option.split)

lemma end_ctx_simps [simp]:
  "wt_topic (end_ctx c w) = wt_topic w"
  "wt_ctx (end_ctx c w) = wt_ctx w"
  "wt_pc (end_ctx c w) = wt_pc w"
  "wt_cause w = Some x \<Longrightarrow> wt_cause (end_ctx c w) = Some x"
  by (simp_all add: end_ctx_def)

lemma firing_ok_new: "firing_ok newLeaseWatcher"
  by (simp add: firing_ok_def newLeaseWatcher_def)

text \<open>One step, event by event, as an elimination rule.\<close>

lemma lw_stepE:
  assumes "lw_step serial busy ev s = Some s'"
  obtains
    (call) i t k where "ev = (case k of None \<Rightarrow> CallStop i t | Some c \<Rightarrow> CallStart i c t)"
      "callers s i = Idle" "serial \<Longrightarrow> \<not> busy t i" "s' = set_caller i (Loading t k) s"
  | (none) i t k where "ev = LoadAndDelete i" "callers s i = Loading t k" "running s t = None"
      "s' = set_caller i (after_stop t k False) s"
  | (load) i t k h where "ev = LoadAndDelete i" "callers s i = Loading t k" "running s t = Some h"
      "s' = set_caller i (Cancelling t h k) (s\<lparr>running := (running s)(t := None)\<rparr>)"
  | (cancel) i t k h w where "ev = CancelHandle i" "callers s i = Cancelling t h k"
      "watches s h = Some w"
      "s' = set_caller i (Waiting t h k) (set_watch h (cancel_watch ErrLeaseWatcherStopped w) s)"
  | (await) i t k h w where "ev = AwaitDone i" "callers s i = Waiting t h k"
      "watches s h = Some w" "wt_pc w = Closed" "s' = set_caller i (after_stop t k True) s"
  | (store) i t c where "ev = StoreHandle i" "callers s i = Storing t c"
      "s' = set_caller i Idle
            (set_watch (next_handle s) \<lparr>wt_topic = t, wt_ctx = c,
                 wt_cause = (if ended s c then Some CtxEnded else None), wt_pc = Watching\<rparr>
              (s\<lparr>running := (running s)(t \<mapsto> next_handle s), next_handle := Suc (next_handle s)\<rparr>))"
  | (ret) i t b where "ev = Return i" "callers s i = Returned t b" "s' = set_caller i Idle s"
  | (endctx) c where "ev = EndCtx c"
      "s' = s\<lparr>ended := (ended s)(c := True), watches := (\<lambda>h. map_option (end_ctx c) (watches s h))\<rparr>"
  | (stopped) h w where "ev = Wake h" "watches s h = Some w" "wt_pc w = Watching"
      "wt_cause w = Some ErrLeaseWatcherStopped" "s' = set_watch h (w\<lparr>wt_pc := Exiting\<rparr>) s"
  | (fires) h w where "ev = Wake h" "watches s h = Some w" "wt_pc w = Watching"
      "wt_cause w = Some CtxEnded" "s' = set_watch h (w\<lparr>wt_pc := Firing\<rparr>) s"
  | (fire) h w where "ev = OnCancelDone h" "watches s h = Some w" "wt_pc w = Firing"
      "s' = set_watch h (w\<lparr>wt_pc := Exiting\<rparr>) (s\<lparr>fired := fired s @ [h]\<rparr>)"
  | (remove) h w where "ev = CompareAndDelete h" "watches s h = Some w" "wt_pc w = Exiting"
      "s' = set_watch h (w\<lparr>wt_pc := Removed\<rparr>)
                 (if running s (wt_topic w) = Some h
                  then s\<lparr>running := (running s)(wt_topic w := None)\<rparr> else s)"
  | (close) h w where "ev = CloseDone h" "watches s h = Some w" "wt_pc w = Removed"
      "s' = set_watch h (w\<lparr>wt_pc := Closed\<rparr>) s"
proof (cases ev)
  case (CallStop i t)
  with assms show ?thesis by (intro call [of i t None]) (auto split: if_splits)
next
  case (CallStart i c t)
  with assms show ?thesis by (intro call [of i t "Some c"]) (auto split: if_splits)
next
  case (LoadAndDelete i)
  with assms show ?thesis
    by (auto intro: none load split: caller_pc.splits option.splits)
next
  case (CancelHandle i)
  with assms show ?thesis by (auto intro: cancel split: caller_pc.splits option.splits)
next
  case (AwaitDone i)
  with assms show ?thesis by (auto intro: await split: caller_pc.splits option.splits if_splits)
next
  case (StoreHandle i)
  show ?thesis
  proof (cases "callers s i")
    case (Storing t c)
    with StoreHandle assms show ?thesis by (intro store [of i t c]) simp_all
  qed (use StoreHandle assms in simp_all)
next
  case (Return i)
  with assms show ?thesis by (auto intro: ret split: caller_pc.splits)
next
  case (EndCtx c)
  with assms show ?thesis by (intro endctx [of c]) simp_all
next
  case (Wake h)
  with assms show ?thesis
    by (auto intro: stopped fires split: option.splits if_splits cause.splits)
next
  case (OnCancelDone h)
  with assms show ?thesis by (auto intro: fire split: option.splits if_splits)
next
  case (CompareAndDelete h)
  show ?thesis
  proof (cases "watches s h")
    case (Some w)
    with CompareAndDelete assms show ?thesis
      by (intro remove [of h w]) (simp_all split: if_splits)
  qed (use CompareAndDelete assms in simp)
next
  case (CloseDone h)
  with assms show ?thesis by (auto intro: close split: option.splits if_splits)
qed

lemma firing_ok_step:
  assumes ok: "firing_ok s" and "lw_step serial busy ev s = Some s'"
  shows "firing_ok s'"
  using assms(2)
proof (cases rule: lw_stepE)
  case (store i t c)
  from ok have "next_handle s \<notin> set (fired s)" by (fastforce simp: firing_ok_def)
  with store ok show ?thesis by (auto simp: firing_ok_def)
next
  case (fire h w)
  with ok have "h \<notin> set (fired s)" by (fastforce simp: firing_ok_def)
  with fire ok show ?thesis by (fastforce simp: firing_ok_def)
next
  case (cancel i t k h w)
  with ok show ?thesis by (fastforce simp: firing_ok_def split: option.splits)
next
  case (endctx c)
  with ok show ?thesis by (fastforce simp: firing_ok_def split: option.splits)
qed (use ok in \<open>fastforce simp: firing_ok_def\<close>)+

section \<open>Callers of one topic that take turns\<close>

definition quiet_topic :: "leaseWatcher \<Rightarrow> topic \<Rightarrow> bool" where
  "quiet_topic s t \<longleftrightarrow> (\<forall>h w. watches s h = Some w \<and> wt_topic w = t \<longrightarrow> \<not> live_pc (wt_pc w))"

lemma quiet_topic_cong [simp]:
  "quiet_topic (s\<lparr>callers := f\<rparr>) t = quiet_topic s t"
  "quiet_topic (s\<lparr>running := r\<rparr>) t = quiet_topic s t"
  by (simp_all add: quiet_topic_def)

fun caller_ok :: "leaseWatcher \<Rightarrow> caller_pc \<Rightarrow> bool" where
  "caller_ok s (Cancelling t h k) \<longleftrightarrow>
     running s t = None \<and> (\<exists>w. watches s h = Some w \<and> wt_topic w = t)"
| "caller_ok s (Waiting t h k) \<longleftrightarrow>
     running s t = None \<and> (\<exists>w. watches s h = Some w \<and> wt_topic w = t)"
| "caller_ok s (Storing t c) \<longleftrightarrow> quiet_topic s t"
| "caller_ok s (Returned t b) \<longleftrightarrow> quiet_topic s t"
| "caller_ok s _ \<longleftrightarrow> True"

fun stops_handle :: "caller_pc \<Rightarrow> handle option" where
  "stops_handle (Cancelling t h k) = Some h"
| "stops_handle (Waiting t h k) = Some h"
| "stops_handle _ = None"

definition serial_callers :: "leaseWatcher \<Rightarrow> bool" where
  "serial_callers s \<longleftrightarrow>
     (\<forall>i j t. caller_topic (callers s i) = Some t \<and> caller_topic (callers s j) = Some t \<longrightarrow> i = j)"

definition running_live :: "leaseWatcher \<Rightarrow> bool" where
  "running_live s \<longleftrightarrow>
     (\<forall>t h. running s t = Some h \<longrightarrow>
        (\<exists>w. watches s h = Some w \<and> wt_topic w = t \<and> live_pc (wt_pc w)))"

definition live_owned :: "leaseWatcher \<Rightarrow> bool" where
  "live_owned s \<longleftrightarrow>
     (\<forall>h w. watches s h = Some w \<and> live_pc (wt_pc w) \<longrightarrow>
        running s (wt_topic w) = Some h \<or>
        (\<exists>i. caller_topic (callers s i) = Some (wt_topic w) \<and> stops_handle (callers s i) = Some h))"

definition callers_ok :: "leaseWatcher \<Rightarrow> bool" where
  "callers_ok s \<longleftrightarrow> (\<forall>i. caller_ok s (callers s i))"

definition fresh_ok :: "leaseWatcher \<Rightarrow> bool" where
  "fresh_ok s \<longleftrightarrow> (\<forall>h. next_handle s \<le> h \<longrightarrow> watches s h = None)"

definition serial_ok :: "leaseWatcher \<Rightarrow> bool" where
  "serial_ok s \<longleftrightarrow> serial_callers s \<and> running_live s \<and> live_owned s \<and> callers_ok s \<and> fresh_ok s"

lemmas serial_ok_defs = serial_ok_def serial_callers_def running_live_def live_owned_def
  callers_ok_def fresh_ok_def

lemma serial_ok_new: "serial_ok newLeaseWatcher"
  by (simp add: serial_ok_defs newLeaseWatcher_def)

lemma after_stop_simps [simp]:
  "caller_topic (after_stop t k b) = Some t"
  "stops_handle (after_stop t k b) = None"
  by (auto simp: after_stop_def split: option.split)

lemma caller_ok_after_stop [simp]: "caller_ok s (after_stop t k b) \<longleftrightarrow> quiet_topic s t"
  by (simp add: after_stop_def split: option.split)

lemma serial_callers_step:
  assumes "serial_callers s" and "lw_step True (other_busy s) ev s = Some s'"
  shows "serial_callers s'"
  using assms(2)
proof (cases rule: lw_stepE)
  case (call i t k)
  then have free: "caller_topic (callers s j) \<noteq> Some t" if "j \<noteq> i" for j
    using that by (auto simp: other_busy_def)
  show ?thesis
    unfolding serial_callers_def
  proof (intro allI impI)
    fix i' j' u
    assume "caller_topic (callers s' i') = Some u \<and> caller_topic (callers s' j') = Some u"
    with call free assms(1) show "i' = j'"
      by (cases "i' = i"; cases "j' = i") (auto simp: serial_callers_def)
  qed
next
  case (remove h w)
  with assms(1) show ?thesis by (auto simp: serial_callers_def)
qed (use assms(1) in \<open>fastforce simp: serial_callers_def\<close>)+

lemma fresh_ok_step:
  assumes "fresh_ok s" and "lw_step serial busy ev s = Some s'"
  shows "fresh_ok s'"
  using assms(2)
  by (cases rule: lw_stepE) (use assms(1) in \<open>fastforce simp: fresh_ok_def\<close>)+

lemma live_pc_simps [simp]:
  "live_pc Watching" "live_pc Firing" "live_pc Exiting" "\<not> live_pc Removed" "\<not> live_pc Closed"
  by (simp_all add: live_pc_def)

lemma running_live_step:
  assumes "serial_ok s" and "lw_step True (other_busy s) ev s = Some s'"
  shows "running_live s'"
proof -
  have rl: "\<exists>w. watches s h = Some w \<and> wt_topic w = t \<and> live_pc (wt_pc w)"
    if "running s t = Some h" for t h
    using that assms(1) by (simp add: serial_ok_def running_live_def)
  from assms(2) show ?thesis
  proof (cases rule: lw_stepE)
    case (cancel i t k h w)
    then show ?thesis by (fastforce simp: running_live_def dest: rl)
  next
    case (store i t c)
    then have "watches s (next_handle s) = None"
      using assms(1) by (simp add: serial_ok_def fresh_ok_def)
    with store show ?thesis by (fastforce simp: running_live_def dest: rl)
  next
    case (endctx c)
    then show ?thesis by (fastforce simp: running_live_def dest: rl)
  next
    case (remove h w)
    show ?thesis
      unfolding running_live_def
    proof (intro allI impI)
      fix t g
      assume g: "running s' t = Some g"
      with remove have run: "running s t = Some g" by (auto split: if_splits)
      from rl [OF run] obtain w' where w': "watches s g = Some w'" "wt_topic w' = t" "live_pc (wt_pc w')"
        by blast
      have "g \<noteq> h" using g run remove w' by (auto split: if_splits)
      with remove w' show "\<exists>w. watches s' g = Some w \<and> wt_topic w = t \<and> live_pc (wt_pc w)"
        by (auto split: if_splits)
    qed
  next
    case (close h w)
    then show ?thesis by (fastforce simp: running_live_def dest: rl)
  qed (fastforce simp: running_live_def dest: rl)+
qed

lemma live_owned_step:
  assumes "serial_ok s" and "lw_step True (other_busy s) ev s = Some s'"
  shows "live_owned s'"
proof -
  have lo: "running s (wt_topic w) = Some h \<or>
        (\<exists>i. caller_topic (callers s i) = Some (wt_topic w) \<and> stops_handle (callers s i) = Some h)"
    if "watches s h = Some w" "live_pc (wt_pc w)" for h w
    using that assms(1) by (auto simp: serial_ok_def live_owned_def)
  have rl: "watches s h = Some w \<Longrightarrow> running s t = Some h \<Longrightarrow> wt_topic w = t" for h w t
    using assms(1) by (fastforce simp: serial_ok_def running_live_def)
  have keep: "live_owned s'"
    if "\<And>h w'. watches s' h = Some w' \<Longrightarrow> live_pc (wt_pc w') \<Longrightarrow>
          \<exists>w. watches s h = Some w \<and> wt_topic w = wt_topic w' \<and> live_pc (wt_pc w)"
      and "running s' = running s"
      and "\<And>i h. stops_handle (callers s i) = Some h \<Longrightarrow>
          (\<exists>w. watches s h = Some w \<and> \<not> live_pc (wt_pc w)) \<or>
          stops_handle (callers s' i) = Some h \<and> caller_topic (callers s' i) = caller_topic (callers s i)"
    unfolding live_owned_def
  proof (intro allI impI)
    fix h w'
    assume "watches s' h = Some w' \<and> live_pc (wt_pc w')"
    with that(1) obtain w where w: "watches s h = Some w" "wt_topic w = wt_topic w'" "live_pc (wt_pc w)"
      by blast
    show "running s' (wt_topic w') = Some h \<or>
        (\<exists>i. caller_topic (callers s' i) = Some (wt_topic w') \<and> stops_handle (callers s' i) = Some h)"
      using lo [OF w(1,3)] that(2) that(3) w by (metis option.inject)
  qed
  from assms(2) show ?thesis
  proof (cases rule: lw_stepE)
    case (load i t k h)
    show ?thesis
      unfolding live_owned_def
    proof (intro allI impI)
      fix g w
      assume "watches s' g = Some w \<and> live_pc (wt_pc w)"
      with load have w: "watches s g = Some w" "live_pc (wt_pc w)" by auto
      from lo [OF w] consider "running s (wt_topic w) = Some g"
        | j where "caller_topic (callers s j) = Some (wt_topic w)" "stops_handle (callers s j) = Some g"
        by blast
      then show "running s' (wt_topic w) = Some g \<or>
        (\<exists>i. caller_topic (callers s' i) = Some (wt_topic w) \<and> stops_handle (callers s' i) = Some g)"
      proof cases
        case 1
        with load show ?thesis by auto
      next
        case 2
        with load(2) have "j \<noteq> i" by auto
        with 2 load(4) show ?thesis by auto
      qed
    qed
  next
    case (store i t c)
    then have none: "\<not> live_pc (wt_pc w)" if "watches s h = Some w" "wt_topic w = t" for h w
      using that assms(1) by (auto simp: serial_ok_def callers_ok_def quiet_topic_def
          dest!: spec [of _ i])
    show ?thesis
      unfolding live_owned_def
    proof (intro allI impI)
      fix g w
      assume g: "watches s' g = Some w \<and> live_pc (wt_pc w)"
      show "running s' (wt_topic w) = Some g \<or>
        (\<exists>i. caller_topic (callers s' i) = Some (wt_topic w) \<and> stops_handle (callers s' i) = Some g)"
      proof (cases "g = next_handle s")
        case True
        with g store show ?thesis by auto
      next
        case False
        with g store have w: "watches s g = Some w" "live_pc (wt_pc w)" by auto
        with none have nt: "wt_topic w \<noteq> t" by blast
        from lo [OF w] consider "running s (wt_topic w) = Some g"
          | j where "caller_topic (callers s j) = Some (wt_topic w)" "stops_handle (callers s j) = Some g"
          by blast
        then show ?thesis
        proof cases
          case 1
          with store nt show ?thesis by auto
        next
          case 2
          with store(2) have "j \<noteq> i" by auto
          with 2 store(3) show ?thesis by auto
        qed
      qed
    qed
  next
    case (remove h w)
    show ?thesis
      unfolding live_owned_def
    proof (intro allI impI)
      fix g w'
      assume g: "watches s' g = Some w' \<and> live_pc (wt_pc w')"
      with remove have "g \<noteq> h" by (auto split: if_splits)
      with g remove have w: "watches s g = Some w'" "live_pc (wt_pc w')" by (auto split: if_splits)
      from lo [OF w] \<open>g \<noteq> h\<close> remove
      show "running s' (wt_topic w') = Some g \<or>
        (\<exists>i. caller_topic (callers s' i) = Some (wt_topic w') \<and> stops_handle (callers s' i) = Some g)"
        by (auto split: if_splits)
    qed
  qed (rule keep; fastforce split: if_splits)+
qed

lemma caller_ok_mono:
  assumes ok: "caller_ok s p" and t: "caller_topic p = Some t"
    and run: "running s t = None \<Longrightarrow> running s' t = None"
    and up: "\<And>h w. watches s h = Some w \<Longrightarrow> wt_topic w = t \<Longrightarrow>
           \<exists>w'. watches s' h = Some w' \<and> wt_topic w' = t"
    and down: "\<And>h w'. watches s' h = Some w' \<Longrightarrow> wt_topic w' = t \<Longrightarrow> live_pc (wt_pc w') \<Longrightarrow>
           \<exists>w. watches s h = Some w \<and> wt_topic w = t \<and> live_pc (wt_pc w)"
  shows "caller_ok s' p"
proof -
  have q: "quiet_topic s t \<Longrightarrow> quiet_topic s' t"
    unfolding quiet_topic_def using down by blast
  from ok t run up q show ?thesis by (cases p) auto
qed

lemma live_owned_cases:
  assumes ok: "serial_ok s" and w: "watches s h = Some w" "live_pc (wt_pc w)"
    and i: "caller_topic (callers s i) = Some (wt_topic w)" and r: "running s (wt_topic w) = None"
  shows "stops_handle (callers s i) = Some h"
proof -
  have lo: "live_owned s" and sc: "serial_callers s" using ok by (simp_all add: serial_ok_def)
  from lo w have "running s (wt_topic w) = Some h \<or>
      (\<exists>i. caller_topic (callers s i) = Some (wt_topic w) \<and> stops_handle (callers s i) = Some h)"
    unfolding live_owned_def by blast
  then obtain j where j: "caller_topic (callers s j) = Some (wt_topic w)"
      "stops_handle (callers s j) = Some h"
    using r by auto
  from sc i j(1) have "i = j" unfolding serial_callers_def by blast
  with j(2) show ?thesis by simp
qed

lemma callers_ok_step:
  assumes ok: "serial_ok s" and step: "lw_step True (other_busy s) ev s = Some s'"
  shows "callers_ok s'"
proof -
  have co: "caller_ok s (callers s i)" for i
    using ok by (simp add: serial_ok_def callers_ok_def)
  have ser: "caller_topic (callers s i) = Some t \<Longrightarrow> caller_topic (callers s j) = Some t \<Longrightarrow> i = j" for i j t
    using ok by (simp add: serial_ok_def serial_callers_def)
  have rl: "running s t = Some h \<Longrightarrow>
      \<exists>w. watches s h = Some w \<and> wt_topic w = t \<and> live_pc (wt_pc w)" for t h
    using ok by (simp add: serial_ok_def running_live_def)
  have fresh: "watches s (next_handle s) = None"
    using ok by (simp add: serial_ok_def fresh_ok_def)
  have idle: "caller_ok s'' p" if "caller_topic p = None" for s'' p
    using that by (cases p) simp_all
  have mono: "caller_ok s'' p" if "caller_ok s p"
    "\<And>t. caller_topic p = Some t \<Longrightarrow> running s t = None \<Longrightarrow> running s'' t = None"
    "\<And>t h w. caller_topic p = Some t \<Longrightarrow> watches s h = Some w \<Longrightarrow> wt_topic w = t \<Longrightarrow>
        \<exists>w'. watches s'' h = Some w' \<and> wt_topic w' = t"
    "\<And>t h w'. caller_topic p = Some t \<Longrightarrow> watches s'' h = Some w' \<Longrightarrow> wt_topic w' = t \<Longrightarrow>
        live_pc (wt_pc w') \<Longrightarrow> \<exists>w. watches s h = Some w \<and> wt_topic w = t \<and> live_pc (wt_pc w)" for p s''
  proof (cases "caller_topic p")
    case None
    then show ?thesis by (rule idle)
  next
    case (Some t)
    show ?thesis by (rule caller_ok_mono [OF that(1) Some]) (use that Some in blast)+
  qed
  have "caller_ok s' (callers s' i)" for i
    using step
  proof (cases rule: lw_stepE)
    case (call j t k)
    then show ?thesis
      by (cases "i = j") (auto intro!: mono [OF co])
  next
    case (none j t k)
    have "quiet_topic s t"
      using live_owned_cases [OF ok, of _ _ j] none by (auto simp: quiet_topic_def)
    with none show ?thesis
      by (cases "i = j") (auto intro!: mono [OF co])
  next
    case (load j t k h)
    have "caller_topic (callers s i) \<noteq> Some t" if "i \<noteq> j"
      using that load ser [of i t j] by auto
    with load rl [of t h] show ?thesis
      by (cases "i = j") (auto intro!: mono [OF co])
  next
    case (cancel j t k h w)
    have j: "caller_ok s' (Waiting t h k)"
      using co [of j] cancel by (auto)
    with cancel show ?thesis
      by (cases "i = j") (auto intro!: mono [OF co] split: if_splits)
  next
    case (await j t k h w)
    have rn: "running s t = None" using co [of j] await by (auto)
    have "quiet_topic s t"
      using live_owned_cases [OF ok, of _ _ j] await rn by (fastforce simp: quiet_topic_def)
    with await show ?thesis
      by (cases "i = j") (auto intro!: mono [OF co])
  next
    case (store j t c)
    have "caller_topic (callers s i) \<noteq> Some t" if "i \<noteq> j"
      using that store ser [of i t j] by auto
    with store fresh show ?thesis
      by (cases "i = j") (auto intro!: mono [OF co] split: if_splits)
  next
    case (ret j t b)
    then show ?thesis by (cases "i = j") (auto intro!: mono [OF co])
  qed (auto intro!: mono [OF co] split: if_splits)
  then show ?thesis by (simp add: callers_ok_def)
qed

lemma serial_ok_step:
  assumes "serial_ok s" and "lw_step True (other_busy s) ev s = Some s'"
  shows "serial_ok s'"
  using assms running_live_step [OF assms] live_owned_step [OF assms] callers_ok_step [OF assms]
    serial_callers_step [OF _ assms(2)] fresh_ok_step [OF _ assms(2)]
  by (simp add: serial_ok_def)

lemma serial_ok_reachable: "lw_reachable True s \<Longrightarrow> serial_ok s"
  by (induction rule: lw_reachable.induct) (auto intro: serial_ok_new serial_ok_step)

lemma firing_ok_reachable: "lw_reachable serial s \<Longrightarrow> firing_ok s"
  by (induction rule: lw_reachable.induct) (auto intro: firing_ok_new firing_ok_step)


text \<open>What a watch's cause says about its context, and that a waiting caller has cancelled it.\<close>

definition cause_ended :: "leaseWatcher \<Rightarrow> bool" where
  "cause_ended s \<longleftrightarrow> (\<forall>h w. watches s h = Some w \<longrightarrow>
     (wt_cause w = Some CtxEnded \<longrightarrow> ended s (wt_ctx w)) \<and>
     (ended s (wt_ctx w) \<longrightarrow> wt_cause w \<noteq> None))"

definition waiting_cancelled :: "leaseWatcher \<Rightarrow> bool" where
  "waiting_cancelled s \<longleftrightarrow> (\<forall>i t h k. callers s i = Waiting t h k \<longrightarrow>
     (\<exists>w. watches s h = Some w \<and> wt_cause w \<noteq> None))"

lemma after_stop_not_Waiting [simp]:
  "after_stop t k b \<noteq> Waiting t' h' k'" "Waiting t' h' k' \<noteq> after_stop t k b"
  by (simp_all add: after_stop_def split: option.split)

lemma cause_ended_step:
  assumes ok: "cause_ended s" and step: "lw_step serial busy ev s = Some s'"
  shows "cause_ended s'"
proof -
  have c: "watches s h = Some w \<Longrightarrow> wt_cause w = Some CtxEnded \<Longrightarrow> ended s (wt_ctx w)"
    "watches s h = Some w \<Longrightarrow> ended s (wt_ctx w) \<Longrightarrow> wt_cause w \<noteq> None" for h w
    using ok unfolding cause_ended_def by blast+
  from step show ?thesis
  proof (cases rule: lw_stepE)
    case (cancel i t k h w)
    with c [of h w] c show ?thesis by (simp add: cause_ended_def split: option.splits)
  next
    case (endctx e)
    show ?thesis
      unfolding cause_ended_def
    proof (intro allI impI)
      fix h w'
      assume "watches s' h = Some w'"
      with endctx obtain w where w: "watches s h = Some w" "w' = end_ctx e w" by auto
      show "(wt_cause w' = Some CtxEnded \<longrightarrow> ended s' (wt_ctx w')) \<and>
          (ended s' (wt_ctx w') \<longrightarrow> wt_cause w' \<noteq> None)"
        using c [OF w(1)] w(2) endctx(2) by (cases "wt_cause w") (auto simp: end_ctx_def)
    qed
  next
    case (remove h w)
    with c show ?thesis by (simp add: cause_ended_def)
  qed (use c in \<open>simp_all add: cause_ended_def\<close>)
qed

lemma waiting_cancelled_step:
  assumes ok: "waiting_cancelled s" "fresh_ok s" and step: "lw_step serial busy ev s = Some s'"
  shows "waiting_cancelled s'"
proof -
  have c: "callers s i = Waiting t h k \<Longrightarrow> \<exists>w. watches s h = Some w \<and> wt_cause w \<noteq> None" for i t h k
    using ok(1) unfolding waiting_cancelled_def by blast
  have keep: "waiting_cancelled s'"
    if "\<And>i t h k. callers s' i = Waiting t h k \<Longrightarrow> callers s i = Waiting t h k"
      "\<And>h w. watches s h = Some w \<Longrightarrow> wt_cause w \<noteq> None \<Longrightarrow>
        \<exists>w'. watches s' h = Some w' \<and> wt_cause w' \<noteq> None"
    unfolding waiting_cancelled_def using c that by meson
  from step show ?thesis
  proof (cases rule: lw_stepE)
    case (call i t k)
    then show ?thesis by (intro keep) (auto split: if_splits)
  next
    case (none i t k)
    then show ?thesis by (intro keep) (auto split: if_splits)
  next
    case (cancel i t k h w)
    then show ?thesis
      using c by (fastforce simp: waiting_cancelled_def split: option.splits)
  next
    case (store i t e)
    with ok(2) have "watches s (next_handle s) = None" by (simp add: fresh_ok_def)
    with store show ?thesis by (intro keep) (auto split: if_splits)
  next
    case (endctx e)
    then show ?thesis by (intro keep) (auto simp: end_ctx_def split: option.splits)
  qed (rule keep; auto split: if_splits)+
qed

lemma causes_reachable:
  "lw_reachable serial s \<Longrightarrow> cause_ended s \<and> waiting_cancelled s \<and> fresh_ok s"
proof (induction rule: lw_reachable.induct)
  case start
  show ?case
    by (simp add: cause_ended_def waiting_cancelled_def newLeaseWatcher_def fresh_ok_def)
next
  case (step s ev s')
  then show ?case
    using cause_ended_step waiting_cancelled_step fresh_ok_step by blast
qed

lemma lw_run_reachable:
  "lw_run serial evs s = Some s' \<Longrightarrow> lw_reachable serial s \<Longrightarrow> lw_reachable serial s'"
  by (induction evs arbitrary: s) (auto split: option.splits intro: lw_reachable.step)

lemma live_watch_unique:
  assumes ok: "serial_ok s"
    and w: "watches s h = Some w" "live_pc (wt_pc w)"
    and w': "watches s g = Some w'" "live_pc (wt_pc w')" "wt_topic w' = wt_topic w"
  shows "g = h"
proof -
  let ?t = "wt_topic w"
  have owned: "running s ?t = Some x \<or>
      (\<exists>i. caller_topic (callers s i) = Some ?t \<and> stops_handle (callers s i) = Some x)"
    if "watches s x = Some v" "live_pc (wt_pc v)" "wt_topic v = ?t" for x v
    using ok that unfolding serial_ok_def live_owned_def by metis
  have stopping: "running s ?t = None"
    if "caller_topic (callers s i) = Some ?t" "stops_handle (callers s i) = Some x" for i x
  proof -
    from ok have "caller_ok s (callers s i)" by (simp add: serial_ok_def callers_ok_def)
    with that show ?thesis by (cases "callers s i") auto
  qed
  have same: "i = j" if "caller_topic (callers s i) = Some ?t" "caller_topic (callers s j) = Some ?t" for i j
    using ok that unfolding serial_ok_def serial_callers_def by blast
  show ?thesis
    using owned [OF w] owned [OF w'] stopping same by (metis option.inject option.distinct(1))
qed

text \<open>A topic whose watchers are all past firing, with nobody starting a new one.\<close>

fun starting :: "topic \<Rightarrow> caller_pc \<Rightarrow> bool" where
  "starting t (Loading u k) \<longleftrightarrow> u = t \<and> k \<noteq> None"
| "starting t (Cancelling u h k) \<longleftrightarrow> u = t \<and> k \<noteq> None"
| "starting t (Waiting u h k) \<longleftrightarrow> u = t \<and> k \<noteq> None"
| "starting t (Storing u c) \<longleftrightarrow> u = t"
| "starting t _ \<longleftrightarrow> False"

lemma starting_after_stop [simp]: "starting t (after_stop u k b) \<longleftrightarrow> u = t \<and> k \<noteq> None"
  by (simp add: after_stop_def split: option.split)

definition silent :: "topic \<Rightarrow> handle list \<Rightarrow> leaseWatcher \<Rightarrow> bool" where
  "silent t f0 s \<longleftrightarrow> quiet_topic s t \<and> (\<forall>i. \<not> starting t (callers s i)) \<and> fresh_ok s \<and>
     (\<forall>h w. h \<in> set (fired s) \<and> watches s h = Some w \<and> wt_topic w = t \<longrightarrow> h \<in> set f0)"

fun is_CallStart :: "topic \<Rightarrow> lw_event \<Rightarrow> bool" where
  "is_CallStart t (CallStart i c u) \<longleftrightarrow> u = t"
| "is_CallStart t _ \<longleftrightarrow> False"

lemma is_CallStart_call:
  "is_CallStart t (case k of None \<Rightarrow> CallStop i u | Some c \<Rightarrow> CallStart i c u) \<longleftrightarrow> u = t \<and> k \<noteq> None"
  by (simp split: option.split)

lemma silent_step:
  assumes si: "silent t f0 s" and step: "lw_step serial busy ev s = Some s'"
    and ev: "\<not> is_CallStart t ev" and fo: "firing_ok s"
  shows "silent t f0 s'"
proof -
  have f: "fresh_ok s'" using fresh_ok_step [OF _ step] si by (simp add: silent_def)
  have st: "\<not> starting t (callers s' i)" for i
    using step
  proof (cases rule: lw_stepE)
    case (call j u k)
    with ev si show ?thesis by (auto simp: is_CallStart_call silent_def)
  next
    case (none j u k)
    with si show ?thesis by (auto simp: silent_def dest!: spec [of _ j])
  next
    case (load j u k h)
    with si show ?thesis by (auto simp: silent_def dest!: spec [of _ j])
  next
    case (cancel j u k h w)
    with si show ?thesis by (auto simp: silent_def dest!: spec [of _ j])
  next
    case (await j u k h w)
    with si show ?thesis by (auto simp: silent_def dest!: spec [of _ j])
  next
    case (remove h w)
    with si show ?thesis by (auto simp: silent_def)
  qed (use si in \<open>auto simp: silent_def\<close>)
  have ns: "callers s j \<noteq> Storing t c" for j c
    using si by (auto simp: silent_def dest!: spec [of _ j])
  have down: "\<exists>w. watches s h = Some w \<and> wt_topic w = t \<and>
        (live_pc (wt_pc w') \<longrightarrow> live_pc (wt_pc w)) \<and> (h \<in> set (fired s') \<longrightarrow> h \<in> set (fired s) \<or> live_pc (wt_pc w))"
    if "watches s' h = Some w'" "wt_topic w' = t" for h w'
    using step that
  proof (cases rule: lw_stepE)
    case (store j u c)
    with that ns show ?thesis by (auto split: if_splits)
  next
    case (remove g w)
    with that show ?thesis by (auto split: if_splits)
  qed (auto split: if_splits)
  have nl: "watches s h = Some w \<Longrightarrow> wt_topic w = t \<Longrightarrow> \<not> live_pc (wt_pc w)" for h w
    using si by (auto simp: silent_def quiet_topic_def)
  have q: "quiet_topic s' t"
    unfolding quiet_topic_def using down nl by blast
  have "h \<in> set f0" if "h \<in> set (fired s')" "watches s' h = Some w'" "wt_topic w' = t" for h w'
    using down [OF that(2,3)] nl that(1) si unfolding silent_def by blast
  with f st q show ?thesis unfolding silent_def by blast
qed

lemma silent_run:
  assumes "lw_run serial evs s = Some s'" and "silent t f0 s" and "\<forall>ev \<in> set evs. \<not> is_CallStart t ev"
    and "lw_reachable serial s"
  shows "silent t f0 s'"
  using assms
proof (induction evs arbitrary: s)
  case (Cons ev evs)
  then obtain s1 where s1: "lw_step serial (other_busy s) ev s = Some s1" "lw_run serial evs s1 = Some s'"
    by (auto split: option.splits)
  show ?case
    using Cons.IH [OF s1(2)] silent_step [OF Cons.prems(2) s1(1)] Cons.prems(3,4)
      firing_ok_reachable lw_reachable.step [OF Cons.prems(4) s1(1)] by simp
qed simp

section \<open>Properties\<close>

text \<open>However the goroutines interleave, and whether or not callers take turns, every
  watcher calls \<open>onCancel\<close> at most once, and only when its context ended by itself before any
  \<open>Stop\<close> cancelled it.\<close>

theorem onCancel_at_most_once:
  assumes "lw_reachable serial s"
  shows "distinct (fired s) \<and> (\<forall>h \<in> set (fired s).
      \<exists>w. watches s h = Some w \<and> wt_cause w = Some CtxEnded \<and> ended s (wt_ctx w))"
  using firing_ok_reachable [OF assms] causes_reachable [OF assms]
  unfolding firing_ok_def cause_ended_def by blast

text \<open>While the callers of each topic take turns, at most one watcher goroutine of a topic is
  between its start and its removal from the map: a restart never runs two watchers for it.\<close>

theorem one_watcher_per_topic:
  assumes "lw_reachable True s"
    and "watches s h = Some w" and "live_pc (wt_pc w)"
    and "watches s g = Some w'" and "live_pc (wt_pc w')"
    and "wt_topic w' = wt_topic w"
  shows "g = h"
  by (rule live_watch_unique [OF serial_ok_reachable [OF assms(1)] assms(2-6)])



text \<open>\<open>Stop\<close> never blocks for ever: from any reachable state in which it waits, steps of
  the watcher's own goroutine alone bring it to its return.\<close>

theorem Stop_completes:
  assumes "lw_reachable serial s" and "callers s i = Waiting t h k"
  shows "\<exists>evs s'. set evs \<subseteq> {Wake h, OnCancelDone h, CompareAndDelete h, CloseDone h, AwaitDone i} \<and>
    lw_run serial evs s = Some s' \<and> callers s' i = after_stop t k True"
proof -
  from causes_reachable [OF assms(1)] assms(2)
  obtain w where w: "watches s h = Some w" "wt_cause w \<noteq> None"
    unfolding waiting_cancelled_def by blast
  have finish: "\<exists>s'. lw_run serial [AwaitDone i] s0 = Some s' \<and> callers s' i = after_stop t k True"
    if "watches s0 h = Some w0" "wt_pc w0 = Closed" "callers s0 i = Waiting t h k" for s0 w0
    using that by simp
  show ?thesis
  proof (cases "wt_pc w")
    case Watching
    show ?thesis
    proof (cases "wt_cause w = Some CtxEnded")
      case True
      with Watching w assms(2) show ?thesis
        by (intro exI [of _ "[Wake h, OnCancelDone h, CompareAndDelete h, CloseDone h, AwaitDone i]"]) simp
    next
      case False
      then have "wt_cause w = Some ErrLeaseWatcherStopped"
        using w(2) by (metis cause.exhaust option.exhaust)
      with Watching w assms(2) show ?thesis
        by (intro exI [of _ "[Wake h, CompareAndDelete h, CloseDone h, AwaitDone i]"]) simp
    qed
  next
    case Firing
    with w assms(2) show ?thesis
      by (intro exI [of _ "[OnCancelDone h, CompareAndDelete h, CloseDone h, AwaitDone i]"]) simp
  next
    case Exiting
    with w assms(2) show ?thesis
      by (intro exI [of _ "[CompareAndDelete h, CloseDone h, AwaitDone i]"]) simp
  next
    case Removed
    with w assms(2) show ?thesis by (intro exI [of _ "[CloseDone h, AwaitDone i]"]) simp
  next
    case Closed
    with w assms(2) show ?thesis by (intro exI [of _ "[AwaitDone i]"]) simp
  qed
qed

text \<open>Without that discipline the guarantee is lost: two callers that start the same topic
  at the same time both find no watcher and leave two live ones, of which the map knows only the
  second, so no later \<open>Stop\<close> can reach the first.\<close>

theorem concurrent_Starts_leave_two_watchers:
  shows "\<exists>s w w'. lw_run False
      [CallStart 0 0 ''t'', CallStart 1 1 ''t'', LoadAndDelete 0, LoadAndDelete 1,
       StoreHandle 0, StoreHandle 1] newLeaseWatcher = Some s \<and>
    watches s 0 = Some w \<and> watches s 1 = Some w' \<and> wt_topic w = ''t'' \<and> wt_topic w' = ''t'' \<and>
    wt_pc w = Watching \<and> wt_pc w' = Watching \<and> running s ''t'' = Some 1"
  by (simp add: newLeaseWatcher_def after_stop_def)

section \<open>What a caller sees of it\<close>

text \<open>
  The watcher as \<open>AcquireTopic\<close> and \<open>ReleaseTopic\<close> use it, one call at a time: the
  topics that have a running watcher, with the context it waits for.
\<close>

type_synonym watched = "topic \<Rightarrow> ctx option"

definition watcher_Stop :: "topic \<Rightarrow> watched \<Rightarrow> bool \<times> watched" where
  "watcher_Stop t w = (w t \<noteq> None, w(t := None))"

definition watcher_Start :: "ctx \<Rightarrow> topic \<Rightarrow> watched \<Rightarrow> watched" where
  "watcher_Start c t w = (snd (watcher_Stop t w))(t \<mapsto> c)"

definition watched_of :: "leaseWatcher \<Rightarrow> watched" where
  "watched_of s = (\<lambda>t. case running s t of None \<Rightarrow> None | Some h \<Rightarrow> map_option wt_ctx (watches s h))"

text \<open>From an idle state, a run of one caller and of the goroutine it stops does the call.\<close>

definition stopped_state :: "topic \<Rightarrow> leaseWatcher \<Rightarrow> leaseWatcher \<Rightarrow> bool" where
  "stopped_state t s s' \<longleftrightarrow> running s' = (running s)(t := None) \<and> next_handle s' = next_handle s \<and>
     (\<forall>u h. running s u = Some h \<and> u \<noteq> t \<longrightarrow> watches s' h = watches s h)"

lemma stopped_state_watched:
  "stopped_state t s s' \<Longrightarrow> watched_of s' = snd (watcher_Stop t (watched_of s))"
  by (auto simp: stopped_state_def watched_of_def watcher_Stop_def fun_eq_iff split: option.split)

lemma Stop_part:
  assumes ok: "serial_ok s" and l: "callers s i = Loading t k"
  shows "\<exists>evs s'. lw_run serial evs s = Some s' \<and> stopped_state t s s' \<and>
     callers s' = (callers s)(i := after_stop t k (running s t \<noteq> None))"
proof (cases "running s t")
  case None
  with l show ?thesis
    by (intro exI [of _ "[LoadAndDelete i]"]) (auto simp: stopped_state_def)
next
  case (Some h)
  with ok obtain w where w: "watches s h = Some w" "wt_topic w = t" "live_pc (wt_pc w)"
    unfolding serial_ok_def running_live_def by blast
  have inj: "u = t" if "running s u = Some h" for u
    using ok that w(1,2) unfolding serial_ok_def running_live_def by fastforce
  have other: "g \<noteq> h" if "running s u = Some g" "u \<noteq> t" for u g
    using inj that by auto
  let ?P = "\<lambda>evs. \<exists>s'. lw_run serial evs s = Some s' \<and> stopped_state t s s' \<and>
     callers s' = (callers s)(i := after_stop t k (running s t \<noteq> None))"
  have "\<exists>evs. ?P evs"
  proof (cases "wt_pc w")
    case Watching
    show ?thesis
    proof (cases "wt_cause w = Some CtxEnded")
      case True
      with Watching Some w l show ?thesis
        by (intro exI [of _ "[LoadAndDelete i, CancelHandle i, Wake h, OnCancelDone h,
            CompareAndDelete h, CloseDone h, AwaitDone i]"])
          (auto simp: stopped_state_def dest: other)
    next
      case False
      then have "wt_cause w = None \<or> wt_cause w = Some ErrLeaseWatcherStopped"
        by (metis cause.exhaust option.exhaust)
      with Watching Some w l show ?thesis
        by (intro exI [of _ "[LoadAndDelete i, CancelHandle i, Wake h,
            CompareAndDelete h, CloseDone h, AwaitDone i]"])
          (auto simp: stopped_state_def dest: other)
    qed
  next
    case Firing
    with Some w l show ?thesis
      by (intro exI [of _ "[LoadAndDelete i, CancelHandle i, OnCancelDone h,
          CompareAndDelete h, CloseDone h, AwaitDone i]"])
        (auto simp: stopped_state_def dest: other)
  next
    case Exiting
    with Some w l show ?thesis
      by (intro exI [of _ "[LoadAndDelete i, CancelHandle i,
          CompareAndDelete h, CloseDone h, AwaitDone i]"])
        (auto simp: stopped_state_def dest: other)
  qed (use w(3) in auto)
  then show ?thesis by blast
qed

lemma lw_run_append:
  "lw_run serial evs s = Some s1 \<Longrightarrow> lw_run serial evs' s1 = r \<Longrightarrow> lw_run serial (evs @ evs') s = r"
  by (induction evs arbitrary: s) (auto split: option.splits)

lemma watched_of_None_iff:
  assumes "serial_ok s"
  shows "watched_of s t \<noteq> None \<longleftrightarrow> running s t \<noteq> None"
  using assms unfolding serial_ok_def running_live_def
  by (fastforce simp: watched_of_def split: option.splits)

lemma idle_not_busy: "callers s = (\<lambda>_. Idle) \<Longrightarrow> \<not> other_busy s t i"
  by (simp add: other_busy_def)

text \<open>A call from a quiescent state: its first step, and the part of it that stops the old watcher.\<close>

lemma call_starts:
  assumes "callers s = (\<lambda>_. Idle)"
  shows "lw_step True (other_busy s) (case k of None \<Rightarrow> CallStop i t | Some c \<Rightarrow> CallStart i c t) s =
    Some (set_caller i (Loading t k) s)"
  using assms idle_not_busy [OF assms] by (simp split: option.split)

lemma call_stops:
  assumes "serial_ok s" and "callers s = (\<lambda>_. Idle)"
  obtains evs s' where "lw_run True evs (set_caller i (Loading t k) s) = Some s'" "stopped_state t s s'"
    "callers s' = (callers s)(i := after_stop t k (running s t \<noteq> None))"
proof -
  have ok1: "serial_ok (set_caller i (Loading t k) s)"
    by (rule serial_ok_step [OF assms(1) call_starts [OF assms(2)]])
  have "callers (set_caller i (Loading t k) s) i = Loading t k" by simp
  from Stop_part [OF ok1 this, of True] that show thesis by (auto simp: stopped_state_def)
qed

lemma Stop_refines:
  assumes "serial_ok s" and "callers s = (\<lambda>_. Idle)"
  shows "\<exists>evs s'. lw_run True (CallStop i t # evs) s = Some s' \<and>
    callers s' i = Returned t (fst (watcher_Stop t (watched_of s))) \<and>
    watched_of s' = snd (watcher_Stop t (watched_of s))"
proof -
  obtain evs s' where r: "lw_run True evs (set_caller i (Loading t None) s) = Some s'"
      "stopped_state t s s'" "callers s' = (callers s)(i := after_stop t None (running s t \<noteq> None))"
    by (rule call_stops [OF assms])
  then show ?thesis
    using call_starts [OF assms(2), where k = None] stopped_state_watched [OF r(2)] watched_of_None_iff [OF assms(1), of t]
    by (intro exI [of _ evs] exI [of _ s']) (simp add: after_stop_def watcher_Stop_def)
qed

lemma Start_refines:
  assumes "serial_ok s" and "callers s = (\<lambda>_. Idle)"
  shows "\<exists>evs s'. lw_run True (CallStart i c t # evs) s = Some s' \<and>
    callers s' = (\<lambda>_. Idle) \<and> watched_of s' = watcher_Start c t (watched_of s)"
proof -
  obtain evs s1 where q: "lw_run True evs (set_caller i (Loading t (Some c)) s) = Some s1"
      "stopped_state t s s1" "callers s1 = (callers s)(i := after_stop t (Some c) (running s t \<noteq> None))"
    by (rule call_stops [OF assms])
  have fresh: "h \<noteq> next_handle s" if "running s u = Some h" for u h
    using assms(1) that unfolding serial_ok_def running_live_def fresh_ok_def by fastforce
  obtain s2 where s2: "lw_run True [StoreHandle i] s1 = Some s2" "callers s2 = (\<lambda>_. Idle)"
      "running s2 = (running s1)(t \<mapsto> next_handle s1)"
      "map_option wt_ctx (watches s2 (next_handle s1)) = Some c"
      "\<And>h. h \<noteq> next_handle s1 \<Longrightarrow> watches s2 h = watches s1 h"
    using q(3) assms(2) by (simp add: after_stop_def fun_upd_idem)
  have "watched_of s2 = watcher_Start c t (watched_of s)"
    using s2(3,4,5) q(2) fresh
    by (auto simp: watched_of_def watcher_Start_def watcher_Stop_def stopped_state_def fun_eq_iff
        split: option.split)
  then show ?thesis
    using lw_run_append [OF q(1) s2(1)] call_starts [OF assms(2), where k = "Some c"] s2(2)
    by (intro exI [of _ "evs @ [StoreHandle i]"] exI [of _ s2]) simp
qed


section \<open>Witnesses\<close>

lemma lw_run_new: "lw_run serial evs newLeaseWatcher = Some s \<Longrightarrow> lw_reachable serial s"
  by (rule lw_run_reachable) (auto intro: lw_reachable.start)

lemmas lw_eval = newLeaseWatcher_def after_stop_def other_busy_def cancel_watch_def end_ctx_def

text \<open>A watcher whose context ends; one that is restarted; one that is stopped while it fires;
  and one that is being stopped.\<close>

definition fires_events :: "lw_event list" where
  "fires_events = [CallStart 0 0 ''t'', LoadAndDelete 0, StoreHandle 0, EndCtx 0, Wake 0,
     OnCancelDone 0]"

definition restart_events :: "lw_event list" where
  "restart_events = [CallStart 0 0 ''t'', LoadAndDelete 0, StoreHandle 0, CallStart 0 1 ''t'',
     LoadAndDelete 0, CancelHandle 0, Wake 0, CompareAndDelete 0, CloseDone 0, AwaitDone 0,
     StoreHandle 0]"

definition late_stop_events :: "lw_event list" where
  "late_stop_events = [CallStart 0 0 ''t'', LoadAndDelete 0, StoreHandle 0, EndCtx 0, Wake 0,
     CallStop 0 ''t'', LoadAndDelete 0, CancelHandle 0, OnCancelDone 0, CompareAndDelete 0,
     CloseDone 0, AwaitDone 0]"

definition stopping_events :: "lw_event list" where
  "stopping_events = [CallStart 0 0 ''t'', LoadAndDelete 0, StoreHandle 0, CallStop 0 ''t'',
     LoadAndDelete 0, CancelHandle 0]"

lemma fires_run: "\<exists>s. lw_run True fires_events newLeaseWatcher = Some s \<and> fired s = [0]"
  by (simp add: fires_events_def lw_eval)

lemma restart_run:
  "\<exists>s w. lw_run True restart_events newLeaseWatcher = Some s \<and>
     watches s 1 = Some w \<and> wt_topic w = ''t'' \<and> wt_pc w = Watching"
  by (simp add: restart_events_def lw_eval)

lemma late_stop_run:
  "\<exists>s s' w. lw_run True late_stop_events newLeaseWatcher = Some s \<and>
     callers s 0 = Returned ''t'' True \<and> lw_run True [Return 0, EndCtx 1] s = Some s' \<and>
     watches s' 0 = Some w \<and> wt_topic w = ''t'' \<and> 0 \<in> set (fired s')"
  by (simp add: late_stop_events_def lw_eval)

lemma stopping_run:
  "\<exists>s. lw_run True stopping_events newLeaseWatcher = Some s \<and> callers s 0 = Waiting ''t'' 0 None"
  by (simp add: stopping_events_def lw_eval)

theorem onCancel_at_most_once_witness:
  "\<exists>s w. lw_run True fires_events newLeaseWatcher = Some s \<and> fired s = [0] \<and>
     watches s 0 = Some w \<and> wt_cause w = Some CtxEnded \<and> ended s (wt_ctx w)"
proof -
  obtain s where s: "lw_run True fires_events newLeaseWatcher = Some s" "fired s = [0]"
    using fires_run by blast
  from onCancel_at_most_once [OF lw_run_new [OF s(1)]] s show ?thesis by auto
qed

theorem one_watcher_per_topic_witness:
  "\<exists>s. lw_run True restart_events newLeaseWatcher = Some s \<and>
     {g. \<exists>w. watches s g = Some w \<and> live_pc (wt_pc w) \<and> wt_topic w = ''t''} = {1}"
proof -
  obtain s w where s: "lw_run True restart_events newLeaseWatcher = Some s"
    "watches s 1 = Some w" "wt_topic w = ''t''" "wt_pc w = Watching"
    using restart_run by blast
  have "g = 1" if "watches s g = Some w'" "live_pc (wt_pc w')" "wt_topic w' = ''t''" for g w'
    using one_watcher_per_topic [OF lw_run_new [OF s(1)] s(2) _ that(1,2)] s(3,4) that(3) by simp
  moreover have "live_pc (wt_pc w)" using s(4) by simp
  ultimately have "{g. \<exists>w. watches s g = Some w \<and> live_pc (wt_pc w) \<and> wt_topic w = ''t''} = {1}"
    using s(2,3) by blast
  with s(1) show ?thesis by blast
qed


theorem Stop_completes_witness:
  "\<exists>s evs s'. lw_run True stopping_events newLeaseWatcher = Some s \<and>
     lw_run True evs s = Some s' \<and> callers s' 0 = Returned ''t'' True"
proof -
  obtain s where s: "lw_run True stopping_events newLeaseWatcher = Some s"
    "callers s 0 = Waiting ''t'' 0 None"
    using stopping_run by blast
  from Stop_completes [OF lw_run_new [OF s(1)] s(2)] s(1) show ?thesis
    by (auto simp: after_stop_def)
qed


end
