(* ===== verification/Exclusive.thy ===== *)
theory Exclusive
  imports Producer Lease_Contract Lease_Watcher
begin

text \<open>
  Exclusive consumption: \<open>AcquireTopic\<close>, \<open>ReleaseTopic\<close>, the check that
  \<open>ProcessMessages\<close> makes, the grace-period write of the lease watcher and the heartbeat of
  consumer sessions (\<open>outbox.go\<close>).

  A lease is the holder column of the topic's row. Its expiry is the row's own timestamp where
  there is one (an override, written when a hold ends) and otherwise that of the holder's
  session row: such a lease is \<open>session_deferred\<close>, the heartbeat keeps it alive for as long
  as the process lives, and the watcher is there to end it.
\<close>

section \<open>Operations\<close>

definition upsertConsumerSessionIn :: "'a outboxImpl \<Rightarrow> env \<Rightarrow> 'a db \<Rightarrow> go_err option \<times> 'a db" where
  "upsertConsumerSessionIn o1 e d =
     exec_pool e AtUpsertConsumerSession
       (UpsertConsumerSession (instanceID o1)
          (e_clock e AtUpsertConsumerSession + exclusiveLeaseDuration (e_timings e))
          (defaultExpiration o1 > 0)) d"

definition upsertConsumerSession :: "'a outboxImpl \<Rightarrow> env \<Rightarrow> 'a db \<Rightarrow> go_err option \<times> 'a db" where
  "upsertConsumerSession o1 e d = upsertConsumerSessionIn o1 e d"

text \<open>\<open>ts.Valid && ts.Time.After(now)\<close>.\<close>

definition valid_after :: "time option \<Rightarrow> time \<Rightarrow> bool" where
  "valid_after ts now = (case ts of None \<Rightarrow> False | Some t \<Rightarrow> now < t)"

definition tryAcquireTopicLease ::
  "'a outboxImpl \<Rightarrow> env \<Rightarrow> topic \<Rightarrow> 'a db \<Rightarrow> (go_err + bool) \<times> 'a db" where
  "tryAcquireTopicLease o1 e topic d =
     on_err (call_err e AtBegin)
       (\<lambda>er. (Inl (Wrap ''begin transaction for AcquireTopic'' topic er), d))
     (let tx0 = begin_tx d in
      on_err (call_err e AtInsertTopicIfAbsent)
        (\<lambda>er. (Inl (Wrap ''ensure topic row for'' topic er), rollback d tx0))
      (let tx1 = InsertTopicIfAbsent (e_now e AtBegin) topic None tx0 in
       case query_one e AtGetTopicForUpdate (GetTopicForUpdate topic tx1) of
         Inl er \<Rightarrow> (Inl (Wrap ''lock topic row for'' topic er), rollback d tx1)
       | Inr row \<Rightarrow>
           (let holderIsUs = g_ExclusiveConsumerID row = Some (instanceID o1);
                leaseValid = valid_after (g_ExclusiveConsumerExpiresAt row) (e_clock e AtLeaseCheck)
            in if g_ExclusiveConsumerID row \<noteq> None \<and> \<not> holderIsUs \<and> leaseValid
               then (Inr False, rollback d tx1)
               else (case upsertConsumerSessionIn o1 e tx1 of
                       (Some er, tx2) \<Rightarrow>
                         (Inl (Wrap ''refresh consumer session while acquiring topic'' topic er),
                          rollback d tx2)
                     | (None, tx2) \<Rightarrow>
                         on_err (call_err e AtSetTopicExclusiveConsumer)
                           (\<lambda>er. (Inl (Wrap ''set exclusive consumer for topic'' topic er),
                                 rollback d tx2))
                         (let tx3 = SetTopicExclusiveConsumer topic (Some (instanceID o1)) None tx2 in
                          case commit_tx e d tx3 of
                            (Some er, d') \<Rightarrow>
                              (Inl (Wrap ''commit exclusive lease for topic'' topic er), d')
                          | (None, d') \<Rightarrow> (Inr True, d'))))))"

text \<open>The write of the watcher, whose failure is logged.\<close>

definition expireExclusiveLeaseAfterGrace :: "'a outboxImpl \<Rightarrow> env \<Rightarrow> topic \<Rightarrow> 'a db \<Rightarrow> 'a db" where
  "expireExclusiveLeaseAfterGrace o1 e topic d =
     snd (exec_pool e AtGraceExpiry
       (RenewTopicExclusiveConsumer topic (Some (instanceID o1))
          (Some (e_clock e AtGraceExpiry + exclusiveLeaseDuration (e_timings e)))) d)"

definition expireLeaseIfWatcherOrphaned ::
  "'a outboxImpl \<Rightarrow> env \<Rightarrow> topic \<Rightarrow> bool \<Rightarrow> 'a db \<Rightarrow> 'a db" where
  "expireLeaseIfWatcherOrphaned o1 e topic hadWatcher d =
     (if \<not> hadWatcher then d else expireExclusiveLeaseAfterGrace o1 e topic d)"

text \<open>
  The retry loop of \<open>AcquireTopic\<close> over a script of rounds: the environment of the
  attempt, whether the context ended during the wait that follows a refusal, and what the other
  instances did to the database in the meantime. A script that runs out gives \<open>None\<close>: the
  call is still waiting.
\<close>

record 'a acquire_round =
  ar_env :: env
  ar_ctx_err :: "go_err option"
  ar_others :: "'a db \<Rightarrow> 'a db"

fun AcquireTopic_loop ::
  "'a outboxImpl \<Rightarrow> ctx \<Rightarrow> topic \<Rightarrow> bool \<Rightarrow> 'a acquire_round list \<Rightarrow> watched \<Rightarrow> 'a db
     \<Rightarrow> (go_err option \<times> watched \<times> 'a db) option" where
  "AcquireTopic_loop o1 c topic stopped [] w d = None"
| "AcquireTopic_loop o1 c topic stopped (r # rs) w d =
     (case tryAcquireTopicLease o1 (ar_env r) topic d of
        (Inl er, d1) \<Rightarrow>
          Some (Some er, w, expireLeaseIfWatcherOrphaned o1 (ar_env r) topic stopped d1)
      | (Inr True, d1) \<Rightarrow> Some (None, watcher_Start c topic w, d1)
      | (Inr False, d1) \<Rightarrow>
          (case ar_ctx_err r of
             Some er \<Rightarrow>
               Some (Some er, w, expireLeaseIfWatcherOrphaned o1 (ar_env r) topic stopped d1)
           | None \<Rightarrow> AcquireTopic_loop o1 c topic stopped rs w (ar_others r d1)))"

definition AcquireTopic ::
  "'a outboxImpl \<Rightarrow> ctx \<Rightarrow> topic \<Rightarrow> 'a acquire_round list \<Rightarrow> watched \<Rightarrow> 'a db
     \<Rightarrow> (go_err option \<times> watched \<times> 'a db) option" where
  "AcquireTopic o1 c topic rs w d =
     (if topic = [] then Some (Some (Errorf ''topic must not be empty'' []), w, d)
      else (let (stopped, w') = watcher_Stop topic w in
            AcquireTopic_loop o1 c topic stopped rs w' d))"

definition ReleaseTopic ::
  "'a outboxImpl \<Rightarrow> env \<Rightarrow> topic \<Rightarrow> watched \<Rightarrow> 'a db \<Rightarrow> go_err option \<times> watched \<times> 'a db" where
  "ReleaseTopic o1 e topic w d =
     (if topic = [] then (Some (Errorf ''topic must not be empty'' []), w, d)
      else (let (stopped, w') = watcher_Stop topic w;
                expiredAt = e_clock e AtReleaseTopic - second
            in case exec_pool e AtReleaseTopic
                 (RenewTopicExclusiveConsumer topic (Some (instanceID o1)) (Some expiredAt)) d of
                 (Some er, d1) \<Rightarrow>
                   (Some (Wrap ''release exclusive lease for topic'' topic er), w',
                    expireLeaseIfWatcherOrphaned o1 e topic stopped d1)
               | (None, d1) \<Rightarrow> (None, w', d1)))"

definition checkExclusiveAccessForUpdate ::
  "'a outboxImpl \<Rightarrow> env \<Rightarrow> topic \<Rightarrow> 'a db \<Rightarrow> go_err option" where
  "checkExclusiveAccessForUpdate o1 e topic d =
     (case query_one e AtGetTopicForUpdate (GetTopicForUpdate topic d) of
        Inl er \<Rightarrow>
          if errors_Is er ErrNoRows then None
          else Some (Wrap ''check exclusive access for topic'' topic er)
      | Inr row \<Rightarrow>
          (case g_ExclusiveConsumerID row of
             None \<Rightarrow> None
           | Some c \<Rightarrow>
               if c = instanceID o1
               then (if valid_after (g_ExclusiveConsumerExpiresAt row) (e_clock e AtLeaseCheck) then None
                     else Some (Wrap ''exclusive lease has expired for topic'' topic ErrExclusiveLeaseRequired))
               else if valid_after (g_ExclusiveConsumerExpiresAt row) (e_clock e AtLeaseCheck)
                    then Some ErrExclusiveLeaseHeld
                    else Some (Wrap ''exclusive access required for topic'' topic ErrExclusiveLeaseRequired)))"

text \<open>One round of \<open>runConsumerSessionRenewer\<close>: the error it logs, and the database.\<close>

definition runConsumerSessionRenewer_tick ::
  "'a outboxImpl \<Rightarrow> env \<Rightarrow> 'a db \<Rightarrow> go_err option \<times> 'a db" where
  "runConsumerSessionRenewer_tick o1 e d =
     (case upsertConsumerSession o1 e d of
        (Some er, d') \<Rightarrow> (if errors_Is er ContextCanceled then None else Some er, d')
      | (None, d') \<Rightarrow> (None, d'))"

section \<open>The lease, abstractly\<close>

definition lease_holder :: "topic \<Rightarrow> 'a db \<Rightarrow> uuid option" where
  "lease_holder t d = Option.bind (find_topic t d) t_ExclusiveConsumerID"

definition lease_override :: "topic \<Rightarrow> 'a db \<Rightarrow> time option" where
  "lease_override t d = Option.bind (find_topic t d) t_ExclusiveConsumerExpiresAt"

definition session_expiry :: "uuid \<Rightarrow> 'a db \<Rightarrow> time option" where
  "session_expiry c d = map_option s_ExpiresAt (find_session c d)"

definition lease_expiry :: "topic \<Rightarrow> 'a db \<Rightarrow> time option" where
  "lease_expiry t d =
     coalesce (lease_override t d) (Option.bind (lease_holder t d) (\<lambda>c. session_expiry c d))"

definition session_deferred :: "uuid \<Rightarrow> topic \<Rightarrow> 'a db \<Rightarrow> bool" where
  "session_deferred c t d \<longleftrightarrow> lease_holder t d = Some c \<and> lease_override t d = None"

lemma GetTopicForUpdate_alt:
  "GetTopicForUpdate t d =
     (if find_topic t d = None then None
      else Some \<lparr>g_ExclusiveConsumerID = lease_holder t d,
                 g_ExclusiveConsumerExpiresAt = lease_expiry t d\<rparr>)"
  by (auto simp: GetTopicForUpdate_def lease_holder_def lease_expiry_def lease_override_def
      session_expiry_def split: option.split)

lemma lease_holder_row: "lease_holder t d = Some c \<Longrightarrow> find_topic t d \<noteq> None"
  by (cases "find_topic t d") (simp_all add: lease_holder_def)

lemma lease_cong:
  assumes "topics d' = topics d" and "consumer_sessions d' = consumer_sessions d"
  shows "lease_holder t d' = lease_holder t d" "lease_override t d' = lease_override t d"
    "session_expiry c d' = session_expiry c d" "lease_expiry t d' = lease_expiry t d"
    "session_deferred c t d' = session_deferred c t d"
  using assms by (simp_all add: lease_holder_def lease_override_def session_expiry_def
      lease_expiry_def session_deferred_def)

lemma lease_begin [simp]:
  "lease_holder t (begin_tx d) = lease_holder t d"
  "lease_override t (begin_tx d) = lease_override t d"
  "session_expiry c (begin_tx d) = session_expiry c d"
  "lease_expiry t (begin_tx d) = lease_expiry t d"
  by (rule lease_cong; simp)+

lemma lease_commit [simp]:
  "lease_holder t (commit_db d) = lease_holder t d"
  "lease_override t (commit_db d) = lease_override t d"
  "session_expiry c (commit_db d) = session_expiry c d"
  "lease_expiry t (commit_db d) = lease_expiry t d"
  by (rule lease_cong; simp)+

lemma lease_InsertTopicIfAbsent [simp]:
  "lease_holder t (InsertTopicIfAbsent now tp x d) = lease_holder t d"
  "lease_override t (InsertTopicIfAbsent now tp x d) = lease_override t d"
  "session_expiry c (InsertTopicIfAbsent now tp x d) = session_expiry c d"
  "lease_expiry t (InsertTopicIfAbsent now tp x d) = lease_expiry t d"
  by (auto simp: lease_holder_def lease_override_def session_expiry_def lease_expiry_def
      split: option.split)

lemma lease_UpsertConsumerSession [simp]:
  "lease_holder t (UpsertConsumerSession c x b d) = lease_holder t d"
  "lease_override t (UpsertConsumerSession c x b d) = lease_override t d"
  "session_expiry c' (UpsertConsumerSession c x b d) = (if c' = c then Some x else session_expiry c' d)"
  by (simp_all add: lease_holder_def lease_override_def session_expiry_def)

lemma lease_SetTopicExclusiveConsumer:
  assumes "find_topic tp d \<noteq> None"
  shows "lease_holder t (SetTopicExclusiveConsumer tp c x d) = (if t = tp then c else lease_holder t d)"
    and "lease_override t (SetTopicExclusiveConsumer tp c x d) =
      (if t = tp then x else lease_override t d)"
    and "session_expiry c' (SetTopicExclusiveConsumer tp c x d) = session_expiry c' d"
  using assms
  by (cases "find_topic t d";
      force simp: lease_holder_def lease_override_def session_expiry_def dest: find_row_key)+

lemma lease_RenewTopicExclusiveConsumer [simp]:
  "lease_holder t (RenewTopicExclusiveConsumer tp c x d) = lease_holder t d"
  "lease_override t (RenewTopicExclusiveConsumer tp (Some a) x d) =
     (if t = tp \<and> lease_holder t d = Some a then x else lease_override t d)"
  "session_expiry c' (RenewTopicExclusiveConsumer tp c x d) = session_expiry c' d"
  by (cases "find_topic t d";
      force simp: lease_holder_def lease_override_def session_expiry_def dest: find_row_key)+


section \<open>What an attempt does\<close>

text \<open>The database after a successful attempt.\<close>

definition acquired_db :: "'a outboxImpl \<Rightarrow> env \<Rightarrow> topic \<Rightarrow> 'a db \<Rightarrow> 'a db" where
  "acquired_db o1 e t d =
     commit_db (SetTopicExclusiveConsumer t (Some (instanceID o1)) None
       (UpsertConsumerSession (instanceID o1)
          (e_clock e AtUpsertConsumerSession + exclusiveLeaseDuration (e_timings e))
          (defaultExpiration o1 > 0)
          (InsertTopicIfAbsent (e_now e AtBegin) t None (begin_tx d))))"

text \<open>Somebody else holds the lease, and it is live on this instance's clock.\<close>

definition lease_contended :: "'a outboxImpl \<Rightarrow> env \<Rightarrow> topic \<Rightarrow> 'a db \<Rightarrow> bool" where
  "lease_contended o1 e t d \<longleftrightarrow>
     lease_holder t d \<noteq> None \<and> lease_holder t d \<noteq> Some (instanceID o1) \<and>
     valid_after (lease_expiry t d) (e_clock e AtLeaseCheck)"

lemma valid_after_simps [simp]:
  "valid_after None now = False"
  "valid_after (Some x) now \<longleftrightarrow> now < x"
  by (simp_all add: valid_after_def)

lemma find_topic_after_insert: "find_topic t (InsertTopicIfAbsent now t x d) \<noteq> None"
  by simp

lemma lease_acquired_db [simp]:
  "lease_holder t' (acquired_db o1 e t d) = (if t' = t then Some (instanceID o1) else lease_holder t' d)"
  "lease_override t' (acquired_db o1 e t d) = (if t' = t then None else lease_override t' d)"
  "session_expiry c (acquired_db o1 e t d) =
     (if c = instanceID o1
      then Some (e_clock e AtUpsertConsumerSession + exclusiveLeaseDuration (e_timings e))
      else session_expiry c d)"
  by (simp_all add: acquired_db_def lease_SetTopicExclusiveConsumer)

lemma acquired_db_frame [simp]:
  "messages (acquired_db o1 e t d) = messages d"
  "maintenance_leases (acquired_db o1 e t d) = maintenance_leases d"
  "messages_id_seq (acquired_db o1 e t d) = messages_id_seq d"
  "notified (acquired_db o1 e t d) = notified d"
  "app (acquired_db o1 e t d) = app d"
  by (simp_all add: acquired_db_def)

lemma db_ok_acquired_db [schema_ok]: "db_ok d \<Longrightarrow> db_ok (acquired_db o1 e t d)"
  by (simp add: acquired_db_def schema_ok)

text \<open>Every way an attempt can end.\<close>

lemma tryAcquire_cases:
  assumes "tryAcquireTopicLease o1 e t d = (r, d')"
  obtains (failed) er where "r = Inl er" "d' = d"
  | (refused) "r = Inr False" "d' = d" "lease_contended o1 e t d"
  | (taken) "r = Inr True" "d' = acquired_db o1 e t d" "\<not> lease_contended o1 e t d"
  | (unacked) er er' where "r = Inl er" "d' = acquired_db o1 e t d" "\<not> lease_contended o1 e t d"
      "e_outcome e AtCommit = Unacked er'"
proof -
  let ?d1 = "InsertTopicIfAbsent (e_now e AtBegin) t None (begin_tx d)"
  have row: "GetTopicForUpdate t ?d1 = Some \<lparr>g_ExclusiveConsumerID = lease_holder t d,
      g_ExclusiveConsumerExpiresAt = lease_expiry t d\<rparr>"
    by (simp add: GetTopicForUpdate_alt)
  have cont: "lease_holder t d \<noteq> None \<and> lease_holder t d \<noteq> Some (instanceID o1) \<and>
      valid_after (lease_expiry t d) (e_clock e AtLeaseCheck) \<longleftrightarrow> lease_contended o1 e t d"
    by (simp add: lease_contended_def)
  show ?thesis
  proof (cases "lease_contended o1 e t d")
    case True
    with assms row show ?thesis
      by (auto simp: tryAcquireTopicLease_def Let_def lease_contended_def query_one_def
          split: on_err_splits option.splits intro: failed refused)
  next
    case False
    note tr = assms [unfolded tryAcquireTopicLease_def Let_def upsertConsumerSessionIn_def
        exec_pool_def commit_tx_def query_one_def row, simplified, unfolded cont]
    from False have nc: "lease_holder t d = None \<or> lease_holder t d = Some (instanceID o1) \<or>
        \<not> valid_after (lease_expiry t d) (e_clock e AtLeaseCheck)"
      by (simp add: lease_contended_def)
    show ?thesis
    proof (cases "e_outcome e AtCommit")
      case Done
      with tr False nc show ?thesis
        by (auto simp: acquired_db_def split: on_err_splits option.splits if_splits
            intro: failed taken)
    next
      case (Failed er)
      with tr False nc show ?thesis
        by (auto split: on_err_splits option.splits if_splits intro: failed)
    next
      case (Unacked er)
      with tr False nc show ?thesis
        by (auto simp: acquired_db_def split: on_err_splits option.splits if_splits
            intro: failed unacked)
    qed
  qed
qed

lemma tryAcquire_no_faults:
  assumes "no_faults e"
  shows "tryAcquireTopicLease o1 e t d =
     (if lease_contended o1 e t d then (Inr False, d) else (Inr True, acquired_db o1 e t d))"
proof -
  obtain r d' where r: "tryAcquireTopicLease o1 e t d = (r, d')"
    by (cases "tryAcquireTopicLease o1 e t d")
  have nerr: "\<nexists>er. r = Inl er"
    using r assms by (auto simp: tryAcquireTopicLease_def Let_def upsertConsumerSessionIn_def
        exec_pool_def commit_tx_def GetTopicForUpdate_alt split: if_splits)
  from r show ?thesis
    by (cases rule: tryAcquire_cases) (use r nerr in auto)
qed


text \<open>An attempt, as the contract of leases sees it.\<close>

definition attempt_lease :: "'a outboxImpl \<Rightarrow> env \<Rightarrow> topic \<Rightarrow> 'a db \<Rightarrow> bool \<times> 'a db" where
  "attempt_lease o1 e t d = (let (r, d') = tryAcquireTopicLease o1 e t d in (r = Inr True, d'))"

definition live_for :: "'a outboxImpl \<Rightarrow> env \<Rightarrow> topic \<Rightarrow> 'a db \<Rightarrow> bool" where
  "live_for o1 e t d \<longleftrightarrow> valid_after (lease_expiry t d) (e_clock e AtLeaseCheck)"

lemma attempt_lease_cases:
  obtains (same) "snd (attempt_lease o1 e t d) = d" "\<not> fst (attempt_lease o1 e t d)"
  | (changed) "snd (attempt_lease o1 e t d) = acquired_db o1 e t d" "\<not> lease_contended o1 e t d"
proof -
  obtain r d' where r: "tryAcquireTopicLease o1 e t d = (r, d')"
    by (cases "tryAcquireTopicLease o1 e t d")
  from r show ?thesis
    by (cases rule: tryAcquire_cases)
      (use r same changed in \<open>auto simp: attempt_lease_def\<close>)
qed

interpretation xl: lease_contract "instanceID :: 'a outboxImpl \<Rightarrow> uuid" lease_holder live_for attempt_lease
proof unfold_locales
  fix k :: topic and d :: "'a db" and a c and i :: "'a outboxImpl"
  assume "lease_holder k d = Some a" "a \<noteq> instanceID i" "live_for i c k d"
  then show "\<not> fst (attempt_lease i c k d) \<and> lease_holder k (snd (attempt_lease i c k d)) = Some a"
    by (cases rule: attempt_lease_cases [of i c k d]) (auto simp: lease_contended_def live_for_def)
next
  fix k :: topic and d :: "'a db" and c and i :: "'a outboxImpl"
  show "fst (attempt_lease i c k d) \<Longrightarrow>
      lease_holder k (snd (attempt_lease i c k d)) = Some (instanceID i)"
    by (cases rule: attempt_lease_cases [of i c k d]) auto
  show "lease_holder k (snd (attempt_lease i c k d)) \<noteq> lease_holder k d \<Longrightarrow>
      lease_holder k (snd (attempt_lease i c k d)) = Some (instanceID i)"
    by (cases rule: attempt_lease_cases [of i c k d]) auto
next
  fix k' k :: topic and d :: "'a db" and c and i :: "'a outboxImpl"
  show "k' \<noteq> k \<Longrightarrow> lease_holder k' (snd (attempt_lease i c k d)) = lease_holder k' d"
    by (cases rule: attempt_lease_cases [of i c k d]) auto
qed

lemma attempts_snd:
  "fold (\<lambda>(o1, e, t') d. snd (attempt_lease o1 e t' d)) as d =
     fold (\<lambda>(o1, e, t') d. snd (tryAcquireTopicLease o1 e t' d)) as d"
  by (rule arg_cong [where f = "\<lambda>f. fold f as d"])
    (simp add: attempt_lease_def case_prod_unfold fun_eq_iff Let_def)

text \<open>The check, as a function of the abstract lease.\<close>

lemma check_alt:
  "checkExclusiveAccessForUpdate o1 e t d =
    (case call_err e AtGetTopicForUpdate of
       Some er \<Rightarrow> Some (Wrap ''check exclusive access for topic'' t er)
     | None \<Rightarrow>
         (case lease_holder t d of
            None \<Rightarrow> None
          | Some c \<Rightarrow>
              if valid_after (lease_expiry t d) (e_clock e AtLeaseCheck)
              then (if c = instanceID o1 then None else Some ErrExclusiveLeaseHeld)
              else Some (Wrap
                (if c = instanceID o1 then ''exclusive lease has expired for topic''
                 else ''exclusive access required for topic'') t ErrExclusiveLeaseRequired)))"
proof (cases "e_outcome e AtGetTopicForUpdate = Done")
  case True
  have "find_topic t d = None \<Longrightarrow> lease_holder t d = None" by (simp add: lease_holder_def)
  with True show ?thesis
    by (cases "find_topic t d")
      (auto simp: checkExclusiveAccessForUpdate_def GetTopicForUpdate_alt split: option.split)
next
  case False
  then show ?thesis
    by (cases "e_outcome e AtGetTopicForUpdate")
      (auto simp: checkExclusiveAccessForUpdate_def query_one_def)
qed

section \<open>Properties\<close>

text \<open>However many attempts to acquire topics follow each other, by whatever instances and
  with whatever failures, the holder of a topic is replaced only by an attempt of another
  instance that found the lease lapsed on its own clock.\<close>

theorem exclusive_handover_needs_lapse:
  assumes "lease_holder t d = Some a"
    and "lease_holder t (fold (\<lambda>(o1, e, t') d. snd (tryAcquireTopicLease o1 e t' d)) as d) \<noteq> Some a"
  shows "\<exists>pre o1 e post. as = pre @ (o1, e, t) # post \<and> instanceID o1 \<noteq> a \<and>
     lease_holder t (fold (\<lambda>(o1, e, t') d. snd (tryAcquireTopicLease o1 e t' d)) pre d) = Some a \<and>
     \<not> valid_after (lease_expiry t (fold (\<lambda>(o1, e, t') d. snd (tryAcquireTopicLease o1 e t' d)) pre d))
         (e_clock e AtLeaseCheck)"
  using xl.handover_needs_lapse [OF assms(1), of as] assms(2)
  by (simp add: attempts_snd live_for_def)

text \<open>C30: \<open>AcquireTopic\<close> returns without an error only as the holder of the topic, with a
  lease that defers to a session renewed in the same transaction and with a watcher started on
  the caller's context; the messages are as the other instances left them.\<close>

theorem AcquireTopic_success:
  assumes "AcquireTopic o1 c t rs w d = Some (None, w', d')"
  shows "session_deferred (instanceID o1) t d' \<and> w' t = Some c \<and>
    (\<exists>r \<in> set rs. lease_expiry t d' = Some (e_clock (ar_env r) AtUpsertConsumerSession +
        exclusiveLeaseDuration (e_timings (ar_env r))))"
proof -
  obtain stopped w0 where "AcquireTopic_loop o1 c t stopped rs w0 d = Some (None, w', d')"
    using assms by (auto simp: AcquireTopic_def split: if_splits prod.splits)
  then show ?thesis
  proof (induction rs arbitrary: d)
    case Nil
    then show ?case by simp
  next
    case (Cons r rs)
    obtain q d1 where q: "tryAcquireTopicLease o1 (ar_env r) t d = (q, d1)"
      by (cases "tryAcquireTopicLease o1 (ar_env r) t d")
    from q show ?case
    proof (cases rule: tryAcquire_cases)
      case taken
      with q Cons.prems have "d' = acquired_db o1 (ar_env r) t d" "w' t = Some c"
        by (auto simp: watcher_Start_def)
      then show ?thesis by (simp add: session_deferred_def lease_expiry_def)
    next
      case refused
      with q Cons show ?thesis by (fastforce split: option.splits)
    qed (use q Cons.prems in auto)
  qed
qed

text \<open>The check before processing. A database error is wrapped; otherwise a topic that was
  never exclusive passes for everyone, an exclusive one passes exactly for its holder while the
  lease is live, and the refusal says whether the lease is another's or must be acquired.\<close>

theorem checkExclusiveAccess_decides:
  shows "checkExclusiveAccessForUpdate o1 e t d =
    (case call_err e AtGetTopicForUpdate of
       Some er \<Rightarrow> Some (Wrap ''check exclusive access for topic'' t er)
     | None \<Rightarrow>
         (case lease_holder t d of
            None \<Rightarrow> None
          | Some c \<Rightarrow>
              if valid_after (lease_expiry t d) (e_clock e AtLeaseCheck)
              then (if c = instanceID o1 then None else Some ErrExclusiveLeaseHeld)
              else Some (Wrap
                (if c = instanceID o1 then ''exclusive lease has expired for topic''
                 else ''exclusive access required for topic'') t ErrExclusiveLeaseRequired)))"
  by (rule check_alt)

text \<open>On an exclusive topic at most one instance passes the check, whatever the instances'
  clocks say.\<close>

theorem exclusive_check_unique:
  assumes "lease_holder t d \<noteq> None"
    and "checkExclusiveAccessForUpdate o1 e1 t d = None"
    and "checkExclusiveAccessForUpdate o2 e2 t d = None"
  shows "instanceID o1 = instanceID o2"
proof -
  have "lease_holder t d = Some (instanceID o3)"
    if "checkExclusiveAccessForUpdate o3 e t d = None" for o3 :: "'a outboxImpl" and e
    using that assms(1)
    by (cases "find_topic t d"; cases "e_outcome e AtGetTopicForUpdate")
      (auto simp: checkExclusiveAccessForUpdate_def GetTopicForUpdate_alt lease_holder_def query_one_def
        split: if_splits option.splits)
  from this [OF assms(2)] this [OF assms(3)] show ?thesis by simp
qed


text \<open>A lease that was acquired is worth what it promises: until it expires its holder passes
  the check, and every other instance is refused, by the check and by its own attempts.\<close>

theorem acquired_lease_excludes:
  assumes "tryAcquireTopicLease o1 e t d = (Inr True, d')"
    and "no_faults e1"
    and "e_clock e1 AtLeaseCheck < e_clock e AtUpsertConsumerSession + exclusiveLeaseDuration (e_timings e)"
  shows "checkExclusiveAccessForUpdate o1 e1 t d' = None \<and>
    (\<forall>o2. instanceID o2 \<noteq> instanceID o1 \<longrightarrow>
       checkExclusiveAccessForUpdate o2 e1 t d' = Some ErrExclusiveLeaseHeld \<and>
       tryAcquireTopicLease o2 e1 t d' = (Inr False, d'))"
  using assms(1)
proof (cases rule: tryAcquire_cases)
  case taken
  then have lease: "lease_holder t d' = Some (instanceID o1)"
    "lease_expiry t d' = Some (e_clock e AtUpsertConsumerSession + exclusiveLeaseDuration (e_timings e))"
    by (simp_all add: lease_expiry_def)
  have row: "find_topic t d' \<noteq> None" using lease(1) by (rule lease_holder_row)
  show ?thesis
    using lease row assms(2,3)
    by (auto simp: checkExclusiveAccessForUpdate_def GetTopicForUpdate_alt tryAcquire_no_faults
        lease_contended_def)
qed auto

text \<open>After a release nobody has to wait. The holder itself is told to acquire again, the
  topic stays exclusive, and the next attempt of any instance, its clock at most a second behind,
  takes the lease; no watcher is left.\<close>

theorem ReleaseTopic_frees:
  assumes "ReleaseTopic o1 e t w d = (None, w', d')"
    and "lease_holder t d = Some (instanceID o1)"
    and "no_faults e2" and "e_clock e AtReleaseTopic - second \<le> e_clock e2 AtLeaseCheck"
  shows "w' t = None \<and> messages d' = messages d \<and>
    lease_holder t d' = Some (instanceID o1) \<and>
    (\<exists>m. checkExclusiveAccessForUpdate o1 e2 t d' = Some (Wrap m t ErrExclusiveLeaseRequired)) \<and>
    tryAcquireTopicLease o2 e2 t d' = (Inr True, acquired_db o2 e2 t d')"
proof -
  have d': "d' = RenewTopicExclusiveConsumer t (Some (instanceID o1))
        (Some (e_clock e AtReleaseTopic - second)) d" and w': "w' = w(t := None)"
    using assms(1)
    by (auto simp: ReleaseTopic_def Let_def exec_pool_def watcher_Stop_def
        split: if_splits option.splits prod.splits)
  have lease: "lease_holder t d' = Some (instanceID o1)"
    "lease_expiry t d' = Some (e_clock e AtReleaseTopic - second)"
    using d' assms(2) by (simp_all add: lease_expiry_def)
  have row: "find_topic t d' \<noteq> None" using lease(1) by (rule lease_holder_row)
  show ?thesis
    using lease row assms(3,4) d' w'
    by (auto simp: checkExclusiveAccessForUpdate_def GetTopicForUpdate_alt tryAcquire_no_faults
        lease_contended_def)
qed

text \<open>
  The life of one instance's leases: its own calls, its watchers that fire, its heartbeat, and
  whatever the rest of the system does to the database short of writing a lease in its name.
  No commit loses its acknowledgement, and the detached grace-period write reaches the database.
\<close>

definition acked_round :: "'a outboxImpl \<Rightarrow> 'a acquire_round \<Rightarrow> bool" where
  "acked_round o1 r \<longleftrightarrow>
     (\<forall>er. e_outcome (ar_env r) AtCommit \<noteq> Unacked er) \<and>
     outcome_applied (e_outcome (ar_env r) AtGraceExpiry) \<and>
     (\<forall>d t. session_deferred (instanceID o1) t (ar_others r d) \<longrightarrow>
        session_deferred (instanceID o1) t d)"

inductive lease_life :: "'a outboxImpl \<Rightarrow> watched \<Rightarrow> 'a db \<Rightarrow> bool" for o1 where
  start: "(\<And>t. \<not> session_deferred (instanceID o1) t d) \<Longrightarrow> lease_life o1 (\<lambda>_. None) d"
| acquire: "lease_life o1 w d \<Longrightarrow> AcquireTopic o1 c t rs w d = Some (r, w', d') \<Longrightarrow>
    list_all (acked_round o1) rs \<Longrightarrow> lease_life o1 w' d'"
| release: "lease_life o1 w d \<Longrightarrow> ReleaseTopic o1 e t w d = (r, w', d') \<Longrightarrow>
    outcome_applied (e_outcome e AtGraceExpiry) \<Longrightarrow> lease_life o1 w' d'"
| fires: "lease_life o1 w d \<Longrightarrow> w t = Some c \<Longrightarrow> outcome_applied (e_outcome e AtGraceExpiry) \<Longrightarrow>
    lease_life o1 (w(t := None)) (expireExclusiveLeaseAfterGrace o1 e t d)"
| heartbeat: "lease_life o1 w d \<Longrightarrow> lease_life o1 w (snd (runConsumerSessionRenewer_tick o1 e d))"
| others: "lease_life o1 w d \<Longrightarrow>
    (\<And>t. session_deferred (instanceID o1) t d' \<Longrightarrow> session_deferred (instanceID o1) t d) \<Longrightarrow>
    lease_life o1 w d'"

lemma deferred_grace [simp]:
  "outcome_applied (e_outcome e AtGraceExpiry) \<Longrightarrow>
     session_deferred (instanceID o1) u (expireExclusiveLeaseAfterGrace o1 e t d) \<longleftrightarrow>
       u \<noteq> t \<and> session_deferred (instanceID o1) u d"
  by (auto simp: session_deferred_def expireExclusiveLeaseAfterGrace_def exec_pool_def)

lemma deferred_Renew [simp]:
  "session_deferred c u (RenewTopicExclusiveConsumer t (Some c) (Some x) d) \<longleftrightarrow>
     u \<noteq> t \<and> session_deferred c u d"
  by (auto simp: session_deferred_def)

lemma deferred_acquired_db [simp]:
  "session_deferred (instanceID o1) u (acquired_db o1 e t d) \<longleftrightarrow>
     u = t \<or> session_deferred (instanceID o1) u d"
  by (auto simp: session_deferred_def)

lemma deferred_tick [simp]:
  "session_deferred c u (snd (runConsumerSessionRenewer_tick o1 e d)) = session_deferred c u d"
  by (auto simp: runConsumerSessionRenewer_tick_def upsertConsumerSession_def
      upsertConsumerSessionIn_def exec_pool_def session_deferred_def split: prod.split option.split)

lemma AcquireTopic_loop_watched:
  assumes "AcquireTopic_loop o1 c t stopped rs w d = Some (r, w', d')"
    and "list_all (acked_round o1) rs"
    and "\<And>u. session_deferred (instanceID o1) u d \<Longrightarrow> w u \<noteq> None \<or> u = t \<and> stopped"
    and "session_deferred (instanceID o1) u d'"
  shows "w' u \<noteq> None"
  using assms
proof (induction rs arbitrary: d)
  case Nil
  then show ?case by simp
next
  case (Cons a rs)
  obtain q d1 where q: "tryAcquireTopicLease o1 (ar_env a) t d = (q, d1)"
    by (cases "tryAcquireTopicLease o1 (ar_env a) t d")
  have a: "acked_round o1 a" using Cons.prems(2) by simp
  then have grace: "outcome_applied (e_outcome (ar_env a) AtGraceExpiry)"
    by (simp add: acked_round_def)
  have orphan: "w u \<noteq> None"
    if "session_deferred (instanceID o1) u (expireLeaseIfWatcherOrphaned o1 (ar_env a) t stopped d)"
    using that Cons.prems(3) [of u] grace
    by (auto simp: expireLeaseIfWatcherOrphaned_def split: if_splits)
  from q show ?case
  proof (cases rule: tryAcquire_cases)
    case failed
    with q Cons.prems orphan show ?thesis by auto
  next
    case taken
    with q Cons.prems(1) have d': "d' = acquired_db o1 (ar_env a) t d" and w': "w' = watcher_Start c t w"
      by auto
    from Cons.prems(4) d' Cons.prems(3) [of u] w' show ?thesis
      by (auto simp: watcher_Start_def watcher_Stop_def)
  next
    case refused
    show ?thesis
    proof (cases "ar_ctx_err a")
      case None
      with refused q Cons.prems(1) have
        run: "AcquireTopic_loop o1 c t stopped rs w (ar_others a d) = Some (r, w', d')"
        by simp
      have "w u \<noteq> None \<or> u = t \<and> stopped" if "session_deferred (instanceID o1) u (ar_others a d)" for u
        using that a Cons.prems(3) [of u] by (auto simp: acked_round_def)
      with Cons.IH [OF run] Cons.prems(2,4) show ?thesis by auto
    next
      case (Some er)
      with refused q Cons.prems orphan show ?thesis by auto
    qed
  qed (use a in \<open>auto simp: acked_round_def\<close>)
qed




text \<open>One heartbeat keeps all leases of the instance alive, however many topics it holds: it
  moves the expiry of exactly the leases that defer to its session, and changes no holder.\<close>

theorem heartbeat_renews:
  assumes "runConsumerSessionRenewer_tick o1 e d = (r, d')" and "e_outcome e AtUpsertConsumerSession = Done"
  shows "r = None \<and> lease_holder t d' = lease_holder t d \<and>
    lease_expiry t d' =
      (if session_deferred (instanceID o1) t d
       then Some (e_clock e AtUpsertConsumerSession + exclusiveLeaseDuration (e_timings e))
       else lease_expiry t d)"
proof -
  have d': "r = None" "d' = UpsertConsumerSession (instanceID o1)
      (e_clock e AtUpsertConsumerSession + exclusiveLeaseDuration (e_timings e))
      (defaultExpiration o1 > 0) d"
    using assms by (auto simp: runConsumerSessionRenewer_tick_def upsertConsumerSession_def
        upsertConsumerSessionIn_def exec_pool_def)
  then show ?thesis
    by (cases "lease_override t d"; cases "lease_holder t d")
      (auto simp: lease_expiry_def session_deferred_def)
qed

section \<open>Witnesses\<close>

definition sample_outbox :: "uuid \<Rightarrow> unit outboxImpl" where
  "sample_outbox i = new_outboxImpl i defaultOpts"

lemma sample_outbox_simps [simp]:
  "instanceID (sample_outbox i) = i"
  "defaultExpiration (sample_outbox i) = 0"
  "expirations (sample_outbox i) = []"
  "pubsub (sample_outbox i) = None"
  "txPub (sample_outbox i) = None"
  "flushers (sample_outbox i) = (\<lambda>_. None)"
  by (simp_all add: sample_outbox_def new_outboxImpl_def defaultOpts_def asTxPublisher_def)

text \<open>The database in which instance 1 has acquired topic \<open>a\<close> at time 0.\<close>

definition held_db :: "unit db" where
  "held_db = acquired_db (sample_outbox 1) (quiet_env 0) ''a'' (empty_db ())"

lemma held_db_simps [simp]:
  "lease_holder ''a'' held_db = Some 1"
  "lease_override ''a'' held_db = None"
  "lease_expiry ''a'' held_db = Some (30 * second)"
  by (simp_all add: held_db_def lease_expiry_def default_timings_def)

lemma free_empty_db [simp]:
  "lease_holder t (empty_db a) = None" "\<not> lease_contended o1 e t (empty_db a)"
  by (simp_all add: lease_holder_def empty_db_def lease_contended_def)

lemma held_db_acquire:
  "tryAcquireTopicLease (sample_outbox 1) (quiet_env 0) ''a'' (empty_db ()) = (Inr True, held_db)"
  by (simp add: tryAcquire_no_faults held_db_def)

text \<open>Instance 2 tries too early, and again when the lease has lapsed.\<close>

definition sample_attempts :: "(unit outboxImpl \<times> env \<times> topic) list" where
  "sample_attempts = [(sample_outbox 2, quiet_env (20 * second), ''a''),
     (sample_outbox 2, quiet_env (30 * second), ''a'')]"

lemma sample_attempts_db:
  "fold (\<lambda>(o1, e, t') d. snd (tryAcquireTopicLease o1 e t' d)) sample_attempts held_db =
     acquired_db (sample_outbox 2) (quiet_env (30 * second)) ''a'' held_db"
  by (simp add: sample_attempts_def tryAcquire_no_faults lease_contended_def)

theorem exclusive_handover_needs_lapse_witness:
  "\<exists>pre o1 e post. sample_attempts = pre @ (o1, e, ''a'') # post \<and> instanceID o1 \<noteq> 1 \<and>
     \<not> valid_after (lease_expiry ''a''
         (fold (\<lambda>(o1, e, t') d. snd (tryAcquireTopicLease o1 e t' d)) pre held_db))
       (e_clock e AtLeaseCheck)"
proof -
  have "lease_holder ''a'' (fold (\<lambda>(o1, e, t') d. snd (tryAcquireTopicLease o1 e t' d))
      sample_attempts held_db) \<noteq> Some 1"
    by (simp add: sample_attempts_db)
  from exclusive_handover_needs_lapse [OF held_db_simps(1) this] show ?thesis by blast
qed

theorem AcquireTopic_success_witness:
  "\<exists>w' d'. AcquireTopic (sample_outbox 1) 5 ''a''
      [\<lparr>ar_env = quiet_env 0, ar_ctx_err = None, ar_others = id\<rparr>] (\<lambda>_. None) (empty_db ()) =
      Some (None, w', d') \<and> w' ''a'' = Some 5 \<and> session_deferred 1 ''a'' d'"
proof -
  have a: "AcquireTopic (sample_outbox 1) 5 ''a''
      [\<lparr>ar_env = quiet_env 0, ar_ctx_err = None, ar_others = id\<rparr>] (\<lambda>_. None) (empty_db ()) =
      Some (None, watcher_Start 5 ''a'' ((\<lambda>_. None)(''a'' := None)), held_db)"
    by (simp add: AcquireTopic_def watcher_Stop_def held_db_acquire)
  from AcquireTopic_success [OF a] a show ?thesis by auto
qed

theorem exclusive_check_unique_witness:
  "checkExclusiveAccessForUpdate (sample_outbox 1) (quiet_env 0) ''a'' held_db = None \<and>
   {i. checkExclusiveAccessForUpdate (sample_outbox i) (quiet_env 9) ''a'' held_db = None} = {1}"
proof -
  have ne: "lease_holder ''a'' held_db \<noteq> None" by simp
  have row: "find_topic ''a'' held_db \<noteq> None" by (rule lease_holder_row) simp
  have own: "checkExclusiveAccessForUpdate (sample_outbox 1) (quiet_env n) ''a'' held_db = None"
    if "n < 30 * second" for n
    using row that by (auto simp: checkExclusiveAccessForUpdate_def GetTopicForUpdate_alt)
  have "i = 1" if "checkExclusiveAccessForUpdate (sample_outbox i) (quiet_env 9) ''a'' held_db = None" for i
    using exclusive_check_unique [OF ne that own [of 9]] by simp
  with own [of 0] own [of 9] show ?thesis by auto
qed

theorem acquired_lease_excludes_witness:
  "checkExclusiveAccessForUpdate (sample_outbox 2) (quiet_env (29 * second)) ''a'' held_db =
     Some ErrExclusiveLeaseHeld \<and>
   tryAcquireTopicLease (sample_outbox 2) (quiet_env (29 * second)) ''a'' held_db = (Inr False, held_db)"
proof -
  have "no_faults (quiet_env (29 * second))"
    "e_clock (quiet_env (29 * second)) AtLeaseCheck < e_clock (quiet_env 0) AtUpsertConsumerSession +
       exclusiveLeaseDuration (e_timings (quiet_env 0))"
    by (simp_all add: default_timings_def)
  from acquired_lease_excludes [OF held_db_acquire this] show ?thesis by simp
qed

theorem ReleaseTopic_frees_witness:
  "\<exists>d'. ReleaseTopic (sample_outbox 1) (quiet_env 10) ''a'' [''a'' \<mapsto> 5] held_db = (None, Map.empty, d') \<and>
     fst (tryAcquireTopicLease (sample_outbox 2) (quiet_env 11) ''a'' d') = Inr True"
proof -
  obtain d' where r: "ReleaseTopic (sample_outbox 1) (quiet_env 10) ''a'' [''a'' \<mapsto> 5] held_db =
      (None, Map.empty, d')"
    by (simp add: ReleaseTopic_def watcher_Stop_def exec_pool_def)
  have "lease_holder ''a'' held_db = Some (instanceID (sample_outbox 1))" "no_faults (quiet_env 11)"
    "e_clock (quiet_env 10) AtReleaseTopic - second \<le> e_clock (quiet_env 11) AtLeaseCheck"
    by simp_all
  from ReleaseTopic_frees [OF r this] r show ?thesis by auto
qed



theorem heartbeat_renews_witness:
  "lease_expiry ''a'' (snd (runConsumerSessionRenewer_tick (sample_outbox 1) (quiet_env (10 * second)) held_db)) =
     Some (40 * second)"
proof -
  obtain r d' where r: "runConsumerSessionRenewer_tick (sample_outbox 1) (quiet_env (10 * second)) held_db = (r, d')"
    by (cases "runConsumerSessionRenewer_tick (sample_outbox 1) (quiet_env (10 * second)) held_db")
  from heartbeat_renews [OF r, of "''a''"] r show ?thesis
    by (simp add: session_deferred_def default_timings_def)
qed

end
