(* ===== verification/Consumer.thy ===== *)
theory Consumer
  imports Exclusive
begin

text \<open>
  \<open>ProcessMessages\<close> (\<open>outbox.go\<close>): one transaction that checks the exclusive lease,
  locks a batch, hands it to the topic's flusher, deletes what was flushed, refreshes the
  topic's activity stamp and commits. The result has what the caller gets, the batch the flusher
  was called with if it was called, and the database afterwards. A flusher is arbitrary code on
  the transaction; what a property needs of it is a hypothesis of that property.
\<close>

section \<open>The operation\<close>

type_synonym 'a process_result = "(go_err + Message list) \<times> Message list option \<times> 'a db"

definition ProcessMessages ::
  "'a outboxImpl \<Rightarrow> env \<Rightarrow> topic \<Rightarrow> ProcessOpt list \<Rightarrow> 'a db \<Rightarrow> 'a process_result" where
  "ProcessMessages o1 e topic popts d =
     (case getFlusher o1 topic of
        None \<Rightarrow> (Inl (Errorf ''no flusher registered for topic'' topic), None, d)
      | Some f \<Rightarrow>
          (let po = process_opts popts in
           on_err (call_err e AtBegin)
             (\<lambda>er. (Inl (Wrap ''could not begin transaction for processing messages for topic'' topic er),
                   None, d))
           (let tx0 = begin_tx d in
            case checkExclusiveAccessForUpdate o1 e topic tx0 of
              Some er \<Rightarrow> (Inl er, None, rollback d tx0)
            | None \<Rightarrow>
                on_err (call_err e AtAcquireMessagesByTopic)
                  (\<lambda>er. (Inl (Wrap ''could not acquire messages for topic'' topic er),
                        None, rollback d tx0))
                (let msgs = AcquireMessagesByTopic (e_msg_locked e) topic (Some (sint (batchSize po))) tx0 in
                 if msgs = []
                 then (case commit_tx e d tx0 of
                         (Some er, d') \<Rightarrow>
                           (Inl (Wrap ''could not commit transaction for processing messages for topic''
                              topic er), None, d')
                       | (None, d') \<Rightarrow> (Inr [], None, d'))
                 else (case f msgs tx0 of
                         (Some er, tx1) \<Rightarrow>
                           (Inl (Wrap ''flusher failed for topic'' topic er), Some msgs, rollback d tx1)
                       | (None, tx1) \<Rightarrow>
                           on_err (call_err e AtDeleteMessagesByIds)
                             (\<lambda>er. (Inl (Wrap ''could not delete messages for topic'' topic er),
                                   Some msgs, rollback d tx1))
                           (let tx2 = DeleteMessagesByIds topic (map m_ID msgs) tx1 in
                            on_err (call_err e AtBumpTopicActivityIfStale)
                              (\<lambda>er. (Inl (Wrap ''could not bump activity for topic'' topic er),
                                    Some msgs, rollback d tx2))
                            (let tx3 = BumpTopicActivityIfStale (e_now e AtBegin) topic tx2 in
                             case commit_tx e d tx3 of
                               (Some er, d') \<Rightarrow>
                                 (Inl (Wrap ''could not commit transaction for processing messages for topic''
                                    topic er), Some msgs, d')
                             | (None, d') \<Rightarrow> (Inr msgs, Some msgs, d'))))))))"

section \<open>How a call can end\<close>

text \<open>The batch of a call, and the database that its commit publishes.\<close>

definition batch_of :: "env \<Rightarrow> topic \<Rightarrow> ProcessOpt list \<Rightarrow> 'a db \<Rightarrow> Message list" where
  "batch_of e topic popts d =
     AcquireMessagesByTopic (e_msg_locked e) topic (Some (sint (batchSize (process_opts popts)))) d"

definition flushed_db :: "env \<Rightarrow> topic \<Rightarrow> Message list \<Rightarrow> 'a db \<Rightarrow> 'a db" where
  "flushed_db e topic msgs tx1 =
     commit_db (BumpTopicActivityIfStale (e_now e AtBegin) topic
       (DeleteMessagesByIds topic (map m_ID msgs) tx1))"

lemma batch_of_begin_tx [simp]: "batch_of e t p (begin_tx d) = batch_of e t p d"
  by (simp add: batch_of_def AcquireMessagesByTopic_def)

lemma check_begin_tx [simp]:
  "checkExclusiveAccessForUpdate o1 e t (begin_tx d) = checkExclusiveAccessForUpdate o1 e t d"
  by (simp add: checkExclusiveAccessForUpdate_def GetTopicForUpdate_alt)

lemma rollback_begin_tx [simp]: "rollback d (begin_tx d) = d"
  by (simp add: rollback_def)

lemma ProcessMessages_cases:
  assumes "ProcessMessages o1 e t popts d = (r, fl, d')"
  obtains (refused) er where "r = Inl er" "fl = None" "d' = d"
  | (empty) "batch_of e t popts d = []" "fl = None"
      "d' = d \<and> (\<exists>er. r = Inl er) \<or>
       d' = commit_db (begin_tx d) \<and> (r = Inr [] \<or> (\<exists>er er'. r = Inl er \<and> e_outcome e AtCommit = Unacked er'))"
      "checkExclusiveAccessForUpdate o1 e t d = None"
  | (undone) er f er' tx1 where "r = Inl er" "getFlusher o1 t = Some f"
      "fl = Some (batch_of e t popts d)" "batch_of e t popts d \<noteq> []"
      "f (batch_of e t popts d) (begin_tx d) = (er', tx1)"
      "d' = rollback d tx1" "checkExclusiveAccessForUpdate o1 e t d = None"
  | (flushed) f tx1 where "getFlusher o1 t = Some f" "batch_of e t popts d \<noteq> []"
      "f (batch_of e t popts d) (begin_tx d) = (None, tx1)"
      "fl = Some (batch_of e t popts d)" "d' = flushed_db e t (batch_of e t popts d) tx1"
      "r = Inr (batch_of e t popts d) \<and> e_outcome e AtCommit = Done \<or>
       (\<exists>er er'. r = Inl er \<and> e_outcome e AtCommit = Unacked er')"
      "checkExclusiveAccessForUpdate o1 e t d = None"
proof (cases "getFlusher o1 t")
  case None
  with assms refused show ?thesis by (auto simp: ProcessMessages_def)
next
  case (Some f)
  note PM = assms [unfolded ProcessMessages_def Some Let_def option.case
      batch_of_def [symmetric] batch_of_begin_tx check_begin_tx rollback_begin_tx]
  show ?thesis
  proof (cases "call_err e AtBegin = None \<and> checkExclusiveAccessForUpdate o1 e t d = None \<and>
      call_err e AtAcquireMessagesByTopic = None")
    case False
    with PM refused show ?thesis by (auto split: on_err_splits option.splits)
  next
    case True
    show ?thesis
    proof (cases "batch_of e t popts d = []")
      case empty_batch: True
      from PM have "(case commit_tx e d (begin_tx d) of
            (Some er, d'') \<Rightarrow> (Inl (Wrap ''could not commit transaction for processing messages for topic''
               t er), None, d'')
          | (None, d'') \<Rightarrow> (Inr [], None, d'')) = (r, fl, d')"
        using True empty_batch by simp
      with True empty_batch show ?thesis
        by (cases "e_outcome e AtCommit") (auto simp: commit_tx_def intro: empty)
    next
      case False
      obtain fe tx1 where f: "f (batch_of e t popts d) (begin_tx d) = (fe, tx1)"
        by (cases "f (batch_of e t popts d) (begin_tx d)")
      show ?thesis
      proof (cases fe)
        case (Some er)
        from PM True False f Some show ?thesis
          by (auto intro: undone [OF _ \<open>getFlusher o1 t = Some f\<close>])
      next
        case None
        show ?thesis
        proof (cases "call_err e AtDeleteMessagesByIds = None \<and>
            call_err e AtBumpTopicActivityIfStale = None")
          case False': False
          with PM True False f None show ?thesis
            by (auto simp: rollback_def split: on_err_splits
                intro: undone [OF _ \<open>getFlusher o1 t = Some f\<close>])
        next
          case ok: True
          with PM True False f None show ?thesis
            by (cases "e_outcome e AtCommit")
              (auto simp: commit_tx_def flushed_db_def rollback_def
                intro: undone [OF _ \<open>getFlusher o1 t = Some f\<close>]
                  flushed [OF \<open>getFlusher o1 t = Some f\<close>])
        qed
      qed
    qed
  qed
qed


lemma flushed_db_frame [simp]:
  "maintenance_leases (flushed_db e t ms d) = maintenance_leases d"
  "consumer_sessions (flushed_db e t ms d) = consumer_sessions d"
  "messages_id_seq (flushed_db e t ms d) = messages_id_seq d"
  "app (flushed_db e t ms d) = app d"
  "messages (flushed_db e t ms d) =
     delete_where (\<lambda>m. m_Topic m = t \<and> m_ID m \<in> m_ID ` set ms) (messages d)"
  by (simp_all add: flushed_db_def DeleteMessagesByIds_def)

lemma db_ok_flushed_db [schema_ok]: "db_ok d \<Longrightarrow> db_ok (flushed_db e t ms d)"
  by (simp add: flushed_db_def schema_ok)

lemma flushed_db_fresh:
  assumes "find_topic t (flushed_db e t ms d) = Some row"
  shows "\<not> stale_activity (e_now e AtBegin) row"
proof -
  have "find_topic t (DeleteMessagesByIds t (map m_ID ms) d) = find_topic t d" by simp
  with assms obtain r where r: "find_topic t d = Some r"
    "row = (if t_Topic r = t \<and> stale_activity (e_now e AtBegin) r
            then r\<lparr>t_LastInsertedAt := Some (e_now e AtBegin)\<rparr> else r)"
    by (auto simp: flushed_db_def)
  from find_row_key [OF r(1)] r(2) show ?thesis
    by (simp add: stale_activity_def bump_granularity_def)
qed

lemma lease_flushed_db [simp]:
  "lease_holder u (flushed_db e t ms d) = lease_holder u d"
  "lease_override u (flushed_db e t ms d) = lease_override u d"
  "session_expiry c (flushed_db e t ms d) = session_expiry c d"
  "lease_expiry u (flushed_db e t ms d) = lease_expiry u d"
proof -
  have row: "find_topic u (flushed_db e t ms d) = map_option
      (\<lambda>r. if t_Topic r = t \<and> stale_activity (e_now e AtBegin) r
           then r\<lparr>t_LastInsertedAt := Some (e_now e AtBegin)\<rparr> else r) (find_topic u d)" for u
    by (simp add: flushed_db_def DeleteMessagesByIds_def)
  show h: "lease_holder u (flushed_db e t ms d) = lease_holder u d" for u
    by (cases "find_topic u d"; simp add: lease_holder_def row)
  show o: "lease_override u (flushed_db e t ms d) = lease_override u d" for u
    by (cases "find_topic u d"; simp add: lease_override_def row)
  show s: "session_expiry c (flushed_db e t ms d) = session_expiry c d" for c
    by (simp add: session_expiry_def)
  show "lease_expiry u (flushed_db e t ms d) = lease_expiry u d"
    by (simp add: lease_expiry_def h o s)
qed

lemma lease_app [simp]:
  "lease_holder u (d\<lparr>app := a\<rparr>) = lease_holder u d"
  "lease_expiry u (d\<lparr>app := a\<rparr>) = lease_expiry u d"
  by (rule lease_cong; simp)+

lemma batch_of_mem:
  "m \<in> set (batch_of e t popts d) \<Longrightarrow> m \<in> set (messages d) \<and> m_Topic m = t"
  by (auto simp: batch_of_def dest: AcquireMessagesByTopic_mem)

text \<open>Two stored messages with one id are one message.\<close>

lemma message_unique:
  "db_ok d \<Longrightarrow> m \<in> set (messages d) \<Longrightarrow> m' \<in> set (messages d) \<Longrightarrow> m_ID m = m_ID m' \<Longrightarrow> m = m'"
  by (metis db_okD(4) distinct_map inj_onD)

text \<open>A flusher that writes the application's own tables and nothing else.\<close>

definition app_only :: "'a flusher \<Rightarrow> bool" where
  "app_only f \<longleftrightarrow> (\<forall>ms d. \<exists>a. snd (f ms d) = d\<lparr>app := a\<rparr>)"

lemma app_onlyD: "app_only f \<Longrightarrow> f ms d = (r, d') \<Longrightarrow> \<exists>a. d' = d\<lparr>app := a\<rparr>"
  unfolding app_only_def by (metis snd_conv)

lemma app_only_NopFlusher: "app_only NopFlusher_Flush"
proof -
  have "\<exists>a. d = d\<lparr>app := a\<rparr>" for d :: "'a db" by (rule exI [of _ "app d"]) simp
  then show ?thesis by (simp add: app_only_def NopFlusher_Flush_def)
qed

section \<open>Properties\<close>

text \<open>A call that fails changes nothing, whichever step failed: unless the answer of the commit
  itself was lost, every table is as before (the identity sequence alone never goes back).\<close>

theorem ProcessMessages_atomic:
  assumes "ProcessMessages o1 e t popts d = (Inl er, fl, d')"
    and "\<forall>x. e_outcome e AtCommit \<noteq> Unacked x"
  shows "d' = d\<lparr>messages_id_seq := messages_id_seq d'\<rparr>"
  using assms(1)
  by (cases rule: ProcessMessages_cases) (use assms(2) in \<open>auto simp: rollback_def\<close>)

text \<open>C1: delivery and removal are one transaction. However a call ends, lost answers included,
  either the messages and the application's tables are both as before, or the flusher reported
  success on exactly the locked batch, what it wrote is there and exactly the batch is gone.\<close>

theorem ProcessMessages_exactly_once:
  assumes "ProcessMessages o1 e t popts d = (r, fl, d')"
  shows "(messages d' = messages d \<and> app d' = app d \<and> (\<forall>ms. r = Inr ms \<longrightarrow> ms = [])) \<or>
    (\<exists>f tx1. getFlusher o1 t = Some f \<and> batch_of e t popts d \<noteq> [] \<and>
       fl = Some (batch_of e t popts d) \<and> f (batch_of e t popts d) (begin_tx d) = (None, tx1) \<and>
       app d' = app tx1 \<and>
       messages d' = delete_where
         (\<lambda>m. m_Topic m = t \<and> m_ID m \<in> m_ID ` set (batch_of e t popts d)) (messages tx1) \<and>
       (\<forall>ms. r = Inr ms \<longrightarrow> ms = batch_of e t popts d))"
  using assms by (cases rule: ProcessMessages_cases) auto

text \<open>At least once. A message leaves the outbox through \<open>ProcessMessages\<close> only after the
  flusher of its topic was handed it and reported success.\<close>

theorem ProcessMessages_at_least_once:
  assumes "db_ok d" and "ProcessMessages o1 e t popts d = (r, fl, d')"
    and "getFlusher o1 t = Some f" and "\<And>ms tx. set (messages tx) \<subseteq> set (messages (snd (f ms tx)))"
    and "m \<in> set (messages d)" and "m \<notin> set (messages d')"
  shows "\<exists>batch. fl = Some batch \<and> m \<in> set batch \<and> m_Topic m = t \<and>
    fst (f batch (begin_tx d)) = None"
  using assms(2)
proof (cases rule: ProcessMessages_cases)
  case (flushed g tx1)
  let ?b = "batch_of e t popts d"
  have "set (messages (begin_tx d)) \<subseteq> set (messages (snd (f ?b (begin_tx d))))"
    by (rule assms(4))
  with flushed(1,3) assms(3) have "set (messages d) \<subseteq> set (messages tx1)" by simp
  with flushed(5) assms(5,6) obtain m' where m': "m' \<in> set ?b" "m_ID m' = m_ID m" "m_Topic m = t"
    by auto
  then have "m' = m"
    using message_unique [OF assms(1)] assms(5) batch_of_mem [OF m'(1)] by auto
  with m' flushed assms(3) show ?thesis by auto
qed (use assms(5,6) in auto)

text \<open>Without faults a call whose check passes does its work: it flushes the locked batch,
  returns it and leaves the topic's activity stamp fresh; on an empty topic it returns nothing
  and calls no flusher.\<close>

theorem ProcessMessages_success:
  assumes "no_faults e" and "getFlusher o1 t = Some f"
    and "checkExclusiveAccessForUpdate o1 e t d = None"
    and "f (batch_of e t popts d) (begin_tx d) = (None, tx1)"
  shows "ProcessMessages o1 e t popts d =
      (Inr (batch_of e t popts d),
       if batch_of e t popts d = [] then None else Some (batch_of e t popts d),
       if batch_of e t popts d = [] then commit_db (begin_tx d)
       else flushed_db e t (batch_of e t popts d) tx1) \<and>
    (\<forall>row. find_topic t (flushed_db e t (batch_of e t popts d) tx1) = Some row \<longrightarrow>
       \<not> stale_activity (e_now e AtBegin) row)"
proof
  have b: "AcquireMessagesByTopic (e_msg_locked e) t (Some (sint (batchSize (process_opts popts))))
      (begin_tx d) = batch_of e t popts d"
    by (simp add: batch_of_def AcquireMessagesByTopic_def)
  from assms b show "ProcessMessages o1 e t popts d =
      (Inr (batch_of e t popts d),
       if batch_of e t popts d = [] then None else Some (batch_of e t popts d),
       if batch_of e t popts d = [] then commit_db (begin_tx d)
       else flushed_db e t (batch_of e t popts d) tx1)"
    by (simp add: ProcessMessages_def Let_def commit_tx_def flushed_db_def)
next
  show "\<forall>row. find_topic t (flushed_db e t (batch_of e t popts d) tx1) = Some row \<longrightarrow>
       \<not> stale_activity (e_now e AtBegin) row"
    using flushed_db_fresh by blast
qed

text \<open>C10: the exclusive lease guards the work. On an exclusive topic an instance that is not the
  holder of a live lease gets \<open>ErrExclusiveLeaseHeld\<close> or
  \<open>ErrExclusiveLeaseRequired\<close>, its flusher is not called and nothing changes.\<close>

theorem ProcessMessages_needs_lease:
  assumes "getFlusher o1 t \<noteq> None" and "e_outcome e AtBegin = Done"
    and "e_outcome e AtGetTopicForUpdate = Done" and "lease_holder t d = Some c"
    and "c \<noteq> instanceID o1 \<or> \<not> valid_after (lease_expiry t d) (e_clock e AtLeaseCheck)"
  shows "\<exists>er. ProcessMessages o1 e t popts d = (Inl er, None, d) \<and>
    errors_Is er (if valid_after (lease_expiry t d) (e_clock e AtLeaseCheck)
                  then ErrExclusiveLeaseHeld else ErrExclusiveLeaseRequired)"
proof -
  from lease_holder_row [OF assms(4)] assms(3-5)
  obtain er where er: "checkExclusiveAccessForUpdate o1 e t d = Some er"
    "errors_Is er (if valid_after (lease_expiry t d) (e_clock e AtLeaseCheck)
                  then ErrExclusiveLeaseHeld else ErrExclusiveLeaseRequired)"
    by (cases "valid_after (lease_expiry t d) (e_clock e AtLeaseCheck)"; cases "c = instanceID o1")
      (auto simp: checkExclusiveAccessForUpdate_def GetTopicForUpdate_alt)
  with assms(1,2) show ?thesis
    by (intro exI [of _ er]) (auto simp: ProcessMessages_def Let_def)
qed


text \<open>With a flusher that writes only the application's tables a call keeps the invariant of
  the schema and the promise that maintenance reads from the activity stamps.\<close>

theorem ProcessMessages_invariants:
  assumes "db_ok d" and "activity_ok d" and "ProcessMessages o1 e t popts d = (r, fl, d')"
    and "\<And>f. getFlusher o1 t = Some f \<Longrightarrow> app_only f" and "messages_until (e_now e AtBegin) d"
  shows "db_ok d' \<and> activity_ok d' \<and> set (messages d') \<subseteq> set (messages d) \<and>
    (\<forall>u. lease_holder u d' = lease_holder u d \<and> lease_expiry u d' = lease_expiry u d) \<and>
    maintenance_leases d' = maintenance_leases d"
  using assms(3)
proof (cases rule: ProcessMessages_cases)
  case refused
  with assms(1,2) show ?thesis by simp
next
  case empty
  then have "messages d' = messages d" "topics d' = topics d"
    "consumer_sessions d' = consumer_sessions d" "db_ok d' = db_ok d"
    "maintenance_leases d' = maintenance_leases d"
    by auto
  with assms(1,2) activity_ok_cong lease_cong(1,4) show ?thesis by (metis order_refl)
next
  case (undone er f er' tx1)
  with app_onlyD [OF assms(4)] obtain a where "tx1 = (begin_tx d)\<lparr>app := a\<rparr>" by metis
  with undone(6) have "d' = d" by (simp add: rollback_def)
  with assms(1,2) show ?thesis by simp
next
  case (flushed f tx1)
  with app_onlyD [OF assms(4)] obtain a where tx1: "tx1 = (begin_tx d)\<lparr>app := a\<rparr>" by metis
  let ?b = "batch_of e t popts d"
  have ok: "db_ok d'" using flushed(5) tx1 assms(1) by (simp add: db_ok_flushed_db)
  have sub: "set (messages d') \<subseteq> set (messages d)" using flushed(5) tx1 by auto
  have row: "find_topic u d' = map_option (\<lambda>r. if t_Topic r = t \<and> stale_activity (e_now e AtBegin) r
      then r\<lparr>t_LastInsertedAt := Some (e_now e AtBegin)\<rparr> else r) (find_topic u d)" for u
    using flushed(5) tx1 by (simp add: flushed_db_def DeleteMessagesByIds_def)
  have lease: "lease_holder u d' = lease_holder u d" and exp: "lease_expiry u d' = lease_expiry u d" for u
    using flushed(5) tx1 by simp_all
  have act: "activity_ok d'"
    unfolding activity_ok_iff
  proof
    fix m
    assume "m \<in> set (messages d')"
    with sub have m: "m \<in> set (messages d)" by blast
    with assms(5) have until: "m_InsertedAt m \<le> e_now e AtBegin"
      by (simp add: messages_until_def list_all_iff)
    from m assms(2) obtain q where q: "find_topic (m_Topic m) d = Some q"
      "\<And>l. t_LastInsertedAt q = Some l \<Longrightarrow> m_InsertedAt m \<le> l + bump_granularity"
      unfolding activity_ok_iff by blast
    then show "\<exists>r. find_topic (m_Topic m) d' = Some r \<and>
        (\<forall>l. t_LastInsertedAt r = Some l \<longrightarrow> m_InsertedAt m \<le> l + bump_granularity)"
      using until by (auto simp: row stale_activity_def bump_granularity_def split: option.splits)
  qed
  show ?thesis using ok act sub lease exp flushed(5) tx1 by simp
qed


section \<open>Witnesses\<close>

text \<open>An instance with the no-op flusher on topic \<open>b\<close>, of which the sample database holds two
  messages.\<close>

definition sample_consumer :: "uuid \<Rightarrow> unit outboxImpl" where
  "sample_consumer i = AddFlusher ''b'' NopFlusher_Flush (sample_outbox i)"

lemma sample_consumer_simps [simp]:
  "instanceID (sample_consumer i) = i"
  "getFlusher (sample_consumer i) t = (if t = ''b'' then Some NopFlusher_Flush else None)"
  by (simp_all add: sample_consumer_def AddFlusher_def getFlusher_def)

lemma Nop_simps [simp]: "NopFlusher_Flush ms tx = (None, tx)"
  by (simp add: NopFlusher_Flush_def)

lemma sample_db_lease [simp]: "lease_holder t sample_db = None"
  by (simp add: lease_holder_def sample_db_def sample_topic_def empty_db_def)

lemma sample_check [simp]:
  "checkExclusiveAccessForUpdate o1 (quiet_env n) t sample_db = None"
  by (simp add: checkExclusiveAccessForUpdate_def GetTopicForUpdate_alt)

lemma sample_batch:
  "map m_ID (batch_of (quiet_env n) ''b'' [WithBatchSize 1] sample_db) = [2]"
  by (simp add: batch_of_def AcquireMessagesByTopic_alt claimable_messages_def sample_db_def
      sample_message_def empty_db_def process_opts_def defaultProcessOpts_def MaxInt32_def)

lemma sample_process:
  "ProcessMessages (sample_consumer 1) (quiet_env n) ''b'' popts sample_db =
     (Inr (batch_of (quiet_env n) ''b'' popts sample_db),
      if batch_of (quiet_env n) ''b'' popts sample_db = [] then None
      else Some (batch_of (quiet_env n) ''b'' popts sample_db),
      if batch_of (quiet_env n) ''b'' popts sample_db = [] then commit_db (begin_tx sample_db)
      else flushed_db (quiet_env n) ''b'' (batch_of (quiet_env n) ''b'' popts sample_db)
        (begin_tx sample_db))"
proof -
  have b: "AcquireMessagesByTopic (e_msg_locked (quiet_env n)) ''b''
      (Some (sint (batchSize (process_opts popts)))) (begin_tx sample_db) =
      batch_of (quiet_env n) ''b'' popts sample_db"
    by (simp add: batch_of_def AcquireMessagesByTopic_def)
  then show ?thesis
    by (simp add: ProcessMessages_def Let_def commit_tx_def flushed_db_def)
qed

theorem ProcessMessages_success_witness:
  "ProcessMessages (sample_consumer 1) (quiet_env 50) ''b'' [WithBatchSize 1] sample_db =
     (Inr (batch_of (quiet_env 50) ''b'' [WithBatchSize 1] sample_db),
      Some (batch_of (quiet_env 50) ''b'' [WithBatchSize 1] sample_db),
      flushed_db (quiet_env 50) ''b'' (batch_of (quiet_env 50) ''b'' [WithBatchSize 1] sample_db)
        (begin_tx sample_db)) \<and>
   map m_ID (batch_of (quiet_env 50) ''b'' [WithBatchSize 1] sample_db) = [2]"
proof -
  have ne: "batch_of (quiet_env 50) ''b'' [WithBatchSize 1] sample_db \<noteq> []"
    using sample_batch [of 50] by auto
  have "no_faults (quiet_env 50)" "getFlusher (sample_consumer 1) ''b'' = Some NopFlusher_Flush"
    "checkExclusiveAccessForUpdate (sample_consumer 1) (quiet_env 50) ''b'' sample_db = None"
    "NopFlusher_Flush (batch_of (quiet_env 50) ''b'' [WithBatchSize 1] sample_db) (begin_tx sample_db) =
      (None, begin_tx sample_db)"
    by simp_all
  from ProcessMessages_success [OF this] ne sample_batch [of 50] show ?thesis by simp
qed

theorem ProcessMessages_exactly_once_witness:
  "\<exists>r fl d'. ProcessMessages (sample_consumer 1) (quiet_env 50) ''b'' [WithBatchSize 1] sample_db = (r, fl, d') \<and>
     messages d' = delete_where (\<lambda>m. m_Topic m = ''b'' \<and> m_ID m = 2) (messages sample_db)"
proof -
  let ?b = "batch_of (quiet_env 50) ''b'' [WithBatchSize 1] sample_db"
  have ids: "m_ID ` set ?b = {2}" using sample_batch [of 50] by (metis list.set(1,2) set_map)
  then have ne: "?b \<noteq> []" by auto
  obtain r fl d' where p: "ProcessMessages (sample_consumer 1) (quiet_env 50) ''b'' [WithBatchSize 1] sample_db = (r, fl, d')"
    and r: "r = Inr ?b"
    by (simp add: sample_process)
  from ProcessMessages_exactly_once [OF p] r ne ids have
    "messages d' = delete_where (\<lambda>m. m_Topic m = ''b'' \<and> m_ID m = 2) (messages sample_db)"
    by auto
  with p show ?thesis by blast
qed

theorem ProcessMessages_atomic_witness:
  "\<exists>er fl d'. ProcessMessages (sample_consumer 1)
      ((quiet_env 50)\<lparr>e_outcome := (\<lambda>_. Done)(AtDeleteMessagesByIds := Failed CtxCanceled)\<rparr>)
      ''b'' [] sample_db = (Inl er, fl, d') \<and> messages d' = messages sample_db"
proof -
  let ?e = "(quiet_env 50)\<lparr>e_outcome := (\<lambda>_. Done)(AtDeleteMessagesByIds := Failed CtxCanceled)\<rparr>"
  obtain r fl d' where p: "ProcessMessages (sample_consumer 1) ?e ''b'' [] sample_db = (r, fl, d')"
    by (cases "ProcessMessages (sample_consumer 1) ?e ''b'' [] sample_db")
  have b: "AcquireMessagesByTopic (\<lambda>_ _. False) ''b'' (Some (sint (batchSize (process_opts []))))
      (begin_tx sample_db) \<noteq> []"
    by (subst AcquireMessagesByTopic_Nil)
      (simp_all add: claimable_messages_def sample_db_def sample_message_def empty_db_def)
  have c: "checkExclusiveAccessForUpdate (sample_consumer 1) ?e ''b'' sample_db = None"
    by (simp add: checkExclusiveAccessForUpdate_def GetTopicForUpdate_alt)
  have "e_msg_locked ?e = (\<lambda>_ _. False)" by (simp add: quiet_env_def)
  with p b c obtain er where er: "r = Inl er"
    by (auto simp: ProcessMessages_def Let_def)
  have "\<forall>x. e_outcome ?e AtCommit \<noteq> Unacked x" by simp
  from ProcessMessages_atomic [OF p [unfolded er] this] have "messages d' = messages sample_db"
    by (metis db.select_convs(1) db.surjective db.update_convs(5))
  with p er show ?thesis by blast
qed

theorem ProcessMessages_at_least_once_witness:
  "\<exists>r fl d' m batch. ProcessMessages (sample_consumer 1) (quiet_env 50) ''b'' [] sample_db = (r, fl, d') \<and>
     m \<in> set (messages sample_db) \<and> m \<notin> set (messages d') \<and> fl = Some batch \<and> m \<in> set batch"
proof -
  let ?b = "batch_of (quiet_env 50) ''b'' [] sample_db"
  obtain r fl d' where p: "ProcessMessages (sample_consumer 1) (quiet_env 50) ''b'' [] sample_db = (r, fl, d')"
    by (cases "ProcessMessages (sample_consumer 1) (quiet_env 50) ''b'' [] sample_db")
  have "?b \<noteq> []"
    unfolding batch_of_def
    by (subst AcquireMessagesByTopic_Nil)
      (simp_all add: claimable_messages_def sample_db_def sample_message_def empty_db_def quiet_env_def)
  then obtain m where m: "m \<in> set ?b" by (meson hd_in_set)
  with p \<open>?b \<noteq> []\<close> have gone: "m \<notin> set (messages d')" and stored: "m \<in> set (messages sample_db)"
    by (auto simp: sample_process dest: batch_of_mem)
  have g: "getFlusher (sample_consumer 1) ''b'' = Some NopFlusher_Flush" by simp
  have "\<And>ms tx. set (messages tx) \<subseteq> set (messages (snd (NopFlusher_Flush ms tx)))" by simp
  from ProcessMessages_at_least_once [OF db_ok_sample p g this stored gone] p stored gone
  show ?thesis by blast
qed

theorem ProcessMessages_needs_lease_witness:
  "\<exists>er. ProcessMessages (AddFlusher ''a'' NopFlusher_Flush (sample_outbox 2)) (quiet_env 5) ''a'' [] held_db =
      (Inl er, None, held_db) \<and> errors_Is er ErrExclusiveLeaseHeld"
proof -
  let ?o = "AddFlusher ''a'' NopFlusher_Flush (sample_outbox 2) :: unit outboxImpl"
  have "getFlusher ?o ''a'' \<noteq> None" "e_outcome (quiet_env 5) AtBegin = Done"
    "e_outcome (quiet_env 5) AtGetTopicForUpdate = Done"
    "lease_holder ''a'' held_db = Some 1"
    "1 \<noteq> instanceID ?o \<or> \<not> valid_after (lease_expiry ''a'' held_db) (e_clock (quiet_env 5) AtLeaseCheck)"
    by (simp_all add: getFlusher_def AddFlusher_def)
  from ProcessMessages_needs_lease [OF this, of "[]"] show ?thesis by simp
qed

theorem ProcessMessages_invariants_witness:
  "db_ok (snd (snd (ProcessMessages (sample_consumer 1) (quiet_env 50) ''b'' [] sample_db)))"
proof -
  obtain r fl d' where p: "ProcessMessages (sample_consumer 1) (quiet_env 50) ''b'' [] sample_db = (r, fl, d')"
    by (cases "ProcessMessages (sample_consumer 1) (quiet_env 50) ''b'' [] sample_db")
  have a: "activity_ok sample_db"
    by (simp add: activity_ok_def sample_db_def sample_message_def sample_topic_def empty_db_def
        bump_granularity_def)
  have u: "messages_until (e_now (quiet_env 50) AtBegin) sample_db"
    by (simp add: messages_until_def sample_db_def sample_message_def empty_db_def)
  have "app_only f" if "getFlusher (sample_consumer 1) ''b'' = Some f" for f
    using that app_only_NopFlusher by auto
  from ProcessMessages_invariants [OF db_ok_sample a p this u] p show ?thesis by simp
qed

end
