(* ===== verification/Go_Channels.thy ===== *)
theory Go_Channels
  imports Outbox_Prelude
begin

text \<open>
  Buffered Go channels: a queue with a capacity and a closed flag. A non-blocking send
  (\<open>select\<close> with a \<open>default\<close> arm) panics on a closed channel, which is \<open>None\<close>; a
  non-blocking receive that would block is \<open>WouldBlock\<close>.
\<close>

record 'm chan =
  ch_cap :: nat
  ch_buf :: "'m list"
  ch_closed :: bool

definition chan_make :: "nat \<Rightarrow> 'm chan" where
  "chan_make n = \<lparr>ch_cap = n, ch_buf = [], ch_closed = False\<rparr>"

definition chan_try_send :: "'m \<Rightarrow> 'm chan \<Rightarrow> (bool \<times> 'm chan) option" where
  "chan_try_send m ch =
     (if ch_closed ch then None
      else if length (ch_buf ch) < ch_cap ch then Some (True, ch\<lparr>ch_buf := ch_buf ch @ [m]\<rparr>)
      else Some (False, ch))"

datatype 'm received = Value 'm | ClosedEmpty | WouldBlock

definition chan_try_recv :: "'m chan \<Rightarrow> 'm received \<times> 'm chan" where
  "chan_try_recv ch =
     (case ch_buf ch of
        m # ms \<Rightarrow> (Value m, ch\<lparr>ch_buf := ms\<rparr>)
      | [] \<Rightarrow> (if ch_closed ch then ClosedEmpty else WouldBlock, ch))"

text \<open>\<open>close(ch)\<close> panics on a channel that is closed already.\<close>

definition chan_close :: "'m chan \<Rightarrow> 'm chan option" where
  "chan_close ch = (if ch_closed ch then None else Some (ch\<lparr>ch_closed := True\<rparr>))"

lemma chan_make_simps [simp]:
  "ch_cap (chan_make n) = n" "ch_buf (chan_make n) = []" "ch_closed (chan_make n) = False"
  by (simp_all add: chan_make_def)

end
