(* ===== verification/Subscriber.thy ===== *)
theory Subscriber
  imports Consumer Go_Channels
begin

text \<open>
  \<open>Subscribe\<close> and the drain it repeats (\<open>subscribe.go\<close>). A loop that waits for the
  outside world is a function of a script: the environment of each pass, what the other
  instances did to the database before it, whether the context had ended, what woke the wait. A
  script that runs out gives \<open>None\<close>: the call has not returned yet.
\<close>

section \<open>Draining a topic\<close>

record 'a pass_round =
  pr_ctx_err :: "go_err option"
  pr_others :: "'a db \<Rightarrow> 'a db"
  pr_env :: env

text \<open>The error that ended the pass, the batches that were processed, and the database.\<close>

fun processTopicUntilEmpty ::
  "'a outboxImpl \<Rightarrow> topic \<Rightarrow> ProcessOpt list \<Rightarrow> 'a pass_round list \<Rightarrow> 'a db
     \<Rightarrow> go_err option option \<times> Message list list \<times> 'a db" where
  "processTopicUntilEmpty o1 topic popts [] d = (None, [], d)"
| "processTopicUntilEmpty o1 topic popts (r # rs) d =
     (case pr_ctx_err r of
        Some er \<Rightarrow> (Some (Some er), [], d)
      | None \<Rightarrow>
          (case ProcessMessages o1 (pr_env r) topic popts (pr_others r d) of
             (Inl er, fl, d') \<Rightarrow> (Some (Some er), [], d')
           | (Inr msgs, fl, d') \<Rightarrow>
               (if msgs = [] then (Some None, [], d')
                else (case processTopicUntilEmpty o1 topic popts rs d' of
                        (res, bs, d'') \<Rightarrow> (res, msgs # bs, d'')))))"

text \<open>The error line of a pass: every failure but a cancelled context.\<close>

definition pass_log :: "go_err option \<Rightarrow> go_err option" where
  "pass_log er = (case er of None \<Rightarrow> None
     | Some x \<Rightarrow> if errors_Is x ContextCanceled then None else Some x)"

definition isExclusiveLeaseError :: "go_err option \<Rightarrow> bool" where
  "isExclusiveLeaseError er = (case er of None \<Rightarrow> False
     | Some x \<Rightarrow> errors_Is x ErrExclusiveLeaseHeld \<or> errors_Is x ErrExclusiveLeaseRequired)"

section \<open>The subscription loop\<close>

text \<open>\<open>drainNotifications\<close>: receive until the channel is closed or would block.\<close>

function drain_chan :: "'m chan \<Rightarrow> 'm chan" where
  "drain_chan ch =
     (case chan_try_recv ch of
        (Value m, ch') \<Rightarrow> drain_chan ch'
      | (ClosedEmpty, ch') \<Rightarrow> ch'
      | (WouldBlock, ch') \<Rightarrow> ch')"
  by pat_completeness auto
termination
  by (relation "measure (length \<circ> ch_buf)")
    (auto simp: chan_try_recv_def split: list.splits if_splits)

declare drain_chan.simps [simp del]

definition drainNotifications :: "'m chan option \<Rightarrow> 'm chan option" where
  "drainNotifications ch = map_option drain_chan ch"

text \<open>What the \<open>select\<close> at the end of a round takes: the end of the context, the poll timer, or
  the notification channel, which is a message or the news that it was closed.\<close>

datatype wake = CtxDone go_err | PollTick | NotificationReady

record 'a sub_round =
  sr_passes :: "'a pass_round list"
  sr_acquire :: "'a acquire_round list"
  sr_ctx_err :: "go_err option"
  sr_wake :: wake
  sr_deliveries :: "PubSubMessage chan \<Rightarrow> PubSubMessage chan"

fun Subscribe_loop ::
  "'a outboxImpl \<Rightarrow> ctx \<Rightarrow> topic \<Rightarrow> subscribeOpts \<Rightarrow> 'a sub_round list
     \<Rightarrow> PubSubMessage chan option \<Rightarrow> watched \<Rightarrow> 'a db
     \<Rightarrow> (go_err option \<times> watched \<times> 'a db) option" where
  "Subscribe_loop o1 c topic so [] notifications w d = None"
| "Subscribe_loop o1 c topic so (r # rs) notifications w d =
     (let notifications1 = drainNotifications notifications in
      case processTopicUntilEmpty o1 topic (so_processOpts so) (sr_passes r) d of
        (None, bs, d1) \<Rightarrow> None
      | (Some er, bs, d1) \<Rightarrow>
          (let notifications2 = map_option (sr_deliveries r) notifications1;
               wait = (\<lambda>w d.
                 case sr_wake r of
                   CtxDone ce \<Rightarrow> Some (Some ce, w, d)
                 | PollTick \<Rightarrow> Subscribe_loop o1 c topic so rs notifications2 w d
                 | NotificationReady \<Rightarrow>
                     (case notifications2 of
                        None \<Rightarrow> None
                      | Some ch \<Rightarrow>
                          (case chan_try_recv ch of
                             (Value m, ch') \<Rightarrow> Subscribe_loop o1 c topic so rs (Some ch') w d
                           | (ClosedEmpty, ch') \<Rightarrow> Subscribe_loop o1 c topic so rs None w d
                           | (WouldBlock, ch') \<Rightarrow> None)))
           in if exclusive so \<and> isExclusiveLeaseError er
              then (case AcquireTopic o1 c topic (sr_acquire r) w d1 of
                      None \<Rightarrow> None
                    | Some (None, w', d2) \<Rightarrow> Subscribe_loop o1 c topic so rs notifications2 w' d2
                    | Some (Some acqErr, w', d2) \<Rightarrow>
                        (case sr_ctx_err r of Some ce \<Rightarrow> Some (Some ce, w', d2) | None \<Rightarrow> wait w' d2))
              else wait w d1))"

record 'a sub_script =
  ss_acquire :: "'a acquire_round list"
  ss_sub :: "go_err + PubSubMessage chan"
  ss_rounds :: "'a sub_round list"
  ss_release :: env

definition Subscribe_body ::
  "'a outboxImpl \<Rightarrow> ctx \<Rightarrow> topic \<Rightarrow> subscribeOpts \<Rightarrow> 'a sub_script \<Rightarrow> watched \<Rightarrow> 'a db
     \<Rightarrow> (go_err option \<times> watched \<times> 'a db) option" where
  "Subscribe_body o1 c topic so ss w d =
     (case pubsub o1 of
        None \<Rightarrow> Subscribe_loop o1 c topic so (ss_rounds ss) None w d
      | Some ps \<Rightarrow>
          (case ss_sub ss of
             Inl er \<Rightarrow>
               Some (Some (Wrap ''could not subscribe to notifications for topic'' topic er), w, d)
           | Inr ch \<Rightarrow> Subscribe_loop o1 c topic so (ss_rounds ss) (Some ch) w d))"

definition Subscribe ::
  "'a outboxImpl \<Rightarrow> ctx \<Rightarrow> topic \<Rightarrow> SubscribeOpt list \<Rightarrow> 'a sub_script \<Rightarrow> watched \<Rightarrow> 'a db
     \<Rightarrow> (go_err option \<times> watched \<times> 'a db) option" where
  "Subscribe o1 c topic sopts ss w d =
     (if topic = [] then Some (Some (Errorf ''topic must not be empty'' []), w, d)
      else if getFlusher o1 topic = None
      then Some (Some (Errorf ''no flusher registered for topic'' topic), w, d)
      else (let so = subscribe_opts sopts in
        if exclusive so
        then (case AcquireTopic o1 c topic (ss_acquire ss) w d of
                None \<Rightarrow> None
              | Some (Some er, w', d') \<Rightarrow>
                  Some (Some (Wrap ''could not acquire exclusive lease for topic'' topic er), w', d')
              | Some (None, w', d') \<Rightarrow>
                  (case Subscribe_body o1 c topic so ss w' d' of
                     None \<Rightarrow> None
                   | Some (er, w1, d1) \<Rightarrow>
                       (case ReleaseTopic o1 (ss_release ss) topic w1 d1 of
                          (rel, w2, d2) \<Rightarrow> Some (er, w2, d2))))
        else Subscribe_body o1 c topic so ss w d))"

lemma drain_chan_empty: "ch_buf (drain_chan ch) = []"
proof (induction ch rule: drain_chan.induct)
  case (1 ch)
  show ?case
  proof (cases "ch_buf ch")
    case Nil
    then show ?thesis by (subst drain_chan.simps) (simp add: chan_try_recv_def)
  next
    case (Cons m ms)
    then have "chan_try_recv ch = (Value m, ch\<lparr>ch_buf := ms\<rparr>)" by (simp add: chan_try_recv_def)
    with "1" show ?thesis by (subst drain_chan.simps) simp
  qed
qed

section \<open>A drain empties its topic\<close>

definition topic_messages :: "topic \<Rightarrow> 'a db \<Rightarrow> Message list" where
  "topic_messages t d = sort_key m_ID (filter (\<lambda>m. m_Topic m = t) (messages d))"

text \<open>A round without faults or interference, in which the check passes and no message is locked.\<close>

definition clear_round :: "'a outboxImpl \<Rightarrow> topic \<Rightarrow> 'a db \<Rightarrow> 'a pass_round \<Rightarrow> bool" where
  "clear_round o1 t d r \<longleftrightarrow> pr_ctx_err r = None \<and> pr_others r = id \<and> no_faults (pr_env r) \<and>
     e_msg_locked (pr_env r) = (\<lambda>_ _. False) \<and> checkExclusiveAccessForUpdate o1 (pr_env r) t d = None"

lemma topic_messages_sorted:
  "distinct (map m_ID (messages d)) \<Longrightarrow> sorted_wrt (<) (map m_ID (topic_messages t d))"
  unfolding topic_messages_def by (rule sort_key_strict) (simp add: distinct_map_filter)

lemmas topic_messages_strict = topic_messages_sorted [OF db_okD(4)]

lemma batch_of_clear:
  "e_msg_locked e = (\<lambda>_ _. False) \<Longrightarrow>
     batch_of e t popts d = take (nat (sint (batchSize (process_opts popts)))) (topic_messages t d)"
  by (simp add: batch_of_def AcquireMessagesByTopic_def topic_messages_def)

text \<open>What the commit of a pass leaves of the topic: the rest of the queue, in its order.\<close>

lemma sorted_key_unique:
  fixes f :: "'b \<Rightarrow> int"
  assumes "sorted_wrt (<) (map f xs)" and "sorted_wrt (<) (map f ys)" and "set xs = set ys"
    and "inj_on f (set xs)"
  shows "xs = ys"
proof -
  have "map f xs = map f ys"
    using assms(1-3) by (intro sorted_distinct_set_unique) (auto simp: strict_sorted_iff)
  with assms(3,4) show ?thesis by (metis map_inj_on sup.idem)
qed

lemma topic_messages_flushed:
  assumes ok: "db_ok d" and tx: "messages tx = messages d"
  shows "topic_messages t (flushed_db e t (take n (topic_messages t d)) tx) = drop n (topic_messages t d)"
proof -
  let ?q = "topic_messages t d"
  let ?d' = "flushed_db e t (take n ?q) tx"
  have q: "set ?q = {m \<in> set (messages d). m_Topic m = t}" by (auto simp: topic_messages_def)
  have st: "sorted_wrt (<) (map m_ID ?q)" by (rule topic_messages_strict [OF ok])
  then have dq: "distinct ?q" and inj: "inj_on m_ID (set ?q)"
    by (auto simp: strict_sorted_iff distinct_map)
  have ids: "distinct (map m_ID (messages ?d'))"
    using ok tx by (simp add: db_okD(4) distinct_delete_where)
  have "set (topic_messages t ?d') = {m \<in> set ?q. m_ID m \<notin> m_ID ` set (take n ?q)}"
    using q tx by (auto simp: topic_messages_def)
  also have "\<dots> = {m \<in> set ?q. m \<notin> set (take n ?q)}"
    using inj by (auto simp: inj_on_def dest: in_set_takeD)
  also have "\<dots> = set (drop n ?q)"
  proof -
    have "set ?q = set (take n ?q) \<union> set (drop n ?q)"
      by (metis append_take_drop_id set_append)
    moreover have "set (take n ?q) \<inter> set (drop n ?q) = {}"
      by (rule set_take_disj_set_drop_if_distinct [OF dq order_refl])
    ultimately show ?thesis by blast
  qed
  finally have "set (topic_messages t ?d') = set (drop n ?q)" .
  moreover have "sorted_wrt (<) (map m_ID (topic_messages t ?d'))"
    by (rule topic_messages_sorted [OF ids])
  moreover have "sorted_wrt (<) (map m_ID (drop n ?q))"
    using st by (metis append_take_drop_id map_append sorted_wrt_append)
  moreover have "inj_on m_ID (set (topic_messages t ?d'))"
    using inj calculation(1) by (metis inj_on_subset set_drop_subset)
  ultimately show ?thesis by (intro sorted_key_unique [where f = m_ID])
qed


lemma check_flushed:
  assumes "no_faults e'"
  shows "checkExclusiveAccessForUpdate o1 e' t (flushed_db e t ms ((begin_tx d)\<lparr>app := a\<rparr>)) =
    checkExclusiveAccessForUpdate o1 e' t d"
  using assms by (simp add: check_alt split: option.split)

text \<open>One round without faults or interference.\<close>

lemma clear_batch:
  assumes "clear_round o1 t d r"
  shows "AcquireMessagesByTopic (e_msg_locked (pr_env r)) t (Some (sint (batchSize (process_opts popts)))) (begin_tx d) =
    take (nat (sint (batchSize (process_opts popts)))) (topic_messages t d)"
  using batch_of_clear [of "pr_env r" t popts d] assms
  by (simp add: clear_round_def batch_of_def AcquireMessagesByTopic_def)

lemma clear_empty:
  assumes "clear_round o1 t d r" "getFlusher o1 t = Some f" "topic_messages t d = []"
  shows "ProcessMessages o1 (pr_env r) t popts (pr_others r d) = (Inr [], None, commit_db (begin_tx d))"
  using assms(1,2) clear_batch [OF assms(1), of popts] assms(3)
  by (simp add: clear_round_def ProcessMessages_def Let_def commit_tx_def)

lemma clear_process:
  fixes popts :: "ProcessOpt list"
  assumes "clear_round o1 t d r" "getFlusher o1 t = Some f" "app_only f" "\<forall>ms tx. fst (f ms tx) = None"
    and "topic_messages t d \<noteq> []"
  defines "b \<equiv> take (nat (sint (batchSize (process_opts popts)))) (topic_messages t d)"
  obtains a where "b \<noteq> []"
    "ProcessMessages o1 (pr_env r) t popts (pr_others r d) =
       (Inr b, Some b, flushed_db (pr_env r) t b ((begin_tx d)\<lparr>app := a\<rparr>))"
proof -
  have "0 < nat (sint (batchSize (process_opts popts)))" by simp
  with assms(5) have ne: "b \<noteq> []" unfolding b_def by (metis take_eq_Nil less_irrefl)
  obtain a where f: "f b (begin_tx d) = (None, (begin_tx d)\<lparr>app := a\<rparr>)"
    using assms(3,4) unfolding app_only_def by (metis prod.collapse)
  have "ProcessMessages o1 (pr_env r) t popts (pr_others r d) =
      (Inr b, Some b, flushed_db (pr_env r) t b ((begin_tx d)\<lparr>app := a\<rparr>))"
    using assms(1,2) clear_batch [OF assms(1), of popts] ne f
    by (simp add: b_def [symmetric] clear_round_def ProcessMessages_def Let_def commit_tx_def flushed_db_def)
  with ne show thesis by (rule that)
qed

text \<open>C16: a pass drains its topic. Without faults and without interference it ends, with no error,
  after at most one round per message and one more; the batches it processed, put one after
  the other, are all the messages of the topic in the order of their ids, none is left, and the
  other topics keep theirs.\<close>

theorem processTopicUntilEmpty_drains:
  assumes "db_ok d" and "getFlusher o1 t = Some f" and "app_only f" and "\<forall>ms tx. fst (f ms tx) = None"
    and "list_all (clear_round o1 t d) rs" and "length (topic_messages t d) < length rs"
  shows "\<exists>bs d'. processTopicUntilEmpty o1 t popts rs d = (Some None, bs, d') \<and>
    concat bs = topic_messages t d \<and> topic_messages t d' = [] \<and>
    (\<forall>u. u \<noteq> t \<longrightarrow> topic_messages u d' = topic_messages u d)"
  using assms
proof (induction rs arbitrary: d)
  case Nil
  then show ?case by simp
next
  case (Cons r rs)
  let ?n = "nat (sint (batchSize (process_opts popts)))"
  let ?q = "topic_messages t d"
  have clear: "clear_round o1 t d r" and r: "pr_ctx_err r = None" "pr_others r = id"
    using Cons.prems(5) by (simp_all add: clear_round_def)
  show ?case
  proof (cases "?q = []")
    case True
    with clear_empty [OF clear Cons.prems(2) True, of popts] r show ?thesis by (simp add: topic_messages_def)
  next
    case False
    obtain a where ne: "take ?n ?q \<noteq> []"
      and p: "ProcessMessages o1 (pr_env r) t popts (pr_others r d) =
        (Inr (take ?n ?q), Some (take ?n ?q), flushed_db (pr_env r) t (take ?n ?q) ((begin_tx d)\<lparr>app := a\<rparr>))"
      by (rule clear_process [OF clear Cons.prems(2-4) False])
    let ?d = "flushed_db (pr_env r) t (take ?n ?q) ((begin_tx d)\<lparr>app := a\<rparr>)"
    have q: "topic_messages t ?d = drop ?n ?q"
      by (rule topic_messages_flushed [OF Cons.prems(1)]) simp
    have other: "topic_messages u ?d = topic_messages u d" if "u \<noteq> t" for u
      using that by (simp add: topic_messages_def delete_where_def) (metis (mono_tags, lifting))
    have "db_ok ?d" using Cons.prems(1) by (simp add: db_ok_flushed_db)
    moreover have "list_all (clear_round o1 t ?d) rs"
      using Cons.prems(5) by (auto simp: list_all_iff clear_round_def check_flushed)
    moreover have "length (topic_messages t ?d) < length rs"
    proof -
      have "0 < length ?q" "0 < ?n" using False by simp_all
      with Cons.prems(6) show ?thesis unfolding q length_drop by (simp only: list.size)
    qed
    ultimately obtain bs d' where
      ih: "processTopicUntilEmpty o1 t popts rs ?d = (Some None, bs, d')"
        "concat bs = topic_messages t ?d" "topic_messages t d' = []"
        "\<forall>u. u \<noteq> t \<longrightarrow> topic_messages u d' = topic_messages u ?d"
      using Cons.IH [OF _ Cons.prems(2-4)] by blast
    from p ne r ih q other show ?thesis
      by (intro exI [of _ "take ?n ?q # bs"] exI [of _ d']) simp
  qed
qed



section \<open>Witnesses\<close>

definition quiet_pass :: "time \<Rightarrow> unit pass_round" where
  "quiet_pass n = \<lparr>pr_ctx_err = None, pr_others = id, pr_env = quiet_env n\<rparr>"

theorem processTopicUntilEmpty_drains_witness:
  "\<exists>bs d'. processTopicUntilEmpty (sample_consumer 1) ''b'' [WithBatchSize 1]
      [quiet_pass 50, quiet_pass 51, quiet_pass 52] sample_db = (Some None, bs, d') \<and>
    map m_ID (concat bs) = [2, 3] \<and> topic_messages ''b'' d' = []"
proof -
  have q: "map m_ID (topic_messages ''b'' sample_db) = [2, 3]"
    by (simp add: topic_messages_def sample_db_def sample_message_def empty_db_def)
  then have len: "length (topic_messages ''b'' sample_db) < length [quiet_pass 50, quiet_pass 51, quiet_pass 52]"
    by (metis length_map list.size(3,4) lessI One_nat_def add.right_neutral add_Suc_right)
  have "list_all (clear_round (sample_consumer 1) ''b'' sample_db) [quiet_pass 50, quiet_pass 51, quiet_pass 52]"
    by (simp add: clear_round_def quiet_pass_def) (simp add: quiet_env_def)
  moreover have "getFlusher (sample_consumer 1) ''b'' = Some NopFlusher_Flush"
    "\<forall>ms (tx :: unit db). fst (NopFlusher_Flush ms tx) = None"
    by simp_all
  ultimately show ?thesis
    using processTopicUntilEmpty_drains [OF db_ok_sample _ app_only_NopFlusher _ _ len, of "sample_consumer 1"
        "[WithBatchSize 1]"] q by metis
qed


end
