(* ===== verification/Sql_Names.thy ===== *)
theory Sql_Names
  imports Go_Runtime
begin

text \<open>
  Names inside SQL text: the check of a schema (and notify channel) name in \<open>migrate.go\<close> and
  the template rewriting of \<open>internal/dbwrap/wrap.go\<close>, which puts the schema in front of
  every table name marked \<open>/*tmpl*/ name /*tmpl*/\<close>. Strings are byte strings. The two
  regular expressions are written as the scanners they denote, and the replacement template
  is expanded as \<open>regexp.Expand\<close> does it, so that a \<open>$\<close> in a schema name would be
  seen. \<open>Identifier.Sanitize\<close> belongs to \<open>pgx\<close> and is a parameter.
\<close>

section \<open>Schema names\<close>

definition between :: "nat \<Rightarrow> nat \<Rightarrow> char \<Rightarrow> bool" where
  "between lo hi c \<longleftrightarrow> lo \<le> of_char c \<and> of_char c \<le> hi"

definition ident_start :: "char \<Rightarrow> bool" where
  "ident_start c \<longleftrightarrow> between 65 90 c \<or> between 97 122 c \<or> c = CHR ''_''"

definition ident_char :: "char \<Rightarrow> bool" where
  "ident_char c \<longleftrightarrow> ident_start c \<or> between 48 57 c"

definition schemaNameRE_MatchString :: "string \<Rightarrow> bool" where
  "schemaNameRE_MatchString s =
     (case s of [] \<Rightarrow> False
      | c # cs \<Rightarrow> ident_start c \<and> list_all ident_char cs \<and> length cs \<le> 62)"

definition validateSchemaName :: "string \<Rightarrow> go_err option" where
  "validateSchemaName schema =
     (if \<not> schemaNameRE_MatchString schema
      then Some (Errorf ''invalid schema name: must match the identifier pattern'' schema)
      else None)"

lemma ident_start_char: "ident_start c \<Longrightarrow> ident_char c"
  by (simp add: ident_char_def)

lemma schemaName_chars:
  "schemaNameRE_MatchString s \<Longrightarrow> list_all ident_char s"
  by (auto simp: schemaNameRE_MatchString_def ident_start_char split: list.splits)

lemma ident_char_not_special:
  "ident_char c \<Longrightarrow> c \<noteq> CHR 0x22 \<and> c \<noteq> CHR ''$'' \<and> c \<noteq> CHR ''/'' \<and> c \<noteq> CHR '' '' \<and>
     c \<noteq> CHR ''*'' \<and> c \<noteq> CHR ''.'' \<and> c \<noteq> CHR '';''"
  by (auto simp: ident_char_def ident_start_def between_def)

section \<open>The template scanner\<close>

definition is_space :: "char \<Rightarrow> bool" where
  "is_space c \<longleftrightarrow> of_char c \<in> {9, 10, 12, 13, 32 :: nat}"

definition tmpl_mark :: string where
  "tmpl_mark = ''/*tmpl*/''"

definition strip_prefix :: "string \<Rightarrow> string \<Rightarrow> string option" where
  "strip_prefix p s = (if take (length p) s = p then Some (drop (length p) s) else None)"

definition close_mark :: "string \<Rightarrow> string option" where
  "close_mark s = strip_prefix tmpl_mark (dropWhile is_space s)"

text \<open>The lazy \<open>\S+?\<close>: take one more character only while the rest does not close the mark.\<close>

fun lazy_name :: "string \<Rightarrow> (string \<times> string) option" where
  "lazy_name [] = None"
| "lazy_name (c # cs) =
     (if is_space c then None
      else (case close_mark cs of
        Some rest \<Rightarrow> Some ([c], rest)
      | None \<Rightarrow> map_option (\<lambda>(n, rest). (c # n, rest)) (lazy_name cs)))"

definition tmplRE_match :: "string \<Rightarrow> (string \<times> string) option" where
  "tmplRE_match s =
     (case strip_prefix tmpl_mark s of
        None \<Rightarrow> None
      | Some rest \<Rightarrow> lazy_name (dropWhile is_space rest))"

lemma strip_prefix_length: "strip_prefix p s = Some r \<Longrightarrow> length r \<le> length s"
  by (auto simp: strip_prefix_def split: if_splits)

lemma lazy_name_length: "lazy_name s = Some (n, r) \<Longrightarrow> length r < length s"
proof (induction s arbitrary: n)
  case Nil
  then show ?case by simp
next
  case (Cons c cs)
  show ?case
  proof (cases "close_mark cs")
    case None
    with Cons.prems obtain n' where "lazy_name cs = Some (n', r)"
      by (auto split: if_splits)
    then show ?thesis using Cons.IH by fastforce
  next
    case (Some rest)
    with Cons.prems have "rest = r" by (auto split: if_splits)
    with Some have "length r \<le> length (dropWhile is_space cs)"
      unfolding close_mark_def by (blast dest: strip_prefix_length)
    also have "\<dots> \<le> length cs" by (rule length_dropWhile_le)
    finally show ?thesis by simp
  qed
qed

lemma tmplRE_match_length: "tmplRE_match s = Some (n, r) \<Longrightarrow> length r < length s"
proof -
  assume "tmplRE_match s = Some (n, r)"
  then obtain q where q: "strip_prefix tmpl_mark s = Some q"
    and "lazy_name (dropWhile is_space q) = Some (n, r)"
    by (auto simp: tmplRE_match_def split: option.splits)
  then have "length r < length (dropWhile is_space q)" by (simp add: lazy_name_length)
  also have "\<dots> \<le> length q" by (rule length_dropWhile_le)
  also have "\<dots> \<le> length s" using q by (rule strip_prefix_length)
  finally show ?thesis .
qed

section \<open>The replacement template\<close>

text \<open>The name after a \<open>$\<close>, plain or in braces, and the template behind it.\<close>

definition expand_name :: "string \<Rightarrow> (string \<times> string) option" where
  "expand_name t =
     (case t of
        CHR ''{'' # u \<Rightarrow>
          (let n = takeWhile ident_char u; r = dropWhile ident_char u
           in if n = [] then None
              else case r of CHR ''}'' # r' \<Rightarrow> Some (n, r') | _ \<Rightarrow> None)
      | _ \<Rightarrow> (let n = takeWhile ident_char t
             in if n = [] then None else Some (n, dropWhile ident_char t)))"

lemma expand_name_length: "expand_name t = Some (n, r) \<Longrightarrow> length r \<le> length t"
  using length_dropWhile_le [of ident_char t] length_dropWhile_le [of ident_char "tl t"]
  by (auto simp: expand_name_def Let_def split: list.splits char.splits bool.splits if_splits)

function expand :: "string \<Rightarrow> string \<Rightarrow> string \<Rightarrow> string" where
  "expand whole sub1 t =
     (case t of
        [] \<Rightarrow> []
      | c # cs \<Rightarrow>
          if c \<noteq> CHR ''$'' then c # expand whole sub1 cs
          else if cs \<noteq> [] \<and> hd cs = CHR ''$'' then CHR ''$'' # expand whole sub1 (tl cs)
          else (case expand_name cs of
            None \<Rightarrow> CHR ''$'' # expand whole sub1 cs
          | Some (n, rest) \<Rightarrow>
              (if n = ''0'' then whole else if n = ''1'' then sub1 else []) @
              expand whole sub1 rest))"
  by pat_completeness auto
termination
  by (relation "measure (\<lambda>(w, s, t). length t)") (auto dest: expand_name_length)

declare expand.simps [simp del]

lemma expand_plain:
  "list_all (\<lambda>c. c \<noteq> CHR ''$'') t \<Longrightarrow> expand w s (t @ u) = t @ expand w s u"
proof (induction t)
  case Nil
  then show ?case by simp
next
  case (Cons c t)
  then show ?case by (simp add: expand.simps [of w s "c # t @ u"])
qed

lemma expand_group: "expand w s ''$1'' = s"
proof -
  have "ident_char CHR ''1''" by (simp add: ident_char_def between_def)
  then have "expand_name ''1'' = Some (''1'', [])" by (simp add: expand_name_def Let_def)
  then show ?thesis by (simp add: expand.simps [of w s "''$1''"] expand.simps [of w s "[]"])
qed

section \<open>The wrapper\<close>

record 'r DBTX =
  dbtx_Exec :: "string \<Rightarrow> 'r"
  dbtx_Query :: "string \<Rightarrow> 'r"
  dbtx_QueryRow :: "string \<Rightarrow> 'r"
  dbtx_CopyFrom :: "string list \<Rightarrow> string list \<Rightarrow> 'r"

record 'r Wrapper =
  w_dbtx :: "'r DBTX"
  w_schemaQual :: string
  w_schemaRaw :: string

definition dbwrap_New :: "(string \<Rightarrow> string) \<Rightarrow> 'r DBTX \<Rightarrow> string \<Rightarrow> 'r Wrapper" where
  "dbwrap_New sanitize tx schema =
     \<lparr>w_dbtx = tx, w_schemaQual = sanitize schema @ ''.'', w_schemaRaw = schema\<rparr>"

function replace_all :: "string \<Rightarrow> string \<Rightarrow> string" where
  "replace_all repl s =
     (case s of
        [] \<Rightarrow> []
      | c # cs \<Rightarrow>
          (case tmplRE_match s of
             None \<Rightarrow> c # replace_all repl cs
           | Some (n, rest) \<Rightarrow>
               expand (take (length s - length rest) s) n repl @ replace_all repl rest))"
  by pat_completeness auto
termination
  by (relation "measure (\<lambda>(q, s). length s)") (auto dest: tmplRE_match_length)

declare replace_all.simps [simp del]

definition Wrapper_rewrite :: "'r Wrapper \<Rightarrow> string \<Rightarrow> string" where
  "Wrapper_rewrite w sql = replace_all (w_schemaQual w @ ''$1'') sql"

definition Wrapper_Exec :: "'r Wrapper \<Rightarrow> string \<Rightarrow> 'r" where
  "Wrapper_Exec w sql = dbtx_Exec (w_dbtx w) (Wrapper_rewrite w sql)"

definition Wrapper_Query :: "'r Wrapper \<Rightarrow> string \<Rightarrow> 'r" where
  "Wrapper_Query w sql = dbtx_Query (w_dbtx w) (Wrapper_rewrite w sql)"

definition Wrapper_QueryRow :: "'r Wrapper \<Rightarrow> string \<Rightarrow> 'r" where
  "Wrapper_QueryRow w sql = dbtx_QueryRow (w_dbtx w) (Wrapper_rewrite w sql)"

definition Wrapper_CopyFrom :: "'r Wrapper \<Rightarrow> string list \<Rightarrow> string list \<Rightarrow> 'r" where
  "Wrapper_CopyFrom w table cols = dbtx_CopyFrom (w_dbtx w) (w_schemaRaw w # table) cols"

section \<open>What rewriting does to a query\<close>

text \<open>
  A query of the source is a list of segments: plain SQL text, then a marked table name; and a
  final piece of text. \<open>template_text\<close> is the query as written, \<open>qualified_text\<close> the
  query with every table name qualified.
\<close>

fun no_comment :: "string \<Rightarrow> bool" where
  "no_comment (c # d # cs) \<longleftrightarrow> \<not> (c = CHR ''/'' \<and> d = CHR ''*'') \<and> no_comment (d # cs)"
| "no_comment _ \<longleftrightarrow> True"

definition table_name :: "string \<Rightarrow> bool" where
  "table_name n \<longleftrightarrow> n \<noteq> [] \<and> list_all ident_char n"

fun template_text :: "(string \<times> string) list \<Rightarrow> string \<Rightarrow> string" where
  "template_text [] final = final"
| "template_text ((pre, name) # segs) final =
     pre @ tmpl_mark @ '' '' @ name @ '' '' @ tmpl_mark @ template_text segs final"

fun qualified_text :: "string \<Rightarrow> (string \<times> string) list \<Rightarrow> string \<Rightarrow> string" where
  "qualified_text qual [] final = final"
| "qualified_text qual ((pre, name) # segs) final =
     pre @ qual @ name @ qualified_text qual segs final"

fun well_marked :: "(string \<times> string) list \<Rightarrow> string \<Rightarrow> bool" where
  "well_marked [] final \<longleftrightarrow> no_comment final"
| "well_marked ((pre, name) # segs) final \<longleftrightarrow>
     no_comment pre \<and> table_name name \<and> well_marked segs final"

lemma strip_prefix_append [simp]: "strip_prefix p (p @ s) = Some s"
  by (simp add: strip_prefix_def)

lemma is_space_space [simp]: "is_space CHR '' ''"
  by (simp add: is_space_def)

lemma ident_char_not_space: "ident_char c \<Longrightarrow> \<not> is_space c"
  by (auto simp: ident_char_def ident_start_def between_def is_space_def)

lemma dropWhile_space_mark: "dropWhile is_space (tmpl_mark @ s) = tmpl_mark @ s"
  by (simp add: tmpl_mark_def is_space_def)

lemma close_mark_mark: "close_mark ('' '' @ tmpl_mark @ s) = Some s"
  by (simp add: close_mark_def dropWhile_space_mark)

lemma close_mark_ident:
  assumes "ident_char c"
  shows "close_mark (c # s) = None"
  using ident_char_not_space [OF assms] ident_char_not_special [OF assms]
  by (simp add: close_mark_def strip_prefix_def tmpl_mark_def)

lemma lazy_name_table:
  "table_name n \<Longrightarrow> lazy_name (n @ '' '' @ tmpl_mark @ s) = Some (n, s)"
proof (induction n)
  case Nil
  then show ?case by (simp add: table_name_def)
next
  case (Cons c n)
  then have c: "\<not> is_space c" and n: "list_all ident_char n"
    by (auto simp: table_name_def ident_char_not_space)
  show ?case
  proof (cases n)
    case Nil
    with c close_mark_mark [of s] show ?thesis by simp
  next
    case (Cons d n')
    with n have "close_mark (n @ '' '' @ tmpl_mark @ s) = None"
      by (simp add: close_mark_ident)
    moreover have "lazy_name (n @ '' '' @ tmpl_mark @ s) = Some (n, s)"
      using Cons n by (intro Cons.IH) (simp add: table_name_def)
    ultimately show ?thesis using c by simp
  qed
qed

lemma tmplRE_match_table:
  assumes "table_name n"
  shows "tmplRE_match (tmpl_mark @ '' '' @ n @ '' '' @ tmpl_mark @ s) = Some (n, s)"
proof -
  from assms obtain c n' where n: "n = c # n'" and "ident_char c"
    by (cases n) (auto simp: table_name_def)
  then have "dropWhile is_space ('' '' @ n @ '' '' @ tmpl_mark @ s) = n @ '' '' @ tmpl_mark @ s"
    by (simp add: ident_char_not_space)
  then show ?thesis
    using lazy_name_table [OF assms, of s] by (simp add: tmplRE_match_def)
qed

lemma tmplRE_match_text:
  assumes "no_comment (c # t)" and "t = [] \<Longrightarrow> s = [] \<or> hd s \<noteq> CHR ''*''"
  shows "tmplRE_match (c # t @ s) = None"
proof -
  have "\<not> (c = CHR ''/'' \<and> (\<exists>r. t @ s = CHR ''*'' # r))"
    using assms by (cases t) auto
  then have "strip_prefix tmpl_mark (c # t @ s) = None"
    by (cases "t @ s") (auto simp: strip_prefix_def tmpl_mark_def)
  then show ?thesis by (simp add: tmplRE_match_def)
qed

lemma replace_all_text:
  assumes "no_comment t" and "s = [] \<or> hd s \<noteq> CHR ''*''"
  shows "replace_all q (t @ s) = t @ replace_all q s"
  using assms(1)
proof (induction t)
  case Nil
  then show ?case by simp
next
  case (Cons c t)
  have "tmplRE_match (c # t @ s) = None"
    using Cons.prems assms(2) by (intro tmplRE_match_text) auto
  moreover have "no_comment t"
    using Cons.prems by (cases t) auto
  ultimately show ?case
    using Cons.IH by (simp add: replace_all.simps [of q "c # t @ s"])
qed

lemma replace_all_table:
  assumes "table_name n" and "list_all (\<lambda>c. c \<noteq> CHR ''$'') qual"
  shows "replace_all (qual @ ''$1'') (tmpl_mark @ '' '' @ n @ '' '' @ tmpl_mark @ s) =
     qual @ n @ replace_all (qual @ ''$1'') s"
proof -
  let ?s = "tmpl_mark @ '' '' @ n @ '' '' @ tmpl_mark @ s"
  obtain c cs where s: "?s = c # cs" by (simp add: tmpl_mark_def)
  have "tmplRE_match (c # cs) = Some (n, s)"
    using tmplRE_match_table [OF assms(1), of s] s by simp
  then have "replace_all (qual @ ''$1'') (c # cs) =
      expand (take (length (c # cs) - length s) (c # cs)) n (qual @ ''$1'') @
      replace_all (qual @ ''$1'') s"
    by (subst replace_all.simps) simp
  also have "expand (take (length (c # cs) - length s) (c # cs)) n (qual @ ''$1'') = qual @ n"
    using assms(2) by (simp only: expand_plain expand_group)
  finally show ?thesis by (simp only: s append_assoc)
qed

lemma replace_all_template:
  assumes "list_all (\<lambda>c. c \<noteq> CHR ''$'') qual"
  shows "well_marked segs final \<Longrightarrow>
     replace_all (qual @ ''$1'') (template_text segs final) = qualified_text qual segs final"
proof (induction segs)
  case Nil
  then show ?case
    using replace_all_text [of final "[]"] by (simp add: replace_all.simps [of _ "[]"])
next
  case (Cons seg segs)
  obtain pre name where seg: "seg = (pre, name)" by (cases seg)
  let ?rest = "tmpl_mark @ '' '' @ name @ '' '' @ tmpl_mark @ template_text segs final"
  have "hd ?rest \<noteq> CHR ''*''" by (simp add: tmpl_mark_def)
  then have "replace_all (qual @ ''$1'') (pre @ ?rest) =
      pre @ replace_all (qual @ ''$1'') ?rest"
    using Cons.prems seg by (intro replace_all_text) auto
  also have "replace_all (qual @ ''$1'') ?rest =
      qual @ name @ replace_all (qual @ ''$1'') (template_text segs final)"
    using Cons.prems seg assms by (intro replace_all_table) auto
  finally show ?case using Cons seg by simp
qed

definition quote_ident :: "string \<Rightarrow> string" where
  "quote_ident s = CHR 0x22 # s @ [CHR 0x22]"

lemma quoted_qualifier_plain:
  assumes "schemaNameRE_MatchString schema"
  shows "list_all (\<lambda>c. c \<noteq> CHR ''$'') (quote_ident schema @ ''.'')"
  using schemaName_chars [OF assms]
  by (auto simp: quote_ident_def list_all_iff dest: ident_char_not_special)

text \<open>
  C38: For a schema name that passed the check, a wrapped connection sends every query whose
  table names are marked with each marked name qualified by the quoted schema and everything
  else unchanged, whichever way the query is run; bulk copies name the raw schema first. The
  hypothesis on \<open>sanitize\<close> is what \<open>pgx.Identifier.Sanitize\<close> documents for a
  name without quotes: it puts double quotes around it.
\<close>

theorem Wrapper_qualifies_tables:
  assumes "validateSchemaName schema = None"
    and "sanitize schema = quote_ident schema"
    and "well_marked segs final"
  shows "let w = dbwrap_New sanitize tx schema;
             sql = template_text segs final;
             sent = qualified_text (quote_ident schema @ ''.'') segs final
         in Wrapper_Exec w sql = dbtx_Exec tx sent \<and>
            Wrapper_Query w sql = dbtx_Query tx sent \<and>
            Wrapper_QueryRow w sql = dbtx_QueryRow tx sent \<and>
            Wrapper_CopyFrom w table cols = dbtx_CopyFrom tx (schema # table) cols"
proof -
  have "schemaNameRE_MatchString schema"
    using assms(1) by (simp add: validateSchemaName_def split: if_splits)
  then have "replace_all ((quote_ident schema @ ''.'') @ ''$1'') (template_text segs final) =
      qualified_text (quote_ident schema @ ''.'') segs final"
    using assms(3) by (intro replace_all_template quoted_qualifier_plain)
  then show ?thesis
    using assms(2)
    by (simp add: dbwrap_New_def Wrapper_rewrite_def Wrapper_Exec_def Wrapper_Query_def
        Wrapper_QueryRow_def Wrapper_CopyFrom_def)
qed

theorem Wrapper_qualifies_tables_witness:
  "validateSchemaName ''outbox'' = None \<and>
   Wrapper_Exec (dbwrap_New quote_ident
       \<lparr>dbtx_Exec = (\<lambda>s. s), dbtx_Query = (\<lambda>s. s), dbtx_QueryRow = (\<lambda>s. s), dbtx_CopyFrom = (\<lambda>t c. [])\<rparr>
       ''outbox'')
     ''UPDATE /*tmpl*/ topics /*tmpl*/ SET expires_at = $3'' =
   ''UPDATE '' @ quote_ident ''outbox'' @ ''.topics SET expires_at = $3''"
proof -
  let ?tx = "\<lparr>dbtx_Exec = (\<lambda>s. s), dbtx_Query = (\<lambda>s. s), dbtx_QueryRow = (\<lambda>s. s),
      dbtx_CopyFrom = (\<lambda>t c. [])\<rparr> :: string DBTX"
  have v: "validateSchemaName ''outbox'' = None"
    by (simp add: validateSchemaName_def schemaNameRE_MatchString_def ident_char_def
        ident_start_def between_def)
  have w: "well_marked [(''UPDATE '', ''topics'')] '' SET expires_at = $3''"
    by (simp add: table_name_def ident_char_def ident_start_def between_def)
  show ?thesis
    using v Wrapper_qualifies_tables [where sanitize = quote_ident, OF v refl w, of ?tx "[]" "[]"]
    by (simp add: Let_def tmpl_mark_def)
qed

end
