(* ===== verification/Maintenance.thy ===== *)
theory Maintenance
  imports Exclusive Sql_Names
begin

text \<open>
  Maintenance (\<open>outbox.go\<close>): the scanner that claims a fair share of the topics with an
  expiration, the loops it keeps for them, the deletion of expired messages and the exit of a
  topic that went dormant; and \<open>NewOutbox\<close>, which publishes expirations and starts the
  background work.

  A maintenance lease is a row of \<open>maintenance_leases\<close>. It is live while its holder's
  session is; a holder without a session row is judged by the age of the lease itself. The loops
  of an instance are a map from topics to what the source keeps per loop and the TTL the loop was
  started with.
\<close>

section \<open>Claiming\<close>

record claimClass =
  cc_candidates :: nat
  cc_held :: nat
  cc_unleased :: "topic list"
  cc_stale :: "topic list"

definition empty_class :: claimClass where
  "empty_class = \<lparr>cc_candidates = 0, cc_held = 0, cc_unleased = [], cc_stale = []\<rparr>"

text \<open>\<open>max(ceil(candidates/instances) - held, 1)\<close>, with at least one instance.\<close>

definition claim_budget :: "claimClass \<Rightarrow> int \<Rightarrow> int" where
  "claim_budget class instances =
     (let n = (if instances < 1 then 1 else instances)
      in max ((int (cc_candidates class) + n - 1) div n - int (cc_held class)) 1)"

text \<open>A claiming statement: the topics it is known to have won, and the database.\<close>

definition claim_result :: "outcome \<Rightarrow> topic list \<times> 'a db \<Rightarrow> 'a db \<Rightarrow> topic list \<times> 'a db" where
  "claim_result oc res d =
     (if oc = Done then fst res else [], if outcome_applied oc then snd res else d)"

definition claimClassShare ::
  "'a outboxImpl \<Rightarrow> env \<Rightarrow> bool \<Rightarrow> claimClass \<Rightarrow> nat \<Rightarrow> 'a db \<Rightarrow> topic list \<times> 'a db" where
  "claimClassShare o1 e cls class instances d =
     (if length (cc_unleased class) + length (cc_stale class) = 0 then ([], d)
      else (let budget = claim_budget class (int instances);
                unleased = e_shuffle e (cc_unleased class);
                stale = e_shuffle e (cc_stale class);
                (won1, d1) =
                  (if unleased \<noteq> []
                   then claim_result (e_outcome e (AtInsertMaintenanceLeases cls))
                     (InsertMaintenanceLeases (e_now e (AtInsertMaintenanceLeases cls))
                        (take (nat budget) unleased) (instanceID o1) d) d
                   else ([], d));
                budget1 = budget - int (length won1)
            in if budget1 > 0 \<and> stale \<noteq> []
               then (let (won2, d2) = claim_result (e_outcome e (AtClaimMaintenanceLeases cls))
                       (ClaimMaintenanceLeases (e_lease_locked e)
                          (e_now e (AtClaimMaintenanceLeases cls)) (instanceID o1)
                          (take (nat budget1) stale)
                          (Some (e_clock e (AtClaimMaintenanceLeases cls)
                             - maintenanceLeaseTimeout (e_timings e))) d1) d1
                     in (won1 @ won2, d2))
               else (won1, d1)))"

definition claimTopics ::
  "'a outboxImpl \<Rightarrow> env \<Rightarrow> claimClass \<Rightarrow> claimClass \<Rightarrow> 'a db \<Rightarrow> topic list \<times> 'a db" where
  "claimTopics o1 e explicit dflt d =
     (if length (cc_unleased explicit) + length (cc_stale explicit)
         + length (cc_unleased dflt) + length (cc_stale dflt) = 0 then ([], d)
      else on_err (call_err e AtCountLiveConsumerSessions) (\<lambda>er. ([], d))
        (let (live, maintainers) = CountLiveConsumerSessions (e_now e AtCountLiveConsumerSessions) d;
             (won1, d1) = claimClassShare o1 e True explicit live d;
             (won2, d2) = claimClassShare o1 e False dflt maintainers d1
         in (won1 @ won2, d2)))"

section \<open>The loops of an instance\<close>

record managedTopic =
  mt_ttl :: duration
  mt_cancelled :: bool
  mt_done :: bool
  mt_dormant :: bool

type_synonym managed = "topic \<Rightarrow> managedTopic option"

definition new_loop :: "duration \<Rightarrow> managedTopic" where
  "new_loop ttl = \<lparr>mt_ttl = ttl, mt_cancelled = False, mt_done = False, mt_dormant = False\<rparr>"

definition reconcileLoops :: "(topic \<Rightarrow> duration option) \<Rightarrow> topic list \<Rightarrow> managed \<Rightarrow> managed" where
  "reconcileLoops ttls held mg = (\<lambda>t.
     case mg t of
       Some mt \<Rightarrow>
         (if ttls t = None then Some (mt\<lparr>mt_dormant := True, mt_cancelled := True\<rparr>)
          else if t \<notin> set held then Some (mt\<lparr>mt_cancelled := True\<rparr>)
          else Some mt)
     | None \<Rightarrow>
         (if t \<in> set held
          then Some (new_loop (case ttls t of None \<Rightarrow> 0 | Some ttl \<Rightarrow> ttl)) else None))"

definition reapExitedLoops :: "managed \<Rightarrow> managed" where
  "reapExitedLoops mg = (\<lambda>t. case mg t of
     None \<Rightarrow> None | Some mt \<Rightarrow> if mt_done mt then None else Some mt)"

section \<open>One tick of the scanner\<close>

record scan_acc =
  sa_ttls :: "topic \<Rightarrow> duration option"
  sa_held :: "topic list"
  sa_explicit :: claimClass
  sa_dflt :: claimClass

definition add_candidate :: "GetMaintenanceCandidateTopicsRow \<Rightarrow> claimClass \<Rightarrow> claimClass" where
  "add_candidate c class =
     (let class1 = class\<lparr>cc_candidates := Suc (cc_candidates class)\<rparr>
      in if c_HeldByMe c then class1\<lparr>cc_held := Suc (cc_held class1)\<rparr>
         else if c_Unleased c then class1\<lparr>cc_unleased := cc_unleased class1 @ [c_Topic c]\<rparr>
         else if c_LeaseExpired c then class1\<lparr>cc_stale := cc_stale class1 @ [c_Topic c]\<rparr>
         else class1)"

definition classify :: "duration \<Rightarrow> GetMaintenanceCandidateTopicsRow \<Rightarrow> scan_acc \<Rightarrow> scan_acc" where
  "classify defaultTtl c acc =
     (let ttl = (case c_ExpirationNanos c of None \<Rightarrow> defaultTtl | Some n \<Rightarrow> n)
      in if ttl \<le> 0 then acc
         else (let acc1 = acc\<lparr>sa_ttls := (sa_ttls acc)(c_Topic c \<mapsto> ttl)\<rparr>;
                   acc2 = (if c_HeldByMe c then acc1\<lparr>sa_held := sa_held acc1 @ [c_Topic c]\<rparr> else acc1)
               in if c_ExpirationNanos c \<noteq> None
                  then acc2\<lparr>sa_explicit := add_candidate c (sa_explicit acc2)\<rparr>
                  else acc2\<lparr>sa_dflt := add_candidate c (sa_dflt acc2)\<rparr>))"

definition classify_all :: "duration \<Rightarrow> GetMaintenanceCandidateTopicsRow list \<Rightarrow> scan_acc" where
  "classify_all defaultTtl cs = fold (classify defaultTtl) cs
     \<lparr>sa_ttls = (\<lambda>_. None), sa_held = [], sa_explicit = empty_class, sa_dflt = empty_class\<rparr>"

text \<open>The zero time of \<open>lastCatchup\<close> is \<open>None\<close>: a sweep is always due.\<close>

definition catchup_due :: "env \<Rightarrow> time option \<Rightarrow> bool" where
  "catchup_due e lastCatchup = (case lastCatchup of None \<Rightarrow> True
     | Some l \<Rightarrow> e_clock e AtCatchup - l \<ge> maintenanceCatchupInterval (e_timings e))"

definition catchup_sweep ::
  "env \<Rightarrow> time option \<Rightarrow> 'a db \<Rightarrow> topic list \<times> time option \<times> 'a db" where
  "catchup_sweep e lastCatchup d =
     (if \<not> catchup_due e lastCatchup then ([], lastCatchup, d)
      else (let (include, lastCatchup1) =
                  on_err (call_err e AtGetTopicsWithMessages) (\<lambda>er. ([], lastCatchup))
                    (GetTopicsWithMessages d, Some (e_clock e AtGetTopicsWithMessages));
                d1 = snd (exec_pool e AtDeleteExpiredConsumerSessions
                  (DeleteExpiredConsumerSessions (Some (e_clock e AtDeleteExpiredConsumerSessions
                     - consumerSessionRetention (e_timings e)))) d)
            in (include, lastCatchup1, d1)))"

definition scan_candidates ::
  "'a outboxImpl \<Rightarrow> env \<Rightarrow> topic list \<Rightarrow> 'a db \<Rightarrow> GetMaintenanceCandidateTopicsRow list" where
  "scan_candidates o1 e include d =
     GetMaintenanceCandidateTopics (e_now e AtGetMaintenanceCandidateTopics) (instanceID o1)
       (Some (e_clock e AtGetMaintenanceCandidateTopics - maintenanceLeaseTimeout (e_timings e)))
       (if defaultExpiration o1 > 0 then Some (defaultExpiration o1) else None)
       include (maintenanceActivitySlack (e_timings e)) d"

definition scanTopics ::
  "'a outboxImpl \<Rightarrow> env \<Rightarrow> time option \<Rightarrow> managed \<Rightarrow> 'a db \<Rightarrow> time option \<times> managed \<times> 'a db" where
  "scanTopics o1 e lastCatchup mg d =
     (let mg1 = reapExitedLoops mg;
          (include, lastCatchup1, d1) = catchup_sweep e lastCatchup d
      in on_err (call_err e AtGetMaintenanceCandidateTopics) (\<lambda>er. (lastCatchup1, mg1, d1))
        (let acc = classify_all (defaultExpiration o1) (scan_candidates o1 e include d1);
             (won, d2) = claimTopics o1 e (sa_explicit acc) (sa_dflt acc) d1
         in (lastCatchup1, reconcileLoops (sa_ttls acc) (sa_held acc @ won) mg1, d2)))"

section \<open>Deleting expired messages\<close>

definition runMaintenance ::
  "'a outboxImpl \<Rightarrow> env \<Rightarrow> topic \<Rightarrow> duration \<Rightarrow> 'a db \<Rightarrow> go_err option \<times> 'a db" where
  "runMaintenance o1 e topic ttl d =
     on_err (call_err e AtBegin)
       (\<lambda>er. (Some (Wrap ''begin maintenance tx for topic'' topic er), d))
     (let tx0 = begin_tx d in
      on_err (call_err e AtInsertMaintenanceLeaseIfAbsent)
        (\<lambda>er. (Some (Wrap ''upsert maintenance lease for topic'' topic er), rollback d tx0))
      (let tx1 = InsertMaintenanceLeaseIfAbsent (e_now e AtBegin) topic (instanceID o1) tx0 in
       case query_one e AtSelectMaintenanceLeaseForUpdate
           (SelectMaintenanceLeaseForUpdate (e_now e AtBegin)
              (Some (e_clock e AtSelectMaintenanceLeaseForUpdate
                 - maintenanceLeaseTimeout (e_timings e))) topic tx1) of
         Inl er \<Rightarrow> (Some (Wrap ''select maintenance lease for topic'' topic er), rollback d tx1)
       | Inr lease \<Rightarrow>
           if sl_HolderID lease \<noteq> instanceID o1 \<and> \<not> sl_LeaseExpired lease
           then (Some ErrMaintenanceLeaseHeld, rollback d tx1)
           else on_err (call_err e AtUpdateMaintenanceLease)
             (\<lambda>er. (Some (Wrap ''update maintenance lease for topic'' topic er), rollback d tx1))
             (let tx2 = UpdateMaintenanceLease (e_now e AtBegin) topic (instanceID o1) tx1 in
              on_err (call_err e AtDeleteExpiredMessages)
                (\<lambda>er. (Some (Wrap ''delete expired messages for topic'' topic er), rollback d tx2))
                (let tx3 = DeleteExpiredMessages topic
                       (Some (e_clock e AtDeleteExpiredMessages - ttl)) tx2
                 in commit_tx e d tx3))))"

text \<open>
  The dormancy exit. \<open>GetOldestMessageInsertedAt\<close> fails with \<open>pgx.ErrNoRows\<close> on an
  empty topic.
\<close>

definition finishDormantTopic ::
  "'a outboxImpl \<Rightarrow> env \<Rightarrow> topic \<Rightarrow> duration \<Rightarrow> 'a db \<Rightarrow> 'a db" where
  "finishDormantTopic o1 e topic ttl d =
     (case runMaintenance o1 e topic ttl d of
        (Some er, d1) \<Rightarrow> d1
      | (None, d1) \<Rightarrow>
          (case query_one e AtGetOldestMessageInsertedAt (GetOldestMessageInsertedAt topic d1) of
             Inr oldest \<Rightarrow> d1
           | Inl er \<Rightarrow>
               if \<not> errors_Is er ErrNoRows then d1
               else snd (exec_pool e AtReleaseMaintenanceLease
                      (ReleaseMaintenanceLease topic (instanceID o1)) d1)))"

text \<open>
  One round of a maintenance loop: how long it wants to sleep, and the database. The column is
  never NULL, so the branch for an invalid timestamp is that of the empty topic.
\<close>

definition maintenance_round ::
  "'a outboxImpl \<Rightarrow> env \<Rightarrow> topic \<Rightarrow> duration \<Rightarrow> 'a db \<Rightarrow> duration \<times> 'a db" where
  "maintenance_round o1 e topic ttl d =
     (case query_one e AtGetOldestMessageInsertedAt (GetOldestMessageInsertedAt topic d) of
        Inl er \<Rightarrow>
          (if errors_Is er ErrNoRows then maintenanceIdleInterval (e_timings e)
           else maintenanceRetryInterval (e_timings e), d)
      | Inr oldest \<Rightarrow>
          (let expireAt = oldest + ttl; now = e_clock e AtLoopCheck
           in if expireAt > now then (expireAt - now, d)
              else (maintenanceRetryInterval (e_timings e), snd (runMaintenance o1 e topic ttl d))))"

definition floored_sleep :: "env \<Rightarrow> duration \<Rightarrow> duration" where
  "floored_sleep e dur =
     (if dur < maintenanceMinInterval (e_timings e) then maintenanceMinInterval (e_timings e) else dur)"

record 'a loop_round =
  lr_ctx_ended :: bool
  lr_env :: env
  lr_woke :: bool
  lr_others :: "'a db \<Rightarrow> 'a db"

text \<open>A loop over a script of rounds: the sleeps it took and the database it left.\<close>

fun runMaintenanceLoop ::
  "'a outboxImpl \<Rightarrow> topic \<Rightarrow> duration \<Rightarrow> bool \<Rightarrow> env \<Rightarrow> 'a loop_round list \<Rightarrow> 'a db
     \<Rightarrow> (duration list \<times> 'a db) option" where
  "runMaintenanceLoop o1 topic ttl dormant fin [] d = None"
| "runMaintenanceLoop o1 topic ttl dormant fin (r # rs) d =
     (if lr_ctx_ended r
      then Some ([], if dormant then finishDormantTopic o1 fin topic ttl d else d)
      else (case maintenance_round o1 (lr_env r) topic ttl d of
              (dur, d1) \<Rightarrow>
                (if lr_woke r
                 then map_option (\<lambda>(ds, d'). (floored_sleep (lr_env r) dur # ds, d'))
                        (runMaintenanceLoop o1 topic ttl dormant fin rs (lr_others r d1))
                 else Some ([floored_sleep (lr_env r) dur],
                        if dormant then finishDormantTopic o1 fin topic ttl d1 else d1))))"

section \<open>Starting an instance\<close>

definition ensureTopicRow :: "env \<Rightarrow> topic \<Rightarrow> duration \<Rightarrow> 'a db \<Rightarrow> go_err option \<times> 'a db" where
  "ensureTopicRow e topic ttl d =
     exec_pool e AtInsertTopicIfAbsent
       (InsertTopicIfAbsent (e_now e AtInsertTopicIfAbsent) topic
          (if ttl > 0 then Some ttl else None)) d"

fun publish_expirations :: "(topic \<Rightarrow> env) \<Rightarrow> (topic \<times> duration) list \<Rightarrow> 'a db \<Rightarrow> 'a db" where
  "publish_expirations es [] d = d"
| "publish_expirations es ((t, ttl) # xs) d =
     publish_expirations es xs (snd (ensureTopicRow (es t) t ttl d))"

text \<open>
  \<open>NewOutbox\<close>: \<open>migrated\<close> is the answer of the migrations, which run code of another
  package; \<open>fresh\<close> is the id that \<open>uuid.New\<close> drew.
\<close>

definition NewOutbox ::
  "uuid \<Rightarrow> go_err option \<Rightarrow> (topic \<Rightarrow> env) \<Rightarrow> env \<Rightarrow> 'a PubSub OutboxOpt list \<Rightarrow> 'a db
     \<Rightarrow> (go_err + 'a outboxImpl) \<times> 'a db" where
  "NewOutbox fresh migrated es e fs d =
     (let opts = outbox_opts fs in
      on_err (validateSchemaName (opt_schema opts)) (\<lambda>er. (Inl er, d))
      (on_err (if opt_autoMigrate opts then migrated else None)
         (\<lambda>er. (Inl (Wrap ''could not run migrations'' [] er), d))
       (let o1 = new_outboxImpl fresh opts;
            d1 = publish_expirations es (expirations o1) d;
            d2 = snd (upsertConsumerSession o1 e d1)
        in (Inr o1, d2))))"


section \<open>The maintenance lease\<close>

text \<open>A lease row is live at a time: its holder's session is, or there is no session row and the
  lease is younger than the cutoff.\<close>

definition lease_live :: "time \<Rightarrow> time \<Rightarrow> 'a db \<Rightarrow> MaintenanceLease \<Rightarrow> bool" where
  "lease_live now cutoff d l \<longleftrightarrow>
     coalesce (session_expired now (l_HolderID l) d) (Some (l_AcquiredAt l < cutoff)) = Some False"

definition maintainer :: "topic \<Rightarrow> 'a db \<Rightarrow> uuid option" where
  "maintainer t d = map_option l_HolderID (find_lease t d)"

definition maintenance_cutoff :: "env \<Rightarrow> time" where
  "maintenance_cutoff e =
     e_clock e AtSelectMaintenanceLeaseForUpdate - maintenanceLeaseTimeout (e_timings e)"

definition maintenance_contended :: "'a outboxImpl \<Rightarrow> env \<Rightarrow> topic \<Rightarrow> 'a db \<Rightarrow> bool" where
  "maintenance_contended o1 e t d \<longleftrightarrow>
     (\<exists>l. find_lease t d = Some l \<and> l_HolderID l \<noteq> instanceID o1 \<and>
        lease_live (e_now e AtBegin) (maintenance_cutoff e) d l)"

definition maintained_db :: "'a outboxImpl \<Rightarrow> env \<Rightarrow> topic \<Rightarrow> duration \<Rightarrow> 'a db \<Rightarrow> 'a db" where
  "maintained_db o1 e t ttl d =
     commit_db (DeleteExpiredMessages t (Some (e_clock e AtDeleteExpiredMessages - ttl))
       (UpdateMaintenanceLease (e_now e AtBegin) t (instanceID o1)
         (InsertMaintenanceLeaseIfAbsent (e_now e AtBegin) t (instanceID o1) (begin_tx d))))"

lemma session_expired_cong:
  "consumer_sessions d' = consumer_sessions d \<Longrightarrow> session_expired now c d' = session_expired now c d"
  by (simp add: session_expired_def)

lemma lease_live_cong:
  "consumer_sessions d' = consumer_sessions d \<Longrightarrow> lease_live now cutoff d' l = lease_live now cutoff d l"
  by (simp add: lease_live_def session_expired_def)

lemma maintained_db_frame [simp]:
  "topics (maintained_db o1 e t ttl d) = topics d"
  "consumer_sessions (maintained_db o1 e t ttl d) = consumer_sessions d"
  "messages_id_seq (maintained_db o1 e t ttl d) = messages_id_seq d"
  "app (maintained_db o1 e t ttl d) = app d"
  "messages (maintained_db o1 e t ttl d) = delete_where
     (\<lambda>m. m_Topic m = t \<and> m_InsertedAt m < e_clock e AtDeleteExpiredMessages - ttl) (messages d)"
  by (simp_all add: maintained_db_def DeleteExpiredMessages_def)

lemma find_lease_maintained_db [simp]:
  "find_lease u (maintained_db o1 e t ttl d) =
     (if u = t then Some \<lparr>l_Topic = t, l_HolderID = instanceID o1, l_AcquiredAt = e_now e AtBegin\<rparr>
      else find_lease u d)"
  by (cases "find_lease u d") (auto simp: maintained_db_def dest: find_row_key)

lemma db_ok_maintained_db [schema_ok]: "db_ok d \<Longrightarrow> db_ok (maintained_db o1 e t ttl d)"
  by (simp add: maintained_db_def schema_ok)

lemma select_after_insert:
  "SelectMaintenanceLeaseForUpdate now (Some c) t
     (InsertMaintenanceLeaseIfAbsent n t h (begin_tx d)) =
   Some (case find_lease t d of
       None \<Rightarrow> \<lparr>sl_HolderID = h, sl_LeaseExpired =
           the (coalesce (session_expired now h d) (Some (n < c)))\<rparr>
     | Some l \<Rightarrow> \<lparr>sl_HolderID = l_HolderID l, sl_LeaseExpired = (\<not> lease_live now c d l)\<rparr>)"
proof -
  let ?d = "InsertMaintenanceLeaseIfAbsent n t h (begin_tx d)"
  have se: "session_expired now x ?d = session_expired now x d" for x
    by (rule session_expired_cong) simp
  show ?thesis
    by (cases "find_lease t d")
      (auto simp: SelectMaintenanceLeaseForUpdate_def se lease_live_def coalesce_def
        split: option.splits)
qed

lemma runMaintenance_cases:
  assumes "runMaintenance o1 e t ttl d = (r, d')"
  obtains (failed) er where "r = Some er" "d' = d" "er = ErrMaintenanceLeaseHeld \<Longrightarrow> maintenance_contended o1 e t d"
  | (run) "r = None" "d' = maintained_db o1 e t ttl d" "\<not> maintenance_contended o1 e t d"
  | (unacked) er er' where "r = Some er" "d' = maintained_db o1 e t ttl d"
      "\<not> maintenance_contended o1 e t d" "e_outcome e AtCommit = Unacked er'"
proof -
  let ?d1 = "InsertMaintenanceLeaseIfAbsent (e_now e AtBegin) t (instanceID o1) (begin_tx d)"
  obtain row where row: "SelectMaintenanceLeaseForUpdate (e_now e AtBegin)
      (Some (e_clock e AtSelectMaintenanceLeaseForUpdate - maintenanceLeaseTimeout (e_timings e))) t ?d1 =
      Some row" "sl_HolderID row \<noteq> instanceID o1 \<and> \<not> sl_LeaseExpired row \<longleftrightarrow> maintenance_contended o1 e t d"
    by (auto simp: select_after_insert maintenance_contended_def maintenance_cutoff_def split: option.splits)
  note rm = assms [unfolded runMaintenance_def Let_def commit_tx_def row(1) row(2) query_one_def]
  show ?thesis
  proof (cases "call_err e AtBegin = None \<and> call_err e AtInsertMaintenanceLeaseIfAbsent = None \<and>
      call_err e AtSelectMaintenanceLeaseForUpdate = None \<and> \<not> maintenance_contended o1 e t d \<and>
      call_err e AtUpdateMaintenanceLease = None \<and> call_err e AtDeleteExpiredMessages = None")
    case True
    with rm row show ?thesis
      by (cases "e_outcome e AtCommit") (auto simp: maintained_db_def intro: failed run unacked)
  next
    case False
    with rm row show ?thesis
      by (auto split: on_err_splits option.splits if_splits intro: failed)
  qed
qed

lemma runMaintenance_no_faults:
  assumes "no_faults e"
  shows "runMaintenance o1 e t ttl d =
     (if maintenance_contended o1 e t d then (Some ErrMaintenanceLeaseHeld, d)
      else (None, maintained_db o1 e t ttl d))"
proof -
  let ?d1 = "InsertMaintenanceLeaseIfAbsent (e_now e AtBegin) t (instanceID o1) (begin_tx d)"
  obtain row where row: "SelectMaintenanceLeaseForUpdate (e_now e AtBegin)
      (Some (e_clock e AtSelectMaintenanceLeaseForUpdate - maintenanceLeaseTimeout (e_timings e))) t ?d1 =
      Some row" "sl_HolderID row \<noteq> instanceID o1 \<and> \<not> sl_LeaseExpired row \<longleftrightarrow> maintenance_contended o1 e t d"
    by (auto simp: select_after_insert maintenance_contended_def maintenance_cutoff_def split: option.splits)
  with assms show ?thesis
    by (simp add: runMaintenance_def Let_def commit_tx_def maintained_db_def)
qed


text \<open>A run of maintenance is an attempt to take or keep the lease.\<close>

definition attempt_maintenance ::
  "'a outboxImpl \<Rightarrow> env \<times> duration \<Rightarrow> topic \<Rightarrow> 'a db \<Rightarrow> bool \<times> 'a db" where
  "attempt_maintenance o1 c t d =
     (let (r, d') = runMaintenance o1 (fst c) t (snd c) d in (r = None, d'))"

definition maintenance_live ::
  "'a outboxImpl \<Rightarrow> env \<times> duration \<Rightarrow> topic \<Rightarrow> 'a db \<Rightarrow> bool" where
  "maintenance_live o1 c t d \<longleftrightarrow>
     (\<exists>l. find_lease t d = Some l \<and>
        lease_live (e_now (fst c) AtBegin) (maintenance_cutoff (fst c)) d l)"

lemma attempt_maintenance_cases:
  obtains (same) "snd (attempt_maintenance o1 c t d) = d" "\<not> fst (attempt_maintenance o1 c t d)"
  | (changed) "snd (attempt_maintenance o1 c t d) = maintained_db o1 (fst c) t (snd c) d"
      "\<not> maintenance_contended o1 (fst c) t d"
proof -
  obtain r d' where r: "runMaintenance o1 (fst c) t (snd c) d = (r, d')"
    by (cases "runMaintenance o1 (fst c) t (snd c) d")
  from r show ?thesis
    by (cases rule: runMaintenance_cases)
      (use r same changed in \<open>auto simp: attempt_maintenance_def\<close>)
qed

interpretation ml: lease_contract "instanceID :: 'a outboxImpl \<Rightarrow> uuid" maintainer
  maintenance_live attempt_maintenance
proof unfold_locales
  fix k :: topic and d :: "'a db" and a c and i :: "'a outboxImpl"
  assume "maintainer k d = Some a" "a \<noteq> instanceID i" "maintenance_live i c k d"
  then show "\<not> fst (attempt_maintenance i c k d) \<and>
      maintainer k (snd (attempt_maintenance i c k d)) = Some a"
    by (cases rule: attempt_maintenance_cases [of i c k d])
      (auto simp: maintenance_contended_def maintenance_live_def maintainer_def)
next
  fix k :: topic and d :: "'a db" and c and i :: "'a outboxImpl"
  show "fst (attempt_maintenance i c k d) \<Longrightarrow>
      maintainer k (snd (attempt_maintenance i c k d)) = Some (instanceID i)"
    by (cases rule: attempt_maintenance_cases [of i c k d]) (auto simp: maintainer_def)
  show "maintainer k (snd (attempt_maintenance i c k d)) \<noteq> maintainer k d \<Longrightarrow>
      maintainer k (snd (attempt_maintenance i c k d)) = Some (instanceID i)"
    by (cases rule: attempt_maintenance_cases [of i c k d]) (auto simp: maintainer_def)
next
  fix k' k :: topic and d :: "'a db" and c and i :: "'a outboxImpl"
  show "k' \<noteq> k \<Longrightarrow> maintainer k' (snd (attempt_maintenance i c k d)) = maintainer k' d"
    by (cases rule: attempt_maintenance_cases [of i c k d]) (auto simp: maintainer_def)
qed

lemma maintenance_attempts_snd:
  "fold (\<lambda>(o1, c, t') d. snd (attempt_maintenance o1 c t' d)) as d =
     fold (\<lambda>(o1, (e, ttl), t') d. snd (runMaintenance o1 e t' ttl d)) as d"
  by (rule arg_cong [where f = "\<lambda>f. fold f as d"])
    (simp add: attempt_maintenance_def case_prod_unfold fun_eq_iff Let_def)

section \<open>Activity and dormancy\<close>

text \<open>The effective TTL of a topic for an instance: its own expiration, or the instance's default.\<close>

definition effective_ttl :: "'a outboxImpl \<Rightarrow> Topic \<Rightarrow> duration" where
  "effective_ttl o1 r = (case t_ExpirationNanos r of None \<Rightarrow> defaultExpiration o1 | Some n \<Rightarrow> n)"

lemma candidate_row_simps [simp]:
  "c_Topic (candidate_row now h co d r) = t_Topic r"
  "c_ExpirationNanos (candidate_row now h co d r) = t_ExpirationNanos r"
  "c_HeldByMe (candidate_row now h co d r) = (maintainer (t_Topic r) d = Some h)"
  "c_Unleased (candidate_row now h co d r) = (find_lease (t_Topic r) d = None)"
  by (auto simp: candidate_row_def Let_def maintainer_def split: option.split)

lemma candidate_iff:
  assumes "db_ok d" and "find_topic t d = Some r" and "effective_ttl o1 r > 0"
  shows "t \<in> c_Topic ` set (scan_candidates o1 e include d) \<longleftrightarrow>
    t \<in> set include \<or> t_LastInsertedAt r = None \<or>
    (\<exists>l. t_LastInsertedAt r = Some l \<and> e_now e AtGetMaintenanceCandidateTopics - l <
       effective_ttl o1 r + maintenanceActivitySlack (e_timings e))"
proof -
  let ?dn = "if defaultExpiration o1 > 0 then Some (defaultExpiration o1) else None"
  let ?c = "candidate_topic (e_now e AtGetMaintenanceCandidateTopics) ?dn include
      (maintenanceActivitySlack (e_timings e))"
  have "t \<in> c_Topic ` set (scan_candidates o1 e include d) \<longleftrightarrow> (\<exists>q \<in> set (topics d). t_Topic q = t \<and> ?c q)"
    by (auto simp: scan_candidates_def GetMaintenanceCandidateTopics_def image_image)
  also have "\<dots> \<longleftrightarrow> ?c r"
    using find_row_SomeD [OF assms(2)] find_row_unique [OF db_okD(1) [OF assms(1)]] assms(2)
    by (metis option.inject)
  also have "\<dots> \<longleftrightarrow> t \<in> set include \<or> t_LastInsertedAt r = None \<or>
    (\<exists>l. t_LastInsertedAt r = Some l \<and> e_now e AtGetMaintenanceCandidateTopics - l <
       effective_ttl o1 r + maintenanceActivitySlack (e_timings e))"
    using find_row_key [OF assms(2)] assms(3)
    by (cases "t_ExpirationNanos r"; cases "t_LastInsertedAt r")
      (auto simp: candidate_topic_def effective_ttl_def)
  finally show ?thesis .
qed

lemma sort_key_Nil_iff: "sort_key f xs = [] \<longleftrightarrow> xs = []"
  by (metis set_empty set_sort)

lemma no_oldest_iff:
  "GetOldestMessageInsertedAt t d = None \<longleftrightarrow> (\<forall>m \<in> set (messages d). m_Topic m \<noteq> t)"
proof -
  let ?xs = "map m_InsertedAt (filter (\<lambda>m. m_Topic m = t) (messages d))"
  have "GetOldestMessageInsertedAt t d = None \<longleftrightarrow> sort_key (\<lambda>t. t) ?xs = []"
    unfolding GetOldestMessageInsertedAt_def
    by (cases "sort_key (\<lambda>t. t) ?xs") (simp_all only: list.case simp_thms option.distinct list.distinct)
  then show ?thesis
    by (simp only: sort_key_Nil_iff map_is_Nil_conv filter_empty_conv)
qed

text \<open>A topic that has left the active window holds nothing that is not long expired.\<close>

lemma dormant_expired:
  assumes "db_ok d" and "activity_ok d" and "find_topic t d = Some r" and "effective_ttl o1 r > 0"
    and "t \<notin> c_Topic ` set (scan_candidates o1 e include d)"
    and "m \<in> set (messages d)" and "m_Topic m = t"
  shows "m_InsertedAt m \<le> e_now e AtGetMaintenanceCandidateTopics - effective_ttl o1 r -
     (maintenanceActivitySlack (e_timings e) - bump_granularity)"
proof -
  from candidate_iff [OF assms(1,3,4), of e "include"] assms(5) obtain l where
    l: "t_LastInsertedAt r = Some l" "e_now e AtGetMaintenanceCandidateTopics - l \<ge>
       effective_ttl o1 r + maintenanceActivitySlack (e_timings e)"
    by fastforce
  from assms(2,3,6,7) l(1) have "m_InsertedAt m \<le> l + bump_granularity"
    by (auto simp: activity_ok_iff)
  with l(2) show ?thesis by linarith
qed

section \<open>Properties of the deletion\<close>

text \<open>C17: maintenance deletes only what it may. However a run ends, a message that is gone belonged
  to the topic and was older than the loop's TTL on the instance's clock, and then the instance
  holds the topic's lease, which nobody else held live; an instance that finds the lease live in
  another's hands gets \<open>errLeaseHeld\<close> or another error and changes nothing.\<close>

theorem runMaintenance_safe:
  assumes "runMaintenance o1 e t ttl d = (r, d')"
  shows "(messages d' = messages d \<or> messages d' = delete_where
       (\<lambda>m. m_Topic m = t \<and> m_InsertedAt m < e_clock e AtDeleteExpiredMessages - ttl) (messages d)) \<and>
    (messages d' \<noteq> messages d \<longrightarrow>
       maintainer t d' = Some (instanceID o1) \<and> \<not> maintenance_contended o1 e t d) \<and>
    (maintenance_contended o1 e t d \<longrightarrow> r \<noteq> None \<and> d' = d) \<and>
    topics d' = topics d \<and> consumer_sessions d' = consumer_sessions d"
  using assms by (cases rule: runMaintenance_cases) (auto simp: maintainer_def)

text \<open>The maintenance lease of a topic changes hands only when it has lapsed, however many
  runs of maintenance follow each other on whatever instances.\<close>

theorem maintenance_handover_needs_lapse:
  assumes "maintainer t d = Some a"
    and "maintainer t (fold (\<lambda>(o1, (e, ttl), t') d. snd (runMaintenance o1 e t' ttl d)) as d) \<noteq> Some a"
  shows "\<exists>pre o1 e ttl post. as = pre @ (o1, (e, ttl), t) # post \<and> instanceID o1 \<noteq> a \<and>
     maintainer t (fold (\<lambda>(o1, (e, ttl), t') d. snd (runMaintenance o1 e t' ttl d)) pre d) = Some a \<and>
     \<not> (\<exists>l. find_lease t (fold (\<lambda>(o1, (e, ttl), t') d. snd (runMaintenance o1 e t' ttl d)) pre d) = Some l \<and>
          lease_live (e_now e AtBegin) (maintenance_cutoff e)
            (fold (\<lambda>(o1, (e, ttl), t') d. snd (runMaintenance o1 e t' ttl d)) pre d) l)"
proof -
  from ml.handover_needs_lapse [OF assms(1), of as, unfolded maintenance_attempts_snd, OF assms(2)]
  obtain pre o1 c post where p: "as = pre @ (o1, c, t) # post" "instanceID o1 \<noteq> a"
    "maintainer t (fold (\<lambda>(o1, (e, ttl), t') d. snd (runMaintenance o1 e t' ttl d)) pre d) = Some a"
    "\<not> maintenance_live o1 c t (fold (\<lambda>(o1, (e, ttl), t') d. snd (runMaintenance o1 e t' ttl d)) pre d)"
    by blast
  obtain e ttl where "c = (e, ttl)" by (cases c)
  with p show ?thesis
    unfolding maintenance_live_def fst_conv
    by (intro exI [of _ pre] exI [of _ o1] exI [of _ e] exI [of _ ttl] exI [of _ post] conjI) simp_all
qed



text \<open>A maintenance loop never spins: every sleep it takes is at least
  \<open>maintenanceMinInterval\<close>, whatever fails.\<close>

theorem maintenance_loop_sleeps:
  assumes "runMaintenanceLoop o1 t ttl dormant fin rs d = Some (ds, d')"
    and "\<forall>r \<in> set rs. maintenanceMinInterval (e_timings (lr_env r)) \<ge> floor"
  shows "\<forall>x \<in> set ds. x \<ge> floor"
  using assms
proof (induction rs arbitrary: d ds d')
  case Nil
  then show ?case by simp
next
  case (Cons r rs)
  have fl: "floored_sleep (lr_env r) x \<ge> floor" for x
    using Cons.prems(2) by (auto simp: floored_sleep_def)
  obtain dur d1 where m: "maintenance_round o1 (lr_env r) t ttl d = (dur, d1)"
    by (cases "maintenance_round o1 (lr_env r) t ttl d")
  show ?case
  proof (cases "lr_ctx_ended r")
    case True
    with Cons.prems(1) show ?thesis by simp
  next
    case False
    show ?thesis
    proof (cases "lr_woke r")
      case True
      with False m Cons.prems(1) obtain ds' d'' where
        "runMaintenanceLoop o1 t ttl dormant fin rs (lr_others r d1) = Some (ds', d'')"
        "ds = floored_sleep (lr_env r) dur # ds'"
        by auto
      with Cons.IH Cons.prems(2) fl show ?thesis by fastforce
    next
      case woke: False
      with False m Cons.prems(1) fl show ?thesis by auto
    qed
  qed
qed

end
