(* ===== verification/Maintenance_Claims.thy ===== *)
theory Maintenance_Claims
  imports Maintenance "HOL-Library.Multiset"
begin

text \<open>
  What the scanner's claims may do: lemmas on the two claiming statements, on the sorting of the
  candidates into classes, and the properties of \<open>claimTopics\<close> and \<open>scanTopics\<close>
  (\<open>outbox.go\<close>). The shuffle of the source is any permutation.
\<close>

section \<open>The claiming statements\<close>

definition shuffles :: "env \<Rightarrow> bool" where
  "shuffles e \<longleftrightarrow> (\<forall>xs. mset (e_shuffle e xs) = mset xs)"

lemma shufflesD:
  assumes "shuffles e"
  shows "set (e_shuffle e xs) = set xs" "length (e_shuffle e xs) = length xs"
    "distinct (e_shuffle e xs) = distinct xs" "e_shuffle e xs = [] \<longleftrightarrow> xs = []"
  using assms unfolding shuffles_def
  by (metis mset_eq_setD, metis mset_eq_length, metis mset_eq_imp_distinct_iff, metis mset_zero_iff)

abbreviation lease_keys_ok :: "'a db \<Rightarrow> bool" where
  "lease_keys_ok d \<equiv> distinct (map l_Topic (maintenance_leases d))"

definition claim_cutoff :: "env \<Rightarrow> bool \<Rightarrow> time" where
  "claim_cutoff e cls = e_clock e (AtClaimMaintenanceLeases cls) - maintenanceLeaseTimeout (e_timings e)"

text \<open>A lease that is live at both claiming statements of a tick.\<close>

definition live_throughout :: "env \<Rightarrow> 'a db \<Rightarrow> MaintenanceLease \<Rightarrow> bool" where
  "live_throughout e d l \<longleftrightarrow>
     (\<forall>cls. lease_live (e_now e (AtClaimMaintenanceLeases cls)) (claim_cutoff e cls) d l)"

text \<open>What a claim may do: win leases for \<open>us\<close>, keep ours, and leave the live leases of others.\<close>

definition claim_sound :: "uuid \<Rightarrow> env \<Rightarrow> topic list \<Rightarrow> 'a db \<Rightarrow> 'a db \<Rightarrow> bool" where
  "claim_sound us e won d d' \<longleftrightarrow>
     consumer_sessions d' = consumer_sessions d \<and> messages d' = messages d \<and> topics d' = topics d \<and>
     lease_keys_ok d' \<and>
     (\<forall>t \<in> set won. maintainer t d' = Some us) \<and>
     (\<forall>t. maintainer t d = Some us \<longrightarrow> maintainer t d' = Some us) \<and>
     (\<forall>t l. find_lease t d = Some l \<and> l_HolderID l \<noteq> us \<and> live_throughout e d l \<longrightarrow>
        find_lease t d' = Some l \<and> t \<notin> set won)"

lemma claim_sound_refl: "lease_keys_ok d \<Longrightarrow> claim_sound us e [] d d"
  by (simp add: claim_sound_def)

lemma live_throughout_cong:
  "consumer_sessions d' = consumer_sessions d \<Longrightarrow> live_throughout e d' l = live_throughout e d l"
  unfolding live_throughout_def by (metis lease_live_cong)

lemma claim_sound_trans:
  assumes "claim_sound us e w1 d d1" and "claim_sound us e w2 d1 d2"
  shows "claim_sound us e (w1 @ w2) d d2"
proof -
  have "live_throughout e d1 l = live_throughout e d l" for l
    using assms(1) by (intro live_throughout_cong) (simp add: claim_sound_def)
  with assms show ?thesis unfolding claim_sound_def by auto
qed

lemma claim_sound_won_nil: "claim_sound us e w d d' \<Longrightarrow> claim_sound us e [] d d'"
  by (simp add: claim_sound_def)

lemma claim_sound_result:
  assumes "lease_keys_ok d" and "claim_sound us e (fst res) d (snd res)"
    and "claim_result oc res d = (w, d')"
  shows "claim_sound us e w d d'"
  using assms claim_sound_refl [OF assms(1)] claim_sound_won_nil [OF assms(2)]
  by (auto simp: claim_result_def split: if_splits)

lemma keys_ok_InsertMaintenanceLeases:
  "lease_keys_ok d \<Longrightarrow> lease_keys_ok (snd (InsertMaintenanceLeases now ts us d))"
proof (induction ts arbitrary: d)
  case (Cons t ts)
  have "lease_keys_ok (InsertMaintenanceLeaseIfAbsent now t us d)"
    using Cons.prems by (simp add: InsertMaintenanceLeaseIfAbsent_def distinct_insert_on_conflict)
  from Cons.IH [OF this] show ?case by (simp add: Let_def case_prod_unfold)
qed simp

lemma claim_sound_insert:
  assumes "lease_keys_ok d"
  shows "claim_sound us e (fst (InsertMaintenanceLeases now ts us d)) d
     (snd (InsertMaintenanceLeases now ts us d))"
  using keys_ok_InsertMaintenanceLeases [OF assms]
  by (auto simp: claim_sound_def maintainer_def find_lease_InsertMaintenanceLeases
      InsertMaintenanceLeases_won)

lemma claimable_not_live:
  "claimable_lease lk now ts (Some co) d l \<Longrightarrow> \<not> lease_live now co d l"
  by (auto simp: claimable_lease_def lease_live_def)

lemma ClaimMaintenanceLeases_won:
  assumes "lease_keys_ok d"
  shows "t \<in> set (fst (ClaimMaintenanceLeases lk now us ts co d)) \<longleftrightarrow>
     (\<exists>l. find_lease t d = Some l \<and> claimable_lease lk now ts co d l)"
proof -
  have "find_lease (l_Topic l) d = Some l" if "l \<in> set (maintenance_leases d)" for l
    by (rule find_row_unique [OF assms that])
  then show ?thesis
    by (auto simp: ClaimMaintenanceLeases_def dest!: find_row_SomeD)
qed

lemma maintainer_ClaimMaintenanceLeases:
  "maintainer t (snd (ClaimMaintenanceLeases lk now us ts co d)) =
     map_option (\<lambda>l. if claimable_lease lk now ts co d l then us else l_HolderID l) (find_lease t d)"
  by (cases "find_lease t d") (simp_all add: maintainer_def)

lemma claim_sound_claim:
  assumes "lease_keys_ok d"
  shows "claim_sound us e
     (fst (ClaimMaintenanceLeases lk (e_now e (AtClaimMaintenanceLeases cls)) us ts (Some (claim_cutoff e cls)) d)) d
     (snd (ClaimMaintenanceLeases lk (e_now e (AtClaimMaintenanceLeases cls)) us ts (Some (claim_cutoff e cls)) d))"
    (is "claim_sound us e ?w d ?d'")
proof -
  have "lease_keys_ok ?d'"
    using assms by (simp add: ClaimMaintenanceLeases_def keys_update_where)
  moreover have "\<not> claimable_lease lk (e_now e (AtClaimMaintenanceLeases cls)) ts (Some (claim_cutoff e cls)) d l"
    if "live_throughout e d l" for l
    using that claimable_not_live unfolding live_throughout_def by blast
  ultimately show ?thesis
    by (auto simp: claim_sound_def maintainer_ClaimMaintenanceLeases ClaimMaintenanceLeases_won [OF assms]
        maintainer_def [of _ d])
qed

lemma claimClassShare_sound:
  assumes "lease_keys_ok d" and "claimClassShare o1 e cls class n d = (won, d')"
  shows "claim_sound (instanceID o1) e won d d'"
proof (cases "length (cc_unleased class) + length (cc_stale class) = 0")
  case True
  with assms claim_sound_refl show ?thesis by (simp add: claimClassShare_def)
next
  case False
  let ?u = "e_shuffle e (cc_unleased class)"
  let ?b = "claim_budget class (int n)"
  let ?ins = "if ?u \<noteq> [] then claim_result (e_outcome e (AtInsertMaintenanceLeases cls))
      (InsertMaintenanceLeases (e_now e (AtInsertMaintenanceLeases cls)) (take (nat ?b) ?u) (instanceID o1) d) d
      else ([], d)"
  obtain w1 d1 where ins: "?ins = (w1, d1)" by (cases ?ins)
  have s1: "claim_sound (instanceID o1) e w1 d d1"
  proof (cases "?u = []")
    case True
    with ins claim_sound_refl [OF assms(1)] show ?thesis by simp
  next
    case u: False
    with ins have "claim_result (e_outcome e (AtInsertMaintenanceLeases cls))
      (InsertMaintenanceLeases (e_now e (AtInsertMaintenanceLeases cls)) (take (nat ?b) ?u) (instanceID o1) d) d =
      (w1, d1)" by simp
    from claim_sound_result [OF assms(1) claim_sound_insert [OF assms(1)] this] show ?thesis .
  qed
  then have k1: "lease_keys_ok d1" by (simp add: claim_sound_def)
  show ?thesis
  proof (cases "?b - int (length w1) > 0 \<and> e_shuffle e (cc_stale class) \<noteq> []")
    case no: False
    with False ins assms(2) s1 show ?thesis by (auto simp: claimClassShare_def Let_def)
  next
    case True
    let ?res = "ClaimMaintenanceLeases (e_lease_locked e) (e_now e (AtClaimMaintenanceLeases cls)) (instanceID o1)
        (take (nat (?b - int (length w1))) (e_shuffle e (cc_stale class))) (Some (claim_cutoff e cls)) d1"
    obtain w2 d2 where cl: "claim_result (e_outcome e (AtClaimMaintenanceLeases cls)) ?res d1 = (w2, d2)"
      by (cases "claim_result (e_outcome e (AtClaimMaintenanceLeases cls)) ?res d1")
    from claim_sound_result [OF k1 claim_sound_claim [OF k1] cl]
    have "claim_sound (instanceID o1) e w2 d1 d2" .
    from claim_sound_trans [OF s1 this] False True ins assms(2) cl show ?thesis
      by (auto simp: claimClassShare_def Let_def claim_cutoff_def)
  qed
qed

lemma claimTopics_claim_sound:
  assumes "lease_keys_ok d" and "claimTopics o1 e ex df d = (won, d')"
  shows "claim_sound (instanceID o1) e won d d'"
proof (cases "length (cc_unleased ex) + length (cc_stale ex) + length (cc_unleased df) + length (cc_stale df) = 0
    \<or> call_err e AtCountLiveConsumerSessions \<noteq> None")
  case True
  with assms claim_sound_refl [OF assms(1)] show ?thesis
    by (auto simp: claimTopics_def split: on_err_splits)
next
  case False
  obtain live maint where n: "CountLiveConsumerSessions (e_now e AtCountLiveConsumerSessions) d = (live, maint)"
    by (cases "CountLiveConsumerSessions (e_now e AtCountLiveConsumerSessions) d")
  obtain w1 d1 where c1: "claimClassShare o1 e True ex live d = (w1, d1)"
    by (cases "claimClassShare o1 e True ex live d")
  obtain w2 d2 where c2: "claimClassShare o1 e False df maint d1 = (w2, d2)"
    by (cases "claimClassShare o1 e False df maint d1")
  from claimClassShare_sound [OF assms(1) c1] have s1: "claim_sound (instanceID o1) e w1 d d1" .
  then have "lease_keys_ok d1" by (simp add: claim_sound_def)
  from claim_sound_trans [OF s1 claimClassShare_sound [OF this c2]] assms(2) False n c1 c2
  show ?thesis by (auto simp: claimTopics_def)
qed


section \<open>The size of a claim\<close>

lemma claim_budget_ge_1: "1 \<le> claim_budget class n"
  by (simp add: claim_budget_def Let_def)

lemma ClaimMaintenanceLeases_length:
  assumes "lease_keys_ok d"
  shows "length (fst (ClaimMaintenanceLeases lk now us ts co d)) \<le> length ts"
proof -
  let ?w = "fst (ClaimMaintenanceLeases lk now us ts co d)"
  have "distinct ?w"
    using assms by (simp add: ClaimMaintenanceLeases_def distinct_map_filter)
  then have "length ?w = card (set ?w)" by (simp add: distinct_card)
  also have "\<dots> \<le> card (set ts)"
    by (rule card_mono) (auto simp: ClaimMaintenanceLeases_def claimable_lease_def)
  also have "\<dots> \<le> length ts" by (rule card_length)
  finally show ?thesis .
qed

lemma claim_result_length:
  "claim_result oc res d = (w, d') \<Longrightarrow> length (fst res) \<le> k \<Longrightarrow> length w \<le> k"
  by (auto simp: claim_result_def split: if_splits)

lemma InsertMaintenanceLeases_wins_all:
  assumes "distinct ts" and "\<And>t. t \<in> set ts \<Longrightarrow> find_lease t d = None"
  shows "length ts \<le> length (fst (InsertMaintenanceLeases now ts us d))"
proof -
  have "set (fst (InsertMaintenanceLeases now ts us d)) = set ts"
    using assms(2) by (auto simp: InsertMaintenanceLeases_won)
  then have "card (set ts) \<le> length (fst (InsertMaintenanceLeases now ts us d))"
    by (metis card_length)
  with assms(1) show ?thesis by (simp add: distinct_card)
qed

lemma claimClassShare_bound:
  assumes "lease_keys_ok d" and "claimClassShare o1 e cls class n d = (won, d')"
  shows "length won \<le> nat (claim_budget class (int n))"
proof (cases "length (cc_unleased class) + length (cc_stale class) = 0")
  case True
  with assms show ?thesis by (simp add: claimClassShare_def)
next
  case False
  let ?u = "e_shuffle e (cc_unleased class)"
  let ?b = "claim_budget class (int n)"
  let ?ins = "if ?u \<noteq> [] then claim_result (e_outcome e (AtInsertMaintenanceLeases cls))
      (InsertMaintenanceLeases (e_now e (AtInsertMaintenanceLeases cls)) (take (nat ?b) ?u) (instanceID o1) d) d
      else ([], d)"
  obtain w1 d1 where ins: "?ins = (w1, d1)" by (cases ?ins)
  have l1: "length w1 \<le> nat ?b"
  proof (cases "?u = []")
    case True
    with ins show ?thesis by simp
  next
    case u: False
    with ins have r: "claim_result (e_outcome e (AtInsertMaintenanceLeases cls))
      (InsertMaintenanceLeases (e_now e (AtInsertMaintenanceLeases cls)) (take (nat ?b) ?u) (instanceID o1) d) d =
      (w1, d1)" by simp
    show ?thesis
      by (rule claim_result_length [OF r order_trans [OF InsertMaintenanceLeases_won_length]]) simp
  qed
  have k1: "lease_keys_ok d1"
    using ins assms(1) keys_ok_InsertMaintenanceLeases [OF assms(1)]
    by (auto simp: claim_result_def split: if_splits)
  show ?thesis
  proof (cases "?b - int (length w1) > 0 \<and> e_shuffle e (cc_stale class) \<noteq> []")
    case no: False
    with False ins assms(2) l1 show ?thesis by (auto simp: claimClassShare_def Let_def)
  next
    case True
    let ?k = "nat (?b - int (length w1))"
    let ?res = "ClaimMaintenanceLeases (e_lease_locked e) (e_now e (AtClaimMaintenanceLeases cls)) (instanceID o1)
        (take ?k (e_shuffle e (cc_stale class))) (Some (e_clock e (AtClaimMaintenanceLeases cls)
             - maintenanceLeaseTimeout (e_timings e))) d1"
    obtain w2 d2 where cl: "claim_result (e_outcome e (AtClaimMaintenanceLeases cls)) ?res d1 = (w2, d2)"
      by (cases "claim_result (e_outcome e (AtClaimMaintenanceLeases cls)) ?res d1")
    have "length w2 \<le> ?k"
      by (rule claim_result_length [OF cl order_trans [OF ClaimMaintenanceLeases_length [OF k1]]]) simp
    moreover have "won = w1 @ w2"
      using False True ins assms(2) cl by (auto simp: claimClassShare_def Let_def)
    ultimately show ?thesis using True by simp arith
  qed
qed

section \<open>Sorting the candidates\<close>

definition row_ttl :: "duration \<Rightarrow> GetMaintenanceCandidateTopicsRow \<Rightarrow> duration" where
  "row_ttl dt c = (case c_ExpirationNanos c of None \<Rightarrow> dt | Some n \<Rightarrow> n)"

definition class_topics :: "claimClass \<Rightarrow> topic set" where
  "class_topics class = set (cc_unleased class) \<union> set (cc_stale class)"

lemma class_topics_empty [simp]: "class_topics empty_class = {}"
  by (simp add: class_topics_def empty_class_def)

lemma class_topics_add: "class_topics (add_candidate c class) \<subseteq> insert (c_Topic c) (class_topics class)"
  by (auto simp: class_topics_def add_candidate_def Let_def)

definition sorted_from ::
  "duration \<Rightarrow> GetMaintenanceCandidateTopicsRow list \<Rightarrow> scan_acc \<Rightarrow> bool" where
  "sorted_from dt cs acc \<longleftrightarrow>
     (\<forall>t ttl. sa_ttls acc t = Some ttl \<longrightarrow>
        (\<exists>c \<in> set cs. c_Topic c = t \<and> row_ttl dt c = ttl \<and> ttl > 0)) \<and>
     (\<forall>c \<in> set cs. row_ttl dt c > 0 \<longrightarrow> sa_ttls acc (c_Topic c) \<noteq> None) \<and>
     (\<forall>t \<in> set (sa_held acc). sa_ttls acc t \<noteq> None \<and> (\<exists>c \<in> set cs. c_Topic c = t \<and> c_HeldByMe c)) \<and>
     (\<forall>t \<in> class_topics (sa_explicit acc) \<union> class_topics (sa_dflt acc). sa_ttls acc t \<noteq> None)"

lemma sorted_from_classify:
  assumes "sorted_from dt cs acc"
  shows "sorted_from dt (cs @ [c]) (classify dt c acc)"
proof (cases "row_ttl dt c \<le> 0")
  case True
  with assms show ?thesis
    by (auto simp: sorted_from_def classify_def Let_def row_ttl_def)
next
  case False
  let ?acc = "classify dt c acc"
  have ttls: "sa_ttls ?acc = (sa_ttls acc)(c_Topic c \<mapsto> row_ttl dt c)"
    using False by (simp add: classify_def Let_def row_ttl_def)
  have held: "sa_held ?acc = (if c_HeldByMe c then sa_held acc @ [c_Topic c] else sa_held acc)"
    using False by (simp add: classify_def Let_def row_ttl_def)
  have cls: "class_topics (sa_explicit ?acc) \<union> class_topics (sa_dflt ?acc) \<subseteq>
      insert (c_Topic c) (class_topics (sa_explicit acc) \<union> class_topics (sa_dflt acc))"
    using False class_topics_add [of c "sa_explicit acc"] class_topics_add [of c "sa_dflt acc"]
    by (auto simp: classify_def Let_def row_ttl_def)
  show ?thesis
    unfolding sorted_from_def
  proof (intro conjI ballI allI impI)
    fix t ttl
    assume "sa_ttls ?acc t = Some ttl"
    with ttls False assms show "\<exists>c' \<in> set (cs @ [c]). c_Topic c' = t \<and> row_ttl dt c' = ttl \<and> 0 < ttl"
      by (auto simp: sorted_from_def split: if_splits)
  next
    fix c'
    assume "c' \<in> set (cs @ [c])" "0 < row_ttl dt c'"
    with ttls assms show "sa_ttls ?acc (c_Topic c') \<noteq> None" by (auto simp: sorted_from_def)
  next
    fix t
    assume "t \<in> set (sa_held ?acc)"
    with held ttls assms show "sa_ttls ?acc t \<noteq> None" "\<exists>c' \<in> set (cs @ [c]). c_Topic c' = t \<and> c_HeldByMe c'"
      by (auto simp: sorted_from_def split: if_splits)
  next
    fix t
    assume "t \<in> class_topics (sa_explicit ?acc) \<union> class_topics (sa_dflt ?acc)"
    with cls ttls assms show "sa_ttls ?acc t \<noteq> None" by (auto simp: sorted_from_def)
  qed
qed

lemma sorted_from_classify_all: "sorted_from dt cs (classify_all dt cs)"
proof (induction cs rule: rev_induct)
  case Nil
  show ?case by (simp add: classify_all_def sorted_from_def)
next
  case (snoc c cs)
  then show ?case using sorted_from_classify by (simp add: classify_all_def)
qed

lemma claimClassShare_topics:
  assumes "shuffles e" and "claimClassShare o1 e cls class n d = (won, d')"
  shows "set won \<subseteq> class_topics class"
proof -
  have "set (fst (InsertMaintenanceLeases now (take k (e_shuffle e (cc_unleased class))) us d)) \<subseteq>
      set (cc_unleased class)" for now k us and d :: "'a db"
    using shufflesD(1) [OF assms(1)] by (auto simp: InsertMaintenanceLeases_won dest: in_set_takeD)
  moreover have "set (fst (ClaimMaintenanceLeases lk now us (take k (e_shuffle e (cc_stale class))) co d)) \<subseteq>
      set (cc_stale class)" for lk now k us co and d :: "'a db"
    using shufflesD(1) [OF assms(1)]
    by (auto simp: ClaimMaintenanceLeases_def claimable_lease_def dest: in_set_takeD)
  ultimately show ?thesis
    using assms(2)
    by (fastforce simp: claimClassShare_def Let_def claim_result_def class_topics_def
        split: prod.splits if_splits)
qed

lemma claimTopics_topics:
  assumes "shuffles e" and "claimTopics o1 e ex df d = (won, d')"
  shows "set won \<subseteq> class_topics ex \<union> class_topics df"
  using assms(2) claimClassShare_topics [OF assms(1)]
  by (fastforce simp: claimTopics_def Let_def split: prod.splits if_splits on_err_splits)


section \<open>Properties\<close>

text \<open>C21: the scanner claims without stealing. Whatever the classes, the shuffle and the outcome
  of its statements, every topic it reports as won is leased to it, what it held it still holds,
  and a lease of another instance that is live is neither won nor touched.\<close>

theorem claimTopics_sound:
  assumes "db_ok d" and "claimTopics o1 e ex df d = (won, d')"
  shows "(\<forall>t \<in> set won. maintainer t d' = Some (instanceID o1)) \<and>
    (\<forall>t. maintainer t d = Some (instanceID o1) \<longrightarrow> maintainer t d' = Some (instanceID o1)) \<and>
    (\<forall>t l. find_lease t d = Some l \<and> l_HolderID l \<noteq> instanceID o1 \<and> live_throughout e d l \<longrightarrow>
       find_lease t d' = Some l \<and> t \<notin> set won) \<and>
    messages d' = messages d \<and> topics d' = topics d \<and> consumer_sessions d' = consumer_sessions d"
  using claimTopics_claim_sound [OF db_okD(2) [OF assms(1)] assms(2)]
  unfolding claim_sound_def by blast

text \<open>A class's claim is bounded by the fair share, the ceiling of candidates per instance less
  what is held but at least one; and without faults it takes unleased topics up to that bound, so
  a claimable topic is never stranded.\<close>

theorem claimClassShare_budget:
  assumes "db_ok d" and "claimClassShare o1 e cls class n d = (won, d')"
    and "shuffles e" and "no_faults e"
    and "distinct (cc_unleased class)" and "\<forall>t \<in> set (cc_unleased class). find_lease t d = None"
  shows "length won \<le> nat (claim_budget class (int n)) \<and>
    min (nat (claim_budget class (int n))) (length (cc_unleased class)) \<le> length won \<and>
    1 \<le> claim_budget class (int n)"
proof -
  let ?u = "e_shuffle e (cc_unleased class)"
  let ?b = "nat (claim_budget class (int n))"
  let ?i = "InsertMaintenanceLeases (e_now e (AtInsertMaintenanceLeases cls)) (take ?b ?u) (instanceID o1) d"
  have "min ?b (length (cc_unleased class)) \<le> length won"
  proof (cases "cc_unleased class = []")
    case False
    have "length (take ?b ?u) \<le> length (fst ?i)"
    proof (rule InsertMaintenanceLeases_wins_all)
      show "distinct (take ?b ?u)" using shufflesD(3) [OF assms(3)] assms(5) by simp
      show "find_lease t d = None" if "t \<in> set (take ?b ?u)" for t
        using that shufflesD(1) [OF assms(3)] assms(6) by (auto dest: in_set_takeD)
    qed
    moreover have "length (fst ?i) \<le> length won"
    proof -
      have "?u \<noteq> []" using False shufflesD(4) [OF assms(3)] by simp
      with assms(2,4) False have "\<exists>w2. won = fst ?i @ w2"
        by (simp add: claimClassShare_def Let_def claim_result_def case_prod_unfold split: if_split_asm)
          metis
      then show ?thesis by auto
    qed
    ultimately show ?thesis using shufflesD(2) [OF assms(3)] by (simp add: min.commute)
  qed simp
  with claimClassShare_bound [OF db_okD(2) [OF assms(1)] assms(2)] claim_budget_ge_1 show ?thesis
    by blast
qed

text \<open>What a scan goes through, and what it does to a loop that runs and to one that does not.\<close>

lemma scan_parts:
  assumes "db_ok d" and "shuffles e" and "e_outcome e AtGetMaintenanceCandidateTopics = Done"
    and "scanTopics o1 e lc mg d = (lc', mg', d')"
  obtains inc lc1 d1 acc won where "catchup_sweep e lc d = (inc, lc1, d1)"
    "topics d1 = topics d" "maintenance_leases d1 = maintenance_leases d"
    "sorted_from (defaultExpiration o1) (scan_candidates o1 e inc d1) acc"
    "claim_sound (instanceID o1) e won d1 d'" "\<And>t. t \<in> set won \<Longrightarrow> sa_ttls acc t \<noteq> None"
    "mg' = reconcileLoops (sa_ttls acc) (sa_held acc @ won) (reapExitedLoops mg)"
proof -
  obtain inc lc1 d1 where sw: "catchup_sweep e lc d = (inc, lc1, d1)"
    by (cases "catchup_sweep e lc d")
  then have same: "topics d1 = topics d" "maintenance_leases d1 = maintenance_leases d"
    by (auto simp: catchup_sweep_def exec_pool_def split: if_splits prod.splits)
  define acc where "acc = classify_all (defaultExpiration o1) (scan_candidates o1 e inc d1)"
  obtain won d2 where cl: "claimTopics o1 e (sa_explicit acc) (sa_dflt acc) d1 = (won, d2)"
    by (cases "claimTopics o1 e (sa_explicit acc) (sa_dflt acc) d1")
  have sf: "sorted_from (defaultExpiration o1) (scan_candidates o1 e inc d1) acc"
    unfolding acc_def by (rule sorted_from_classify_all)
  have sound: "claim_sound (instanceID o1) e won d1 d2"
    using db_okD(2) [OF assms(1)] same(2) by (intro claimTopics_claim_sound [OF _ cl]) simp
  have won: "sa_ttls acc t \<noteq> None" if "t \<in> set won" for t
    using claimTopics_topics [OF assms(2) cl] that sf unfolding sorted_from_def by blast
  have "mg' = reconcileLoops (sa_ttls acc) (sa_held acc @ won) (reapExitedLoops mg)" "d' = d2"
    using assms(3,4) sw cl by (simp_all add: scanTopics_def Let_def acc_def)
  with that [OF sw same sf _ won] sound show thesis by simp
qed

lemma candidate_row:
  assumes "db_ok d" "topics d1 = topics d" "maintenance_leases d1 = maintenance_leases d"
    and "c \<in> set (scan_candidates o1 e inc d1)" "c_Topic c = t"
  shows "\<exists>r. find_topic t d = Some r \<and> row_ttl (defaultExpiration o1) c = effective_ttl o1 r \<and>
    c_HeldByMe c = (maintainer t d1 = Some (instanceID o1))"
proof -
  from assms(2-) obtain r where r: "r \<in> set (topics d)" "t_Topic r = t" "c_ExpirationNanos c = t_ExpirationNanos r"
    "c_HeldByMe c = (maintainer t d1 = Some (instanceID o1))"
    by (auto simp: scan_candidates_def GetMaintenanceCandidateTopics_def)
  from find_row_unique [OF db_okD(1) [OF assms(1)] r(1)] r(2-4) show ?thesis
    by (auto simp: row_ttl_def effective_ttl_def)
qed

lemma reconcile_new:
  "mg t = None \<Longrightarrow> reconcileLoops ttls held mg t = Some mt \<Longrightarrow>
     t \<in> set held \<and> mt = new_loop (case ttls t of None \<Rightarrow> 0 | Some ttl \<Rightarrow> ttl)"
  by (auto simp: reconcileLoops_def split: if_splits)

lemma reconcile_running:
  assumes "mg t = Some mt"
  obtains mt' where "reconcileLoops ttls held mg t = Some mt'" "mt_ttl mt' = mt_ttl mt"
    "ttls t = None \<Longrightarrow> mt_dormant mt' \<and> mt_cancelled mt'"
proof -
  have "reconcileLoops ttls held mg t = (if ttls t = None then Some (mt\<lparr>mt_dormant := True, mt_cancelled := True\<rparr>)
      else if t \<notin> set held then Some (mt\<lparr>mt_cancelled := True\<rparr>) else Some mt)"
    using assms by (simp only: reconcileLoops_def option.case)
  also have "\<dots> = Some (if ttls t = None then mt\<lparr>mt_dormant := True, mt_cancelled := True\<rparr>
      else if t \<notin> set held then mt\<lparr>mt_cancelled := True\<rparr> else mt)"
    by (simp only: if_distrib [of Some])
  finally show thesis by (rule that) simp_all
qed

text \<open>C22: one tick of the scanner and the loops. A loop that the tick starts is for a topic whose
  lease this instance holds afterwards, with the TTL of the topic's row; a loop whose topic left
  the candidates is told to go dormant; and no running loop is replaced.\<close>

theorem scanTopics_loops:
  assumes "db_ok d" and "shuffles e" and "e_outcome e AtGetMaintenanceCandidateTopics = Done"
    and "scanTopics o1 e lc mg d = (lc', mg', d')"
  shows "(\<forall>t mt. reapExitedLoops mg t = None \<and> mg' t = Some mt \<longrightarrow>
       maintainer t d' = Some (instanceID o1) \<and>
       (\<exists>r. find_topic t d = Some r \<and> effective_ttl o1 r > 0 \<and> mt = new_loop (effective_ttl o1 r))) \<and>
    (\<forall>t mt. reapExitedLoops mg t = Some mt \<longrightarrow>
       (\<exists>mt'. mg' t = Some mt' \<and> mt_ttl mt' = mt_ttl mt \<and>
          (t \<notin> c_Topic ` set (scan_candidates o1 e (fst (catchup_sweep e lc d)) d) \<longrightarrow>
             mt_dormant mt' \<and> mt_cancelled mt')))"
proof -
  obtain inc lc1 d1 acc won where sw: "catchup_sweep e lc d = (inc, lc1, d1)"
    and same: "topics d1 = topics d" "maintenance_leases d1 = maintenance_leases d"
    and sf: "sorted_from (defaultExpiration o1) (scan_candidates o1 e inc d1) acc"
    and sound: "claim_sound (instanceID o1) e won d1 d'" and won: "\<And>t. t \<in> set won \<Longrightarrow> sa_ttls acc t \<noteq> None"
    and mg': "mg' = reconcileLoops (sa_ttls acc) (sa_held acc @ won) (reapExitedLoops mg)"
    by (rule scan_parts [OF assms]) blast
  note row = candidate_row [OF assms(1) same]
  show ?thesis
  proof (intro conjI allI impI)
    fix t mt
    assume "reapExitedLoops mg t = None \<and> mg' t = Some mt"
    with reconcile_new [of "reapExitedLoops mg" t] have held: "t \<in> set (sa_held acc @ won)"
      and mt: "mt = new_loop (case sa_ttls acc t of None \<Rightarrow> 0 | Some ttl \<Rightarrow> ttl)"
      unfolding mg' by blast+
    from held sf won obtain ttl where ttl: "sa_ttls acc t = Some ttl"
      unfolding sorted_from_def by fastforce
    with sf obtain c where c: "c \<in> set (scan_candidates o1 e inc d1)" "c_Topic c = t"
      "row_ttl (defaultExpiration o1) c = ttl" "0 < ttl"
      unfolding sorted_from_def by blast
    from row [OF c(1,2)] c(3,4) mt ttl show
      "\<exists>r. find_topic t d = Some r \<and> effective_ttl o1 r > 0 \<and> mt = new_loop (effective_ttl o1 r)"
      by auto
    have "t \<notin> set won \<Longrightarrow> maintainer t d1 = Some (instanceID o1)"
      using held sf row unfolding sorted_from_def by fastforce
    with sound show "maintainer t d' = Some (instanceID o1)"
      by (cases "t \<in> set won") (simp_all add: claim_sound_def)
  next
    fix t mt
    assume "reapExitedLoops mg t = Some mt"
    from reconcile_running [of "reapExitedLoops mg", OF this] obtain mt' where mt': "mg' t = Some mt'"
      "mt_ttl mt' = mt_ttl mt" "sa_ttls acc t = None \<Longrightarrow> mt_dormant mt' \<and> mt_cancelled mt'"
      unfolding mg' by metis
    have "c_Topic ` set (scan_candidates o1 e inc d1) = c_Topic ` set (scan_candidates o1 e inc d)"
      using same by (simp add: scan_candidates_def GetMaintenanceCandidateTopics_def image_image)
    with sf have "t \<notin> c_Topic ` set (scan_candidates o1 e inc d) \<Longrightarrow> sa_ttls acc t = None"
      unfolding sorted_from_def by (metis image_eqI not_Some_eq)
    with mt' sw show "\<exists>mt'. mg' t = Some mt' \<and> mt_ttl mt' = mt_ttl mt \<and>
          (t \<notin> c_Topic ` set (scan_candidates o1 e (fst (catchup_sweep e lc d)) d) \<longrightarrow>
             mt_dormant mt' \<and> mt_cancelled mt')"
      by (intro exI [of _ mt']) simp
  qed
qed


section \<open>The TTL of a running loop\<close>

lemma scan_keeps_ttl:
  assumes "scanTopics o1 e lc mg d = (lc', mg', d')" and "reapExitedLoops mg t = Some mt"
  shows "\<exists>mt'. mg' t = Some mt' \<and> mt_ttl mt' = mt_ttl mt"
proof -
  have "\<exists>mt'. reconcileLoops ttls held (reapExitedLoops mg) t = Some mt' \<and> mt_ttl mt' = mt_ttl mt"
    for ttls held
    using assms(2) by (simp add: reconcileLoops_def)
  moreover have "mg' = reapExitedLoops mg \<or> (\<exists>ttls held. mg' = reconcileLoops ttls held (reapExitedLoops mg))"
    using assms(1) by (auto simp: scanTopics_def Let_def split: prod.splits on_err_splits)
  ultimately show ?thesis using assms(2) by auto
qed

lemma oldest_le:
  assumes "m \<in> set (messages d)"
  shows "\<exists>ts. GetOldestMessageInsertedAt (m_Topic m) d = Some ts \<and> ts \<le> m_InsertedAt m"
proof -
  let ?xs = "map m_InsertedAt (filter (\<lambda>m'. m_Topic m' = m_Topic m) (messages d))"
  have m: "m_InsertedAt m \<in> set (sort_key (\<lambda>t. t) ?xs)" using assms by simp
  then obtain ts rest where x: "sort_key (\<lambda>t. t) ?xs = ts # rest" by (cases "sort_key (\<lambda>t. t) ?xs") auto
  have "sorted (sort_key (\<lambda>t. t) ?xs)" using sorted_sort_key [of "\<lambda>t. t" ?xs] by simp
  with x m have "ts \<le> m_InsertedAt m" by auto
  with x show ?thesis by (simp add: GetOldestMessageInsertedAt_def)
qed

lemma find_topic_publish:
  assumes "distinct (map fst xs)" and "\<forall>t. no_faults (es t)" and "map_of xs t = Some ttl" and "ttl > 0"
  shows "\<exists>r. find_topic t (publish_expirations es xs (d :: 'a db)) = Some r \<and> t_ExpirationNanos r =
    (case Option.bind (find_topic t d) t_ExpirationNanos of Some n \<Rightarrow> Some n | None \<Rightarrow> Some ttl)"
  using assms(1,3)
proof (induction xs arbitrary: d)
  case Nil
  then show ?case by simp
next
  case (Cons x xs)
  obtain u v where x: "x = (u, v)" by (cases x)
  let ?d = "snd (ensureTopicRow (es u) u v d)"
  have d: "?d = InsertTopicIfAbsent (e_now (es u) AtInsertTopicIfAbsent) u (if v > 0 then Some v else None) d"
    using assms(2) by (simp add: ensureTopicRow_def exec_pool_def)
  show ?case
  proof (cases "u = t")
    case True
    have keep: "find_topic t (publish_expirations es ys d') = find_topic t d'"
      if "t \<notin> fst ` set ys" for ys and d' :: "'a db"
      using that
    proof (induction ys arbitrary: d')
      case (Cons y ys)
      obtain a b where "y = (a, b)" by (cases y)
      with Cons assms(2) show ?case by (auto simp: ensureTopicRow_def exec_pool_def)
    qed simp
    have "t \<notin> fst ` set xs" using Cons.prems(1) x True by auto
    then have "find_topic t (publish_expirations es (x # xs) d) = find_topic t ?d"
      using x keep [of xs ?d] by simp
    moreover have "v = ttl" using Cons.prems(2) x True by simp
    ultimately show ?thesis
      using True d assms(4) by (cases "find_topic t d") (auto simp: coalesce_def split: option.splits)
  next
    case False
    with Cons.prems x have p: "distinct (map fst xs)" "map_of xs t = Some ttl" by auto
    from Cons.IH [OF p, of ?d] False d x show ?thesis by simp
  qed
qed

lemma mt_ttl_new_loop [simp]: "mt_ttl (new_loop x) = x"
  by (simp add: new_loop_def)

text \<open>A loop keeps the TTL it was started with. When a topic gets an expiration of its own after
  an instance started a loop for it with the default one, every later scan leaves the loop as it
  is, and the loop deletes messages that by the topic's own expiration are not expired.\<close>

theorem stale_ttl_deletes_early:
  assumes "scanTopics o1 e lc mg d = (lc', mg', d')" and "reapExitedLoops mg t = Some mt"
    and "find_topic t d' = Some r" and "t_ExpirationNanos r = Some own"
    and "m \<in> set (messages d')" and "m_Topic m = t"
    and "no_faults e2" and "\<not> maintenance_contended o1 e2 t d'"
    and "m_InsertedAt m + mt_ttl mt \<le> e_clock e2 AtLoopCheck"
    and "m_InsertedAt m + mt_ttl mt < e_clock e2 AtDeleteExpiredMessages"
    and "e_clock e2 AtDeleteExpiredMessages < m_InsertedAt m + own"
  shows "\<exists>mt'. mg' t = Some mt' \<and> mt_ttl mt' < own \<and>
    m \<notin> set (messages (snd (maintenance_round o1 e2 t (mt_ttl mt') d')))"
proof -
  from scan_keeps_ttl [OF assms(1,2)] obtain mt' where mt': "mg' t = Some mt'" "mt_ttl mt' = mt_ttl mt"
    by blast
  from oldest_le [OF assms(5)] assms(6) obtain ts where
    ts: "GetOldestMessageInsertedAt t d' = Some ts" "ts \<le> m_InsertedAt m"
    by auto
  with assms(9) have "\<not> e_clock e2 AtLoopCheck < ts + mt_ttl mt" by linarith
  with ts assms(6-8,10) have "m \<notin> set (messages (snd (maintenance_round o1 e2 t (mt_ttl mt) d')))"
    by (auto simp: maintenance_round_def runMaintenance_no_faults Let_def)
  with mt' assms(10,11) show ?thesis by (intro exI [of _ mt']) simp
qed

text \<open>\<open>NewOutbox\<close> registers the instance's session and publishes its topic expirations; of
  two instances that configure different expirations for a topic the first one wins for good,
  because an expiration that is stored already is never overwritten.\<close>

theorem NewOutbox_publishes:
  assumes "NewOutbox fresh migrated es e fs d = (Inr o1, d')"
    and "\<forall>t. no_faults (es t)" and "no_faults e"
    and "map_of (expirations o1) t = Some ttl" and "ttl > 0"
  shows "instanceID o1 = fresh \<and>
    (\<exists>r. find_topic t d' = Some r \<and> t_ExpirationNanos r =
       (case Option.bind (find_topic t d) t_ExpirationNanos of Some n \<Rightarrow> Some n | None \<Rightarrow> Some ttl)) \<and>
    session_expiry fresh d' =
      Some (e_clock e AtUpsertConsumerSession + exclusiveLeaseDuration (e_timings e))"
proof -
  have o1: "o1 = new_outboxImpl fresh (outbox_opts fs)"
    and d': "d' = snd (upsertConsumerSession o1 e (publish_expirations es (expirations o1) d))"
    using assms(1) by (auto simp: NewOutbox_def Let_def split: on_err_splits)
  have dist: "distinct (map fst (expirations o1))"
    using o1 distinct_expirations [of fs] by (simp add: new_outboxImpl_def)
  have "topics d' = topics (publish_expirations es (expirations o1) d)"
    using d' by (simp add: upsertConsumerSession_def upsertConsumerSessionIn_def exec_pool_def)
  moreover have "session_expiry fresh d' =
      Some (e_clock e AtUpsertConsumerSession + exclusiveLeaseDuration (e_timings e))"
    using d' assms(3) o1
    by (simp add: upsertConsumerSession_def upsertConsumerSessionIn_def exec_pool_def new_outboxImpl_def)
  ultimately show ?thesis
    using find_topic_publish [OF dist assms(2,4,5), of d] o1 by (simp add: new_outboxImpl_def)
qed


section \<open>Witnesses\<close>

text \<open>Topic \<open>a\<close> expires after 100 ns, holds a message of time 10 and is maintained by
  instance 1, whose session lasts for 30 seconds.\<close>

definition maint_row :: Topic where
  "maint_row = \<lparr>t_Topic = ''a'', t_ExpirationNanos = Some 100, t_ExclusiveConsumerID = None,
     t_ExclusiveConsumerExpiresAt = None, t_LastInsertedAt = Some 10\<rparr>"

definition maint_db :: "unit db" where
  "maint_db = (empty_db ())\<lparr>messages := [sample_message 1 ''a'' 10], topics := [maint_row],
     maintenance_leases := [\<lparr>l_Topic = ''a'', l_HolderID = 1, l_AcquiredAt = 0\<rparr>],
     consumer_sessions := [\<lparr>s_ConsumerID = 1, s_ExpiresAt = 30 * second,
       s_MaintainsDefaultExpiration = False\<rparr>],
     messages_id_seq := 2\<rparr>"

lemma maint_db_simps [simp]:
  "messages maint_db = [sample_message 1 ''a'' 10]"
  "topics maint_db = [maint_row]"
  "maintenance_leases maint_db = [\<lparr>l_Topic = ''a'', l_HolderID = 1, l_AcquiredAt = 0\<rparr>]"
  "consumer_sessions maint_db = [\<lparr>s_ConsumerID = 1, s_ExpiresAt = 30 * second,
       s_MaintainsDefaultExpiration = False\<rparr>]"
  "t_Topic maint_row = ''a''" "t_ExpirationNanos maint_row = Some 100"
  "t_LastInsertedAt maint_row = Some 10"
  "m_Topic (sample_message i t at) = t" "m_InsertedAt (sample_message i t at) = at"
  "effective_ttl o1 maint_row = 100"
  by (simp_all add: maint_db_def maint_row_def sample_message_def effective_ttl_def)

lemma maint_db_ok: "db_ok maint_db" "activity_ok maint_db"
  by (simp_all add: maint_db_def maint_row_def sample_message_def empty_db_def db_ok_def pk_ok_def
      ids_ok_def topics_registered_def activity_ok_def bump_granularity_def)

lemma maint_contended [simp]:
  "maintenance_contended (sample_outbox i) (quiet_env n) ''a'' maint_db \<longleftrightarrow> i \<noteq> 1 \<and> n \<le> 30 * second"
  by (auto simp: maintenance_contended_def lease_live_def session_expired_def)

lemma maint_not_candidate:
  "''a'' \<notin> c_Topic ` set (scan_candidates (sample_outbox 1) (quiet_env (200 * second)) [] maint_db)"
  using candidate_iff [OF maint_db_ok(1), of "''a''" maint_row "sample_outbox 1" "quiet_env (200 * second)" "[]"]
  by (simp add: default_timings_def)

theorem runMaintenance_safe_witness:
  "\<exists>d'. runMaintenance (sample_outbox 1) (quiet_env 200) ''a'' 100 maint_db = (None, d') \<and>
     messages d' = [] \<and> maintainer ''a'' d' = Some 1"
proof -
  obtain d' where d': "runMaintenance (sample_outbox 1) (quiet_env 200) ''a'' 100 maint_db = (None, d')"
    "messages d' = []"
    by (simp add: runMaintenance_no_faults delete_where_def)
  from runMaintenance_safe [OF d'(1)] d' show ?thesis by simp
qed

definition takeover_script :: "(unit outboxImpl \<times> (env \<times> duration) \<times> topic) list" where
  "takeover_script = [(sample_outbox 2, (quiet_env 10, 100), ''a''),
     (sample_outbox 2, (quiet_env (31 * second), 100), ''a'')]"

theorem maintenance_handover_needs_lapse_witness:
  "\<exists>pre o1 e ttl post. takeover_script = pre @ (o1, (e, ttl), ''a'') # post \<and> instanceID o1 \<noteq> 1 \<and>
     maintainer ''a'' (fold (\<lambda>(o1, (e, ttl), t') d. snd (runMaintenance o1 e t' ttl d)) pre maint_db) = Some 1"
proof -
  have a: "maintainer ''a'' maint_db = Some 1" by (simp add: maintainer_def)
  have "maintainer ''a'' (fold (\<lambda>(o1, (e, ttl), t') d. snd (runMaintenance o1 e t' ttl d))
      takeover_script maint_db) \<noteq> Some 1"
    by (simp add: takeover_script_def runMaintenance_no_faults maintainer_def)
  from maintenance_handover_needs_lapse [OF a this] show ?thesis by blast
qed



theorem maintenance_loop_sleeps_witness:
  "\<exists>ds d'. runMaintenanceLoop (sample_outbox 1) ''a'' 100 False (quiet_env 0)
      [\<lparr>lr_ctx_ended = False, lr_env = quiet_env 20, lr_woke = False, lr_others = id\<rparr>] maint_db =
      Some (ds, d') \<and> length ds = 1 \<and> hd ds \<ge> 5 * second"
proof -
  let ?rs = "[\<lparr>lr_ctx_ended = False, lr_env = quiet_env 20, lr_woke = False, lr_others = id\<rparr>] :: unit loop_round list"
  obtain dur d1 where r: "maintenance_round (sample_outbox 1) (quiet_env 20) ''a'' 100 maint_db = (dur, d1)"
    by (cases "maintenance_round (sample_outbox 1) (quiet_env 20) ''a'' 100 maint_db")
  then have l: "runMaintenanceLoop (sample_outbox 1) ''a'' 100 False (quiet_env 0) ?rs maint_db =
      Some ([floored_sleep (quiet_env 20) dur], d1)"
    by simp
  have "\<forall>r \<in> set ?rs. maintenanceMinInterval (e_timings (lr_env r)) \<ge> 5 * second"
    by (simp add: default_timings_def)
  from maintenance_loop_sleeps [OF l this] l show ?thesis by simp
qed

definition one_unleased :: claimClass where
  "one_unleased = \<lparr>cc_candidates = 2, cc_held = 0, cc_unleased = [''b''], cc_stale = [''a'']\<rparr>"

lemma quiet_shuffles [simp]: "shuffles (quiet_env n)"
  by (simp add: shuffles_def)

theorem claimTopics_sound_witness:
  "\<exists>won d'. claimTopics (sample_outbox 2) (quiet_env 20) one_unleased empty_class maint_db = (won, d') \<and>
     find_lease ''a'' d' = find_lease ''a'' maint_db \<and> ''a'' \<notin> set won"
proof -
  obtain won d' where c: "claimTopics (sample_outbox 2) (quiet_env 20) one_unleased empty_class maint_db = (won, d')"
    by (cases "claimTopics (sample_outbox 2) (quiet_env 20) one_unleased empty_class maint_db")
  have "live_throughout (quiet_env 20) maint_db \<lparr>l_Topic = ''a'', l_HolderID = 1, l_AcquiredAt = 0\<rparr>"
    by (simp add: live_throughout_def lease_live_def session_expired_def)
  moreover have "find_lease ''a'' maint_db = Some \<lparr>l_Topic = ''a'', l_HolderID = 1, l_AcquiredAt = 0\<rparr>"
    by simp
  moreover have "l_HolderID \<lparr>l_Topic = ''a'', l_HolderID = 1, l_AcquiredAt = 0\<rparr> \<noteq> instanceID (sample_outbox 2)"
    by simp
  ultimately have "find_lease ''a'' d' = find_lease ''a'' maint_db \<and> ''a'' \<notin> set won"
    using claimTopics_sound [OF maint_db_ok(1) c] by metis
  with c show ?thesis by blast
qed

theorem claimClassShare_budget_witness:
  "1 \<le> length (fst (claimClassShare (sample_outbox 2) (quiet_env 20) True one_unleased 1 maint_db)) \<and>
   length (fst (claimClassShare (sample_outbox 2) (quiet_env 20) True one_unleased 1 maint_db)) \<le> 2"
proof -
  obtain won d' where c: "claimClassShare (sample_outbox 2) (quiet_env 20) True one_unleased 1 maint_db = (won, d')"
    by (cases "claimClassShare (sample_outbox 2) (quiet_env 20) True one_unleased 1 maint_db")
  have "distinct (cc_unleased one_unleased)" "\<forall>t \<in> set (cc_unleased one_unleased). find_lease t maint_db = None"
    by (simp_all add: one_unleased_def)
  from claimClassShare_budget [OF maint_db_ok(1) c quiet_shuffles _ this] c show ?thesis
    by (simp add: one_unleased_def claim_budget_def)
qed

theorem scanTopics_loops_witness:
  "\<exists>lc' mg' d'. scanTopics (sample_outbox 1) (quiet_env 20) (Some 0) (\<lambda>_. None) maint_db = (lc', mg', d') \<and>
     mg' ''a'' = Some (new_loop 100) \<and> maintainer ''a'' d' = Some 1"
proof -
  have sw: "catchup_sweep (quiet_env 20) (Some 0) maint_db = ([], Some 0, maint_db)"
    by (simp add: catchup_sweep_def catchup_due_def default_timings_def)
  have "map c_Topic (scan_candidates (sample_outbox 1) (quiet_env 20) [] maint_db) = [''a'']"
    "map c_HeldByMe (scan_candidates (sample_outbox 1) (quiet_env 20) [] maint_db) = [True]"
    "map c_ExpirationNanos (scan_candidates (sample_outbox 1) (quiet_env 20) [] maint_db) = [Some 100]"
    by (simp_all add: scan_candidates_def GetMaintenanceCandidateTopics_def candidate_topic_def
        default_timings_def maintainer_def)
  then obtain c where cs: "scan_candidates (sample_outbox 1) (quiet_env 20) [] maint_db = [c]"
    and c: "c_Topic c = ''a''" "c_HeldByMe c" "c_ExpirationNanos c = Some 100"
    by auto
  obtain lc' mg' d' where s: "scanTopics (sample_outbox 1) (quiet_env 20) (Some 0) (\<lambda>_. None) maint_db = (lc', mg', d')"
    by (cases "scanTopics (sample_outbox 1) (quiet_env 20) (Some 0) (\<lambda>_. None) maint_db")
  then have "mg' ''a'' \<noteq> None"
    using sw cs c by (auto simp: scanTopics_def classify_all_def classify_def reconcileLoops_def
        reapExitedLoops_def Let_def split: prod.splits)
  moreover have "reapExitedLoops (\<lambda>_. None) ''a'' = None" by (simp add: reapExitedLoops_def)
  moreover have "e_outcome (quiet_env 20) AtGetMaintenanceCandidateTopics = Done" by simp
  ultimately obtain mt where "mg' ''a'' = Some mt" "maintainer ''a'' d' = Some 1"
    "\<exists>r. find_topic ''a'' maint_db = Some r \<and> mt = new_loop (effective_ttl (sample_outbox 1) r)"
    using scanTopics_loops [OF maint_db_ok(1) quiet_shuffles _ s] by fastforce
  with s show ?thesis by auto
qed

theorem stale_ttl_deletes_early_witness:
  "\<exists>lc' mg' d' mt'. scanTopics (sample_outbox 1) (quiet_env 60) (Some 0) [''a'' \<mapsto> new_loop 50] maint_db = (lc', mg', d') \<and>
     mg' ''a'' = Some mt' \<and> mt_ttl mt' < 100 \<and>
     sample_message 1 ''a'' 10 \<notin>
       set (messages (snd (maintenance_round (sample_outbox 1) (quiet_env 80) ''a'' (mt_ttl mt') d')))"
proof -
  obtain lc' mg' d' where s: "scanTopics (sample_outbox 1) (quiet_env 60) (Some 0) [''a'' \<mapsto> new_loop 50] maint_db = (lc', mg', d')"
    by (cases "scanTopics (sample_outbox 1) (quiet_env 60) (Some 0) [''a'' \<mapsto> new_loop 50] maint_db")
  have "catchup_sweep (quiet_env 60) (Some 0) maint_db = ([], Some 0, maint_db)"
    by (simp add: catchup_sweep_def catchup_due_def default_timings_def)
  then obtain acc :: scan_acc and won where cl: "claimTopics (sample_outbox 1) (quiet_env 60) (sa_explicit acc) (sa_dflt acc) maint_db = (won, d')"
    using s by (auto simp: scanTopics_def Let_def split: prod.splits)
  have k: "lease_keys_ok maint_db" by simp
  have "claim_sound 1 (quiet_env 60) won maint_db d'" using claimTopics_claim_sound [OF k cl] by simp
  then have d': "topics d' = [maint_row]" "messages d' = [sample_message 1 ''a'' 10]"
    "maintainer ''a'' d' = Some 1"
    by (auto simp: claim_sound_def maintainer_def)
  have "reapExitedLoops [''a'' \<mapsto> new_loop 50] ''a'' = Some (new_loop 50)"
    by (simp add: reapExitedLoops_def new_loop_def)
  moreover have "\<not> maintenance_contended (sample_outbox 1) (quiet_env 80) ''a'' d'"
    using d'(3) by (auto simp: maintenance_contended_def maintainer_def)
  ultimately have "\<exists>mt'. mg' ''a'' = Some mt' \<and> mt_ttl mt' < 100 \<and> sample_message 1 ''a'' 10 \<notin>
      set (messages (snd (maintenance_round (sample_outbox 1) (quiet_env 80) ''a'' (mt_ttl mt') d')))"
    using d'(1,2)
    by (intro stale_ttl_deletes_early [OF s, where r = maint_row and mt = "new_loop 50"]) simp_all
  with s show ?thesis by blast
qed

theorem NewOutbox_publishes_witness:
  "\<exists>o1 d' r. NewOutbox 7 None (\<lambda>_. quiet_env 20) (quiet_env 20) [WithTopicExpiration ''a'' 55] maint_db =
      (Inr o1, d') \<and> find_topic ''a'' d' = Some r \<and> t_ExpirationNanos r = Some 100"
proof -
  have v: "validateSchemaName ''outbox'' = None"
    by (simp add: validateSchemaName_def schemaNameRE_MatchString_def ident_start_def ident_char_def between_def)
  let ?o = "new_outboxImpl 7 (outbox_opts [WithTopicExpiration ''a'' 55]) :: unit outboxImpl"
  obtain d' where n: "NewOutbox 7 None (\<lambda>_. quiet_env 20) (quiet_env 20) [WithTopicExpiration ''a'' 55] maint_db =
      (Inr ?o, d')"
    using v by (simp add: NewOutbox_def outbox_opts_def defaultOpts_def Let_def)
  have "map_of (expirations ?o) ''a'' = Some 55"
    by (simp add: new_outboxImpl_def outbox_opts_def defaultOpts_def)
  from NewOutbox_publishes [OF n _ _ this] n show ?thesis by auto
qed

end
