(* ===== verification/Utf8_Text.thy ===== *)
theory Utf8_Text
  imports Outbox_Prelude
begin

text \<open>
  UTF-8 as the Go library reads and writes it (\<open>unicode/utf8\<close>). A string is a list of bytes.
  \<open>utf8_DecodeRune\<close> gives the first code point and its width, and U+FFFD with width 1 for a
  byte that starts no well-formed sequence; \<open>utf8_EncodeRune\<close> writes a code point. Two laws
  connect them, and with them a proof about a string never looks at bit patterns again: what was
  encoded decodes to itself, and what was decoded is the encoding of the result or a bad byte.
\<close>

section \<open>Decoding and encoding one code point\<close>

abbreviation byte :: "char \<Rightarrow> nat" where
  "byte c \<equiv> of_char c"

abbreviation RuneError :: nat where
  "RuneError \<equiv> 0xFFFD"

definition is_surrogate :: "nat \<Rightarrow> bool" where
  "is_surrogate r \<longleftrightarrow> 0xD800 \<le> r \<and> r \<le> 0xDFFF"

definition valid_rune :: "nat \<Rightarrow> bool" where
  "valid_rune r \<longleftrightarrow> r \<le> 0x10FFFF \<and> \<not> is_surrogate r"

definition utf8_EncodeRune :: "nat \<Rightarrow> string" where
  "utf8_EncodeRune r0 =
     (let r = (if valid_rune r0 then r0 else RuneError) in
      if r < 0x80 then [char_of r]
      else if r < 0x800 then [char_of (0xC0 + r div 64), char_of (0x80 + r mod 64)]
      else if r < 0x10000
      then [char_of (0xE0 + r div 4096), char_of (0x80 + r div 64 mod 64), char_of (0x80 + r mod 64)]
      else [char_of (0xF0 + r div 262144), char_of (0x80 + r div 4096 mod 64),
            char_of (0x80 + r div 64 mod 64), char_of (0x80 + r mod 64)])"

definition byte_in :: "nat \<Rightarrow> nat \<Rightarrow> char \<Rightarrow> bool" where
  "byte_in lo hi c \<longleftrightarrow> lo \<le> byte c \<and> byte c \<le> hi"

text \<open>The second byte of a sequence has a narrower range after four of the first bytes, which rules
  out overlong forms, surrogates and code points above U+10FFFF.\<close>

definition second_lo :: "nat \<Rightarrow> nat" where
  "second_lo b = (if b = 0xE0 then 0xA0 else if b = 0xF0 then 0x90 else 0x80)"

definition second_hi :: "nat \<Rightarrow> nat" where
  "second_hi b = (if b = 0xED then 0x9F else if b = 0xF4 then 0x8F else 0xBF)"

definition utf8_DecodeRune :: "string \<Rightarrow> nat \<times> nat" where
  "utf8_DecodeRune s =
     (case s of
        [] \<Rightarrow> (RuneError, 0)
      | c0 # s1 \<Rightarrow>
          (let b = byte c0 in
           if b < 0x80 then (b, 1)
           else if b < 0xC2 \<or> 0xF4 < b then (RuneError, 1)
           else (case s1 of
                   [] \<Rightarrow> (RuneError, 1)
                 | c1 # s2 \<Rightarrow>
                     if \<not> byte_in (second_lo b) (second_hi b) c1 then (RuneError, 1)
                     else if b < 0xE0 then ((b - 0xC0) * 64 + (byte c1 - 0x80), 2)
                     else (case s2 of
                             [] \<Rightarrow> (RuneError, 1)
                           | c2 # s3 \<Rightarrow>
                               if \<not> byte_in 0x80 0xBF c2 then (RuneError, 1)
                               else if b < 0xF0
                               then ((b - 0xE0) * 4096 + (byte c1 - 0x80) * 64 + (byte c2 - 0x80), 3)
                               else (case s3 of
                                       [] \<Rightarrow> (RuneError, 1)
                                     | c3 # s4 \<Rightarrow>
                                         if \<not> byte_in 0x80 0xBF c3 then (RuneError, 1)
                                         else ((b - 0xF0) * 262144 + (byte c1 - 0x80) * 4096
                                                 + (byte c2 - 0x80) * 64 + (byte c3 - 0x80), 4))))))"

section \<open>The laws\<close>

lemma byte_char_of [simp]: "byte (char_of n) = n mod 256"
  by simp

lemma byte_eq_iff: "byte c = byte d \<longleftrightarrow> c = d"
  by simp

lemma char_of_eq: "byte c = n \<Longrightarrow> char_of n = c"
  by auto

lemma valid_rune_RuneError [simp]: "valid_rune RuneError"
  by (simp add: valid_rune_def is_surrogate_def)

lemma valid_rune_ascii: "r < 0x80 \<Longrightarrow> valid_rune r"
  by (simp add: valid_rune_def is_surrogate_def)

lemma utf8_EncodeRune_ascii: "r < 0x80 \<Longrightarrow> utf8_EncodeRune r = [char_of r]"
  by (simp add: utf8_EncodeRune_def valid_rune_ascii)

lemma utf8_EncodeRune_byte: "byte c < 0x80 \<Longrightarrow> utf8_EncodeRune (byte c) = [c]"
  by (simp add: utf8_EncodeRune_ascii)

lemma utf8_EncodeRune_not_Nil [simp]: "utf8_EncodeRune r \<noteq> []"
  by (simp add: utf8_EncodeRune_def Let_def)

text \<open>A sequence given by its digits.\<close>

lemma byte_offset [simp]: "k + n < 256 \<Longrightarrow> byte (char_of (k + n)) = k + n"
  by simp

lemma decode_digits_2:
  assumes "2 \<le> a" "a < 32" "b < 64"
  shows "utf8_DecodeRune (char_of (0xC0 + a) # char_of (0x80 + b) # rest) = (a * 64 + b, 2)"
  using assms by (simp add: utf8_DecodeRune_def byte_in_def second_lo_def second_hi_def Let_def del: byte_char_of)

lemma decode_digits_3:
  assumes "a < 16" "b < 64" "c < 64" "a = 0 \<Longrightarrow> 32 \<le> b" "a = 13 \<Longrightarrow> b \<le> 31"
  shows "utf8_DecodeRune (char_of (0xE0 + a) # char_of (0x80 + b) # char_of (0x80 + c) # rest) =
    (a * 4096 + b * 64 + c, 3)"
  using assms by (simp add: utf8_DecodeRune_def byte_in_def second_lo_def second_hi_def Let_def del: byte_char_of)

lemma decode_digits_4:
  assumes "a \<le> 4" "b < 64" "c < 64" "e < 64" "a = 0 \<Longrightarrow> 16 \<le> b" "a = 4 \<Longrightarrow> b \<le> 15"
  shows "utf8_DecodeRune (char_of (0xF0 + a) # char_of (0x80 + b) # char_of (0x80 + c)
      # char_of (0x80 + e) # rest) = (a * 262144 + b * 4096 + c * 64 + e, 4)"
  using assms by (simp add: utf8_DecodeRune_def byte_in_def second_lo_def second_hi_def Let_def del: byte_char_of)

text \<open>Splitting off the last six bits, once, twice and three times.\<close>

lemma div_64_64: "n div 4096 = n div 64 div 64" "n div 262144 = n div 64 div 64 div 64" for n :: nat
  using div_mult2_eq [of n 64 64] div_mult2_eq [of n 4096 64] by simp_all

lemma split_64:
  fixes n :: nat
  shows "n div 64 * 64 + n mod 64 = n"
    and "n div 4096 * 4096 + n div 64 mod 64 * 64 + n mod 64 = n"
    and "n div 262144 * 262144 + n div 4096 mod 64 * 4096 + n div 64 mod 64 * 64 + n mod 64 = n"
  using div_mult_mod_eq [of n 64] div_mult_mod_eq [of "n div 64" 64]
    div_mult_mod_eq [of "n div 64 div 64" 64]
  unfolding div_64_64 by linarith+

lemma decode_encode_2:
  assumes "0x80 \<le> r" "r < 0x800"
  shows "utf8_DecodeRune (char_of (0xC0 + r div 64) # char_of (0x80 + r mod 64) # rest) = (r, 2)"
proof -
  have "2 \<le> r div 64" "r div 64 < 32" "r mod 64 < 64" using assms by simp_all
  from decode_digits_2 [OF this] show ?thesis unfolding split_64(1) .
qed

lemma decode_encode_3:
  assumes "0x800 \<le> r" "r < 0x10000" "\<not> is_surrogate r"
  shows "utf8_DecodeRune (char_of (0xE0 + r div 4096) # char_of (0x80 + r div 64 mod 64)
    # char_of (0x80 + r mod 64) # rest) = (r, 3)"
proof -
  have b: "r div 4096 < 16" "r div 64 mod 64 < 64" "r mod 64 < 64" using assms by simp_all
  have "r div 4096 = 0 \<Longrightarrow> 32 \<le> r div 64 mod 64" "r div 4096 = 13 \<Longrightarrow> r div 64 mod 64 \<le> 31"
    using assms b split_64(2) [of r] unfolding is_surrogate_def by linarith+
  from decode_digits_3 [OF b this] show ?thesis unfolding split_64(2) by simp
qed

lemma decode_encode_4:
  assumes "0x10000 \<le> r" "r \<le> 0x10FFFF"
  shows "utf8_DecodeRune (char_of (0xF0 + r div 262144) # char_of (0x80 + r div 4096 mod 64)
    # char_of (0x80 + r div 64 mod 64) # char_of (0x80 + r mod 64) # rest) = (r, 4)"
proof -
  have b: "r div 262144 \<le> 4" "r div 4096 mod 64 < 64" "r div 64 mod 64 < 64" "r mod 64 < 64"
    using assms by simp_all
  have "r div 262144 = 0 \<Longrightarrow> 16 \<le> r div 4096 mod 64" "r div 262144 = 4 \<Longrightarrow> r div 4096 mod 64 \<le> 15"
    using assms b split_64(3) [of r] by linarith+
  from decode_digits_4 [OF b this] show ?thesis unfolding split_64(3) by simp
qed

lemma decode_encode:
  assumes "valid_rune r"
  shows "utf8_DecodeRune (utf8_EncodeRune r @ rest) = (r, length (utf8_EncodeRune r))"
proof (cases "r < 0x80")
  case True
  then show ?thesis by (simp add: utf8_EncodeRune_ascii utf8_DecodeRune_def)
next
  case False
  then show ?thesis
    using assms decode_encode_2 [of r rest] decode_encode_3 [of r rest] decode_encode_4 [of r rest]
    by (auto simp: utf8_EncodeRune_def valid_rune_def)
qed

text \<open>The encodings by digits.\<close>

lemma encode_digits_2:
  assumes "2 \<le> a" "a < 32" "b < 64"
  shows "valid_rune (a * 64 + b)"
    and "utf8_EncodeRune (a * 64 + b) = [char_of (0xC0 + a), char_of (0x80 + b)]"
  using assms by (simp_all add: utf8_EncodeRune_def valid_rune_def is_surrogate_def)

lemma horner_64: "c < 64 \<Longrightarrow> (x * 64 + c) div 64 = x" "c < 64 \<Longrightarrow> (x * 64 + c) mod 64 = c" for x c :: nat
  by simp_all

lemma digits_3:
  assumes "b < 64" "c < (64 :: nat)"
  shows "(a * 4096 + b * 64 + c) div 4096 = a" "(a * 4096 + b * 64 + c) div 64 mod 64 = b"
    "(a * 4096 + b * 64 + c) mod 64 = c"
proof -
  have e: "a * 4096 + b * 64 + c = (a * 64 + b) * 64 + c" by simp
  show "(a * 4096 + b * 64 + c) div 4096 = a" "(a * 4096 + b * 64 + c) div 64 mod 64 = b"
    "(a * 4096 + b * 64 + c) mod 64 = c"
    unfolding e div_64_64 by (simp_all only: horner_64 assms)
qed

lemma encode_digits_3:
  assumes "a < 16" "b < 64" "c < 64" "a = 0 \<Longrightarrow> 32 \<le> b" "a = 13 \<Longrightarrow> b \<le> 31"
  shows "valid_rune (a * 4096 + b * 64 + c)"
    and "utf8_EncodeRune (a * 4096 + b * 64 + c) =
      [char_of (0xE0 + a), char_of (0x80 + b), char_of (0x80 + c)]"
proof -
  let ?r = "a * 4096 + b * 64 + c"
  have r: "0x800 \<le> ?r" "?r < 0x10000" using assms by linarith+
  have "a \<le> 12 \<or> a = 13 \<or> 14 \<le> a" by linarith
  then have "\<not> is_surrogate ?r" using assms unfolding is_surrogate_def by auto
  with r show v: "valid_rune ?r" by (simp add: valid_rune_def)
  show "utf8_EncodeRune ?r = [char_of (0xE0 + a), char_of (0x80 + b), char_of (0x80 + c)]"
    using r v digits_3 [OF assms(2,3), of a] by (simp add: utf8_EncodeRune_def Let_def)
qed

lemma digits_4:
  assumes "b < 64" "c < 64" "e < (64 :: nat)"
  shows "(a * 262144 + b * 4096 + c * 64 + e) div 262144 = a"
    "(a * 262144 + b * 4096 + c * 64 + e) div 4096 mod 64 = b"
    "(a * 262144 + b * 4096 + c * 64 + e) div 64 mod 64 = c"
    "(a * 262144 + b * 4096 + c * 64 + e) mod 64 = e"
proof -
  have h: "a * 262144 + b * 4096 + c * 64 + e = ((a * 64 + b) * 64 + c) * 64 + e" by simp
  show "(a * 262144 + b * 4096 + c * 64 + e) div 262144 = a"
    "(a * 262144 + b * 4096 + c * 64 + e) div 4096 mod 64 = b"
    "(a * 262144 + b * 4096 + c * 64 + e) div 64 mod 64 = c"
    "(a * 262144 + b * 4096 + c * 64 + e) mod 64 = e"
    unfolding h div_64_64 by (simp_all only: horner_64 assms)
qed

lemma encode_digits_4:
  assumes "a \<le> 4" "b < 64" "c < 64" "e < 64" "a = 0 \<Longrightarrow> 16 \<le> b" "a = 4 \<Longrightarrow> b \<le> 15"
  shows "valid_rune (a * 262144 + b * 4096 + c * 64 + e)"
    and "utf8_EncodeRune (a * 262144 + b * 4096 + c * 64 + e) =
      [char_of (0xF0 + a), char_of (0x80 + b), char_of (0x80 + c), char_of (0x80 + e)]"
proof -
  let ?r = "a * 262144 + b * 4096 + c * 64 + e"
  have r: "0x10000 \<le> ?r" "?r \<le> 0x10FFFF" using assms by linarith+
  then show v: "valid_rune ?r" by (simp add: valid_rune_def is_surrogate_def)
  show "utf8_EncodeRune ?r = [char_of (0xF0 + a), char_of (0x80 + b), char_of (0x80 + c), char_of (0x80 + e)]"
    using r v digits_4 [OF assms(2-4), of a] by (simp add: utf8_EncodeRune_def Let_def)
qed

text \<open>The decoder reads no further than the sequence it reports, and what it reports is its
  encoding.\<close>

definition decoded_ok :: "string \<Rightarrow> nat \<times> nat \<Rightarrow> bool" where
  "decoded_ok s rn \<longleftrightarrow>
     rn = (RuneError, 1) \<and> 0x80 \<le> byte (hd s) \<or>
     valid_rune (fst rn) \<and> snd rn = length (utf8_EncodeRune (fst rn)) \<and>
     s = utf8_EncodeRune (fst rn) @ drop (snd rn) s"

lemma byte_split: "k \<le> byte c \<Longrightarrow> char_of (k + (byte c - k)) = c"
  by simp

lemma decoded_ok_2:
  assumes "0xC2 \<le> byte c0" "byte c0 < 0xE0" "byte_in 0x80 0xBF c1"
  shows "decoded_ok (c0 # c1 # s) ((byte c0 - 0xC0) * 64 + (byte c1 - 0x80), 2)"
proof -
  have "2 \<le> byte c0 - 0xC0" "byte c0 - 0xC0 < 32" "byte c1 - 0x80 < 64"
    using assms by (auto simp: byte_in_def)
  from encode_digits_2 [OF this] assms show ?thesis
    by (simp add: decoded_ok_def byte_in_def byte_split)
qed

lemma decoded_ok_3:
  assumes "0xE0 \<le> byte c0" "byte c0 < 0xF0" "byte_in (second_lo (byte c0)) (second_hi (byte c0)) c1"
    "byte_in 0x80 0xBF c2"
  shows "decoded_ok (c0 # c1 # c2 # s)
    ((byte c0 - 0xE0) * 4096 + (byte c1 - 0x80) * 64 + (byte c2 - 0x80), 3)"
proof -
  have c1: "0x80 \<le> byte c1" "byte c1 \<le> 0xBF" "byte c0 = 0xE0 \<Longrightarrow> 0xA0 \<le> byte c1"
    "byte c0 = 0xED \<Longrightarrow> byte c1 \<le> 0x9F"
    using assms(3) by (auto simp: byte_in_def second_lo_def second_hi_def split: if_splits)
  have "byte c0 - 0xE0 < 16" "byte c1 - 0x80 < 64" "byte c2 - 0x80 < 64"
    "byte c0 - 0xE0 = 0 \<Longrightarrow> 32 \<le> byte c1 - 0x80" "byte c0 - 0xE0 = 13 \<Longrightarrow> byte c1 - 0x80 \<le> 31"
    using assms(1,2,4) c1 unfolding byte_in_def by linarith+
  from encode_digits_3 [OF this] assms(1,4) c1(1) show ?thesis
    by (simp add: decoded_ok_def byte_in_def byte_split)
qed

lemma decoded_ok_4:
  assumes "0xF0 \<le> byte c0" "byte c0 \<le> 0xF4" "byte_in (second_lo (byte c0)) (second_hi (byte c0)) c1"
    "byte_in 0x80 0xBF c2" "byte_in 0x80 0xBF c3"
  shows "decoded_ok (c0 # c1 # c2 # c3 # s)
    ((byte c0 - 0xF0) * 262144 + (byte c1 - 0x80) * 4096 + (byte c2 - 0x80) * 64 + (byte c3 - 0x80), 4)"
proof -
  have c1: "0x80 \<le> byte c1" "byte c1 \<le> 0xBF" "byte c0 = 0xF0 \<Longrightarrow> 0x90 \<le> byte c1"
    "byte c0 = 0xF4 \<Longrightarrow> byte c1 \<le> 0x8F"
    using assms(3) by (auto simp: byte_in_def second_lo_def second_hi_def split: if_splits)
  have "byte c0 - 0xF0 \<le> 4" "byte c1 - 0x80 < 64" "byte c2 - 0x80 < 64" "byte c3 - 0x80 < 64"
    "byte c0 - 0xF0 = 0 \<Longrightarrow> 16 \<le> byte c1 - 0x80" "byte c0 - 0xF0 = 4 \<Longrightarrow> byte c1 - 0x80 \<le> 15"
    using assms(1,2,4,5) c1 unfolding byte_in_def by linarith+
  from encode_digits_4 [OF this] assms(1,4,5) c1(1) show ?thesis
    by (simp add: decoded_ok_def byte_in_def byte_split)
qed

lemma decode_sound:
  assumes "s \<noteq> []"
  shows "decoded_ok s (utf8_DecodeRune s)"
proof -
  from assms obtain c0 s1 where s: "s = c0 # s1" by (cases s) auto
  have ascii: "decoded_ok s (byte c0, 1)" if "byte c0 < 0x80"
    using that by (simp add: s decoded_ok_def valid_rune_ascii utf8_EncodeRune_byte)
  have bad: "decoded_ok s (RuneError, 1)" if "\<not> byte c0 < 0x80"
    using that by (simp add: s decoded_ok_def)
  show ?thesis
  proof (cases "byte c0 < 0xC2 \<or> 0xF4 < byte c0")
    case True
    then show ?thesis
      using ascii bad by (cases "byte c0 < 0x80") (auto simp: utf8_DecodeRune_def Let_def s)
  next
    case False
    note decoded = decoded_ok_2 [of c0] decoded_ok_3 [of c0] decoded_ok_4 [of c0]
    have sec: "second_lo (byte c0) = 0x80 \<and> second_hi (byte c0) = 0xBF" if "byte c0 < 0xE0"
      using that by (simp add: second_lo_def second_hi_def)
    from False bad have bad': "decoded_ok s (RuneError, 1)" by simp
    show ?thesis
      using False bad' sec
      by (cases s1; cases "tl s1"; cases "tl (tl s1)")
        (auto simp: utf8_DecodeRune_def s Let_def intro!: decoded)
  qed
qed

text \<open>The case distinction that proofs about strings use: nothing left, a bad byte, or the encoding
  of a code point.\<close>

lemma utf8_cases:
  obtains (empty) "s = []"
  | (bad) c cs where "s = c # cs" "0x80 \<le> byte c" "utf8_DecodeRune s = (RuneError, 1)"
  | (rune) r rest where "valid_rune r" "s = utf8_EncodeRune r @ rest"
      "utf8_DecodeRune s = (r, length (utf8_EncodeRune r))"
proof (cases s)
  case (Cons c cs)
  obtain r n where rn: "utf8_DecodeRune s = (r, n)" by (cases "utf8_DecodeRune s")
  from decode_sound [of s] Cons rn have "decoded_ok s (r, n)" by simp
  with Cons rn bad rune show ?thesis by (auto simp: decoded_ok_def)
qed (rule empty)

lemma utf8_DecodeRune_size: "s \<noteq> [] \<Longrightarrow> 0 < snd (utf8_DecodeRune s)"
  by (cases rule: utf8_cases [of s]) auto

text \<open>The bytes of an encoding: one ASCII byte, or none below 0x80.\<close>

lemma utf8_EncodeRune_high:
  assumes "0x80 \<le> r"
  shows "list_all (\<lambda>c. 0x80 \<le> byte c) (utf8_EncodeRune r)"
proof -
  have "r div 64 mod 64 < 64" "r div 4096 mod 64 < 64" "r mod 64 < 64" by simp_all
  then show ?thesis
    using assms by (auto simp: utf8_EncodeRune_def Let_def valid_rune_def simp del: byte_char_of)
qed

section \<open>Well-formed text\<close>

text \<open>What a decoder makes of arbitrary bytes: every byte that starts no sequence becomes U+FFFD.\<close>

function to_valid_utf8 :: "string \<Rightarrow> string" where
  "to_valid_utf8 s =
     (if s = [] then []
      else utf8_EncodeRune (fst (utf8_DecodeRune s)) @
        to_valid_utf8 (drop (snd (utf8_DecodeRune s)) s))"
  by pat_completeness auto
termination
  by (relation "measure length") (auto simp: utf8_DecodeRune_size)

declare to_valid_utf8.simps [simp del]

text \<open>\<open>utf8.ValidString\<close>.\<close>

function utf8_ValidString :: "string \<Rightarrow> bool" where
  "utf8_ValidString s \<longleftrightarrow>
     (if s = [] then True
      else if utf8_DecodeRune s = (RuneError, 1) then False
      else utf8_ValidString (drop (snd (utf8_DecodeRune s)) s))"
  by pat_completeness auto
termination
  by (relation "measure length") (auto simp: utf8_DecodeRune_size)

declare utf8_ValidString.simps [simp del]

lemma to_valid_utf8_Nil [simp]: "to_valid_utf8 [] = []"
  by (simp add: to_valid_utf8.simps [of "[]"])

lemma to_valid_utf8_rune:
  "valid_rune r \<Longrightarrow> to_valid_utf8 (utf8_EncodeRune r @ s) = utf8_EncodeRune r @ to_valid_utf8 s"
  by (subst to_valid_utf8.simps) (simp add: decode_encode)

lemma to_valid_utf8_bad:
  "utf8_DecodeRune (c # cs) = (RuneError, 1) \<Longrightarrow>
     to_valid_utf8 (c # cs) = utf8_EncodeRune RuneError @ to_valid_utf8 cs"
  by (subst to_valid_utf8.simps) simp

lemma utf8_ValidString_Nil [simp]: "utf8_ValidString []"
  by (simp add: utf8_ValidString.simps [of "[]"])

lemma utf8_ValidString_bad:
  "utf8_DecodeRune (c # cs) = (RuneError, 1) \<Longrightarrow> \<not> utf8_ValidString (c # cs)"
  by (subst utf8_ValidString.simps) simp

lemma RuneError_width: "length (utf8_EncodeRune RuneError) = 3"
  by (simp add: utf8_EncodeRune_def)

lemma utf8_ValidString_rune:
  "valid_rune r \<Longrightarrow> utf8_ValidString (utf8_EncodeRune r @ s) = utf8_ValidString s"
  by (subst utf8_ValidString.simps) (auto simp: decode_encode RuneError_width)

lemma to_valid_utf8_valid: "utf8_ValidString (to_valid_utf8 s)"
proof (induction s rule: to_valid_utf8.induct)
  case (1 s)
  show ?case
  proof (cases rule: utf8_cases [of s])
    case (bad c cs)
    with 1 have "utf8_ValidString (to_valid_utf8 cs)" by simp
    with bad show ?thesis by (simp add: to_valid_utf8_bad utf8_ValidString_rune)
  next
    case (rune r rest)
    with 1 have "utf8_ValidString (to_valid_utf8 rest)" by simp
    with rune show ?thesis by (simp add: to_valid_utf8_rune utf8_ValidString_rune)
  qed simp
qed

lemma to_valid_utf8_id: "utf8_ValidString s \<Longrightarrow> to_valid_utf8 s = s"
proof (induction s rule: to_valid_utf8.induct)
  case (1 s)
  show ?case
  proof (cases rule: utf8_cases [of s])
    case (bad c cs)
    with 1(2) utf8_ValidString_bad [of c cs] show ?thesis by simp
  next
    case (rune r rest)
    with 1(2) have "utf8_ValidString rest" by (simp add: utf8_ValidString_rune)
    with 1(1) rune have "to_valid_utf8 rest = rest" by simp
    with rune show ?thesis by (simp add: to_valid_utf8_rune)
  qed simp
qed

text \<open>ASCII text is well formed.\<close>

lemma utf8_ValidString_ascii: "list_all (\<lambda>c. byte c < 0x80) s \<Longrightarrow> utf8_ValidString s"
proof (induction s)
  case (Cons c cs)
  then have c: "byte c < 0x80" and cs: "utf8_ValidString cs" by simp_all
  from utf8_ValidString_rune [OF valid_rune_ascii [OF c], of cs] cs c
  show ?case by (simp add: utf8_EncodeRune_byte)
qed simp

end
