(* ===== verification/Json_Text.thy ===== *)
theory Json_Text
  imports Utf8_Text
begin

text \<open>
  JSON text as \<open>encoding/json\<close> reads and writes it: \<open>json_quote\<close> is how \<open>Marshal\<close>
  writes a string (with its escaping of HTML characters and of U+2028 and U+2029), the parser is
  the grammar of the library's scanner with its unquoting of strings. The parser is a function with
  fuel; \<open>json_parse\<close> gives it twice the length of the text, and \<open>parse_fuel\<close> says that more
  makes no difference.
\<close>

section \<open>Writing strings\<close>

definition hex_digit :: "nat \<Rightarrow> char" where
  "hex_digit n = (if n < 10 then char_of (48 + n) else char_of (87 + n))"

definition backslash :: char where
  "backslash = CHR 0x5C"

definition dquote :: char where
  "dquote = CHR 0x22"

definition html_safe :: "char \<Rightarrow> bool" where
  "html_safe c \<longleftrightarrow> 32 \<le> byte c \<and> byte c \<notin> {34, 38, 60, 62, 92}"

definition u_escape :: "nat \<Rightarrow> string" where
  "u_escape r = [backslash, CHR ''u'', hex_digit (r div 4096 mod 16), hex_digit (r div 256 mod 16),
     hex_digit (r div 16 mod 16), hex_digit (r mod 16)]"

definition escape_ascii :: "char \<Rightarrow> string" where
  "escape_ascii c =
     (if html_safe c then [c]
      else if byte c = 92 \<or> byte c = 34 then [backslash, c]
      else if byte c = 8 then [backslash, CHR ''b'']
      else if byte c = 12 then [backslash, CHR ''f'']
      else if byte c = 10 then [backslash, CHR ''n'']
      else if byte c = 13 then [backslash, CHR ''r'']
      else if byte c = 9 then [backslash, CHR ''t'']
      else u_escape (byte c))"

function escape_body :: "string \<Rightarrow> string" where
  "escape_body s =
     (case s of
        [] \<Rightarrow> []
      | c # cs \<Rightarrow>
          if byte c < 0x80 then escape_ascii c @ escape_body cs
          else if utf8_DecodeRune s = (RuneError, 1) then u_escape RuneError @ escape_body cs
          else if fst (utf8_DecodeRune s) \<in> {0x2028, 0x2029}
          then u_escape (fst (utf8_DecodeRune s)) @ escape_body (drop (snd (utf8_DecodeRune s)) s)
          else take (snd (utf8_DecodeRune s)) s @ escape_body (drop (snd (utf8_DecodeRune s)) s))"
  by pat_completeness auto
termination
  by (relation "measure length") (auto simp: utf8_DecodeRune_size)

declare escape_body.simps [simp del]

definition json_quote :: "string \<Rightarrow> string" where
  "json_quote s = dquote # escape_body s @ [dquote]"

section \<open>Reading strings\<close>

definition hex_value :: "char \<Rightarrow> nat option" where
  "hex_value c =
     (let b = byte c in
      if 48 \<le> b \<and> b \<le> 57 then Some (b - 48)
      else if 97 \<le> b \<and> b \<le> 102 then Some (b - 87)
      else if 65 \<le> b \<and> b \<le> 70 then Some (b - 55)
      else None)"

fun hex4 :: "string \<Rightarrow> nat option" where
  "hex4 (a # b # c # d # rest) =
     (case (hex_value a, hex_value b, hex_value c, hex_value d) of
        (Some v, Some w, Some x, Some y) \<Rightarrow> Some (v * 4096 + w * 256 + x * 16 + y)
      | _ \<Rightarrow> None)"
| "hex4 _ = None"

definition getu4 :: "string \<Rightarrow> nat option" where
  "getu4 s = (if take 2 s = [backslash, CHR ''u''] then hex4 (drop 2 s) else None)"

definition utf16_DecodeRune :: "nat \<Rightarrow> nat \<Rightarrow> nat" where
  "utf16_DecodeRune r1 r2 =
     (if 0xD800 \<le> r1 \<and> r1 < 0xDC00 \<and> 0xDC00 \<le> r2 \<and> r2 < 0xE000
      then (r1 - 0xD800) * 1024 + (r2 - 0xDC00) + 0x10000 else RuneError)"

definition simple_escape :: "char \<Rightarrow> char option" where
  "simple_escape e =
     (if byte e = 34 \<or> byte e = 92 \<or> e = CHR ''/'' then Some e
      else if e = CHR ''b'' then Some (char_of (8 :: nat))
      else if e = CHR ''f'' then Some (char_of (12 :: nat))
      else if e = CHR ''n'' then Some (char_of (10 :: nat))
      else if e = CHR ''r'' then Some (char_of (13 :: nat))
      else if e = CHR ''t'' then Some (char_of (9 :: nat))
      else None)"

definition put_front :: "string \<Rightarrow> (string \<times> string) option \<Rightarrow> (string \<times> string) option" where
  "put_front t res = map_option (\<lambda>(u, rest). (t @ u, rest)) res"

text \<open>The text up to the closing quote, unquoted, and what follows it.\<close>

function unquote :: "string \<Rightarrow> (string \<times> string) option" where
  "unquote s =
     (case s of
        [] \<Rightarrow> None
      | c # cs \<Rightarrow>
          if c = dquote then Some ([], cs)
          else if byte c < 32 then None
          else if c = backslash
          then (case cs of
                  [] \<Rightarrow> None
                | e # es \<Rightarrow>
                    if e = CHR ''u''
                    then (case getu4 s of
                            None \<Rightarrow> None
                          | Some r \<Rightarrow>
                              if is_surrogate r
                              then (case getu4 (drop 6 s) of
                                      Some r1 \<Rightarrow>
                                        if utf16_DecodeRune r r1 \<noteq> RuneError
                                        then put_front (utf8_EncodeRune (utf16_DecodeRune r r1))
                                          (unquote (drop 12 s))
                                        else put_front (utf8_EncodeRune RuneError) (unquote (drop 6 s))
                                    | None \<Rightarrow>
                                        put_front (utf8_EncodeRune RuneError) (unquote (drop 6 s)))
                              else put_front (utf8_EncodeRune r) (unquote (drop 6 s)))
                    else (case simple_escape e of
                            None \<Rightarrow> None
                          | Some d \<Rightarrow> put_front [d] (unquote es)))
          else if byte c < 0x80 then put_front [c] (unquote cs)
          else put_front (utf8_EncodeRune (fst (utf8_DecodeRune s)))
                 (unquote (drop (snd (utf8_DecodeRune s)) s)))"
  by pat_completeness auto
termination
  by (relation "measure length") (auto simp: utf8_DecodeRune_size)

declare unquote.simps [simp del]

section \<open>A quoted string reads back\<close>

lemma unquote_dquote: "unquote (dquote # rest) = Some ([], rest)"
  by (subst unquote.simps) simp

lemma hex_value_digit: "n < 16 \<Longrightarrow> hex_value (hex_digit n) = Some n"
  by (simp add: hex_value_def hex_digit_def Let_def)

lemma getu4_u_escape:
  assumes "r < 65536"
  shows "getu4 (u_escape r @ rest) = Some r"
proof -
  have 16: "n div 256 = n div 16 div 16" "n div 4096 = n div 16 div 16 div 16" for n :: nat
    using div_mult2_eq [of n 16 16] div_mult2_eq [of n 256 16] by simp_all
  have "r div 4096 mod 16 = r div 4096" using assms by simp
  then have "r div 4096 mod 16 * 4096 + r div 256 mod 16 * 256 + r div 16 mod 16 * 16 + r mod 16 = r"
    using div_mult_mod_eq [of r 16] div_mult_mod_eq [of "r div 16" 16]
      div_mult_mod_eq [of "r div 16 div 16" 16]
    unfolding 16 by linarith
  moreover have "r div 4096 < 16" using assms by simp
  ultimately show ?thesis by (simp add: getu4_def u_escape_def hex_value_digit)
qed

lemma u_escape_simps [simp]:
  "drop 6 (u_escape r @ rest) = rest"
  "length (u_escape r) = 6"
  by (simp_all add: u_escape_def)

lemma backslash_neq [simp]: "backslash \<noteq> dquote" "dquote \<noteq> backslash"
  "byte backslash = 92" "byte dquote = 34"
  by (simp_all add: backslash_def dquote_def)

lemma byte_special: "byte c = 92 \<longleftrightarrow> c = backslash" "byte c = 34 \<longleftrightarrow> c = dquote"
  by (simp_all add: backslash_def dquote_def flip: byte_eq_iff)

lemma unquote_u:
  assumes "getu4 (backslash # CHR ''u'' # es) = Some r" "\<not> is_surrogate r"
  shows "unquote (backslash # CHR ''u'' # es) =
    put_front (utf8_EncodeRune r) (unquote (drop 6 (backslash # CHR ''u'' # es)))"
  by (subst unquote.simps) (simp add: assms)

lemma unquote_u_escape:
  assumes "r < 65536" "\<not> is_surrogate r"
  shows "unquote (u_escape r @ rest) = put_front (utf8_EncodeRune r) (unquote rest)"
proof -
  obtain es where s: "u_escape r @ rest = backslash # CHR ''u'' # es" by (simp add: u_escape_def)
  from getu4_u_escape [OF assms(1), of rest] have "getu4 (backslash # CHR ''u'' # es) = Some r"
    by (simp only: s)
  from unquote_u [OF this assms(2)] show ?thesis by (simp only: s [symmetric] u_escape_simps)
qed

lemma unquote_simple:
  assumes "simple_escape e = Some d"
  shows "unquote (backslash # e # rest) = put_front [d] (unquote rest)"
proof -
  have "e \<noteq> CHR ''u''" using assms by (auto simp: simple_escape_def)
  then show ?thesis by (subst unquote.simps) (simp add: assms)
qed

lemma unquote_plain:
  assumes "32 \<le> byte c" "byte c < 0x80" "c \<noteq> dquote" "c \<noteq> backslash"
  shows "unquote (c # rest) = put_front [c] (unquote rest)"
  using assms by (subst unquote.simps) simp

lemma unquote_rune:
  assumes "valid_rune r" "0x80 \<le> r"
  shows "unquote (utf8_EncodeRune r @ rest) = put_front (utf8_EncodeRune r) (unquote rest)"
proof -
  obtain c cs where s: "utf8_EncodeRune r @ rest = c # cs" and c: "0x80 \<le> byte c"
    using utf8_EncodeRune_high [OF assms(2)] by (cases "utf8_EncodeRune r") auto
  then have "c \<noteq> dquote" "c \<noteq> backslash" "\<not> byte c < 32" "\<not> byte c < 0x80" by auto
  then have "unquote (c # cs) = put_front (utf8_EncodeRune (fst (utf8_DecodeRune (c # cs))))
      (unquote (drop (snd (utf8_DecodeRune (c # cs))) (c # cs)))"
    by (subst unquote.simps) simp
  then show ?thesis by (simp add: s [symmetric] decode_encode [OF assms(1)])
qed

lemma unquote_escape_ascii:
  assumes "byte c < 0x80"
  shows "unquote (escape_ascii c @ rest) = put_front [c] (unquote rest)"
proof (cases "html_safe c")
  case True
  then show ?thesis using assms
    by (auto simp: escape_ascii_def html_safe_def byte_special intro!: unquote_plain)
next
  case False
  have "\<not> is_surrogate (byte c)" using assms by (simp add: is_surrogate_def)
  then have "unquote (u_escape (byte c) @ rest) = put_front [c] (unquote rest)"
    using unquote_u_escape [of "byte c" rest] assms by (simp add: utf8_EncodeRune_byte)
  moreover have "simple_escape e = Some c \<Longrightarrow>
      unquote ([backslash, e] @ rest) = put_front [c] (unquote rest)" for e
    by (simp add: unquote_simple)
  ultimately show ?thesis using False
    by (auto simp: escape_ascii_def simple_escape_def dest: char_of_eq)
qed

lemma put_front_append [simp]: "put_front a (put_front b res) = put_front (a @ b) res"
  by (cases res) (auto simp: put_front_def)

lemma put_front_Some [simp]: "put_front a (Some (b, rest)) = Some (a @ b, rest)"
  by (simp add: put_front_def)

lemma escape_body_Nil [simp]: "escape_body [] = []"
  by (subst escape_body.simps) simp

lemma escape_body_ascii: "byte c < 0x80 \<Longrightarrow> escape_body (c # cs) = escape_ascii c @ escape_body cs"
  by (subst escape_body.simps) simp

lemma escape_body_bad:
  "0x80 \<le> byte c \<Longrightarrow> utf8_DecodeRune (c # cs) = (RuneError, 1) \<Longrightarrow>
     escape_body (c # cs) = u_escape RuneError @ escape_body cs"
  by (subst escape_body.simps) simp

lemma escape_body_rune:
  assumes "valid_rune r" "0x80 \<le> r"
  shows "escape_body (utf8_EncodeRune r @ rest) =
    (if r \<in> {0x2028, 0x2029} then u_escape r else utf8_EncodeRune r) @ escape_body rest"
proof -
  obtain c cs where s: "utf8_EncodeRune r @ rest = c # cs" and c: "0x80 \<le> byte c"
    using utf8_EncodeRune_high [OF assms(2)] by (cases "utf8_EncodeRune r") auto
  have d: "utf8_DecodeRune (c # cs) = (r, length (utf8_EncodeRune r))"
    using decode_encode [OF assms(1), of rest] by (simp only: s)
  have "\<not> (r = RuneError \<and> length (utf8_EncodeRune r) = 1)" using RuneError_width by auto
  with c d have "escape_body (c # cs) =
      (if r \<in> {0x2028, 0x2029} then u_escape r else take (length (utf8_EncodeRune r)) (c # cs)) @
        escape_body (drop (length (utf8_EncodeRune r)) (c # cs))"
    by (subst escape_body.simps) auto
  then show ?thesis by (simp add: s [symmetric])
qed

lemma valid_rune_small: "r < 0xD800 \<Longrightarrow> valid_rune r \<and> \<not> is_surrogate r"
  by (simp add: valid_rune_def is_surrogate_def)

lemma unquote_escape_body:
  "unquote (escape_body s @ dquote # rest) = Some (to_valid_utf8 s, rest)"
proof (induction s rule: to_valid_utf8.induct)
  case (1 s)
  show ?case
  proof (cases rule: utf8_cases [of s])
    case empty
    then show ?thesis by (simp add: unquote_dquote)
  next
    case (bad c cs)
    with 1 have "unquote (escape_body cs @ dquote # rest) = Some (to_valid_utf8 cs, rest)" by simp
    with bad show ?thesis
      using unquote_u_escape [of RuneError "escape_body cs @ dquote # rest"]
      by (simp add: escape_body_bad to_valid_utf8_bad is_surrogate_def)
  next
    case (rune r t)
    with 1 have IH: "unquote (escape_body t @ dquote # rest) = Some (to_valid_utf8 t, rest)" by simp
    show ?thesis
    proof (cases "r < 0x80")
      case True
      then have "byte (char_of r) < 0x80" by simp
      with True rune IH show ?thesis
        using to_valid_utf8_rune [OF rune(1), of t]
        by (simp add: utf8_EncodeRune_ascii escape_body_ascii unquote_escape_ascii del: byte_char_of)
    next
      case False
      with rune have "escape_body s = (if r \<in> {0x2028, 0x2029} then u_escape r
          else utf8_EncodeRune r) @ escape_body t"
        using escape_body_rune [of r t] by simp
      moreover have "r \<in> {0x2028, 0x2029} \<Longrightarrow> r < 65536 \<and> \<not> is_surrogate r"
        using valid_rune_small [of r] by auto
      ultimately show ?thesis
        using rune False IH
        by (simp add: to_valid_utf8_rune unquote_u_escape unquote_rune split: if_splits)
    qed
  qed
qed

lemma put_front_eq_Some [simp]:
  "put_front a res = Some (t, rest) \<longleftrightarrow> (\<exists>u. t = a @ u \<and> res = Some (u, rest))"
  by (auto simp: put_front_def)

lemma unquote_shrinks: "unquote s = Some (t, rest) \<Longrightarrow> length rest < length s"
proof (induction s arbitrary: t rest rule: length_induct)
  case (1 s)
  then have IH: "unquote s' = Some (t', rest) \<Longrightarrow> length s' < length s \<Longrightarrow> length rest < length s" for s' t'
    by fastforce
  show ?case
  proof (cases s)
    case Nil
    with 1(2) show ?thesis by (subst (asm) unquote.simps) simp
  next
    case (Cons c cs)
    from 1(2) show ?thesis
      by (subst (asm) unquote.simps)
        (auto simp: Cons utf8_DecodeRune_size split: if_splits list.splits option.splits dest!: IH)
  qed
qed

section \<open>Values\<close>

datatype json =
    JNull
  | JBool bool
  | JNumber string
  | JString string
  | JArray "json list"
  | JObject "(string \<times> json) list"

definition json_space :: "char \<Rightarrow> bool" where
  "json_space c \<longleftrightarrow> byte c \<in> {9, 10, 13, 32}"

abbreviation skip_space :: "string \<Rightarrow> string" where
  "skip_space s \<equiv> dropWhile json_space s"

definition digit :: "char \<Rightarrow> bool" where
  "digit c \<longleftrightarrow> 48 \<le> byte c \<and> byte c \<le> 57"

text \<open>The optional parts of a number: a character that starts the part, then at least one digit.\<close>

definition number_part :: "(char \<Rightarrow> bool) \<Rightarrow> (string \<Rightarrow> string) \<Rightarrow> string \<Rightarrow> string option" where
  "number_part starts sign s =
     (case s of
        [] \<Rightarrow> Some s
      | c # cs \<Rightarrow>
          if \<not> starts c then Some s
          else (case sign cs of
                  [] \<Rightarrow> None
                | d # ds \<Rightarrow> if digit d then Some (dropWhile digit ds) else None))"

definition skip_sign :: "string \<Rightarrow> string" where
  "skip_sign s = (case s of [] \<Rightarrow> [] | c # cs \<Rightarrow> if c = CHR ''+'' \<or> c = CHR ''-'' then cs else s)"

definition skip_number :: "string \<Rightarrow> string option" where
  "skip_number s =
     (case (if take 1 s = ''-'' then drop 1 s else s) of
        [] \<Rightarrow> None
      | c # cs \<Rightarrow>
          if \<not> digit c then None
          else (case number_part (\<lambda>d. d = CHR ''.'') (\<lambda>t. t) (if c = CHR ''0'' then cs else dropWhile digit cs) of
                  None \<Rightarrow> None
                | Some t \<Rightarrow> number_part (\<lambda>d. d = CHR ''e'' \<or> d = CHR ''E'') skip_sign t))"

definition parse_number :: "string \<Rightarrow> (json \<times> string) option" where
  "parse_number s = map_option (\<lambda>rest. (JNumber (take (length s - length rest) s), rest)) (skip_number s)"

definition parse_literal :: "string \<Rightarrow> (json \<times> string) option" where
  "parse_literal s =
     (if take 4 s = ''null'' then Some (JNull, drop 4 s)
      else if take 4 s = ''true'' then Some (JBool True, drop 4 s)
      else if take 5 s = ''false'' then Some (JBool False, drop 5 s)
      else None)"

definition expect :: "char \<Rightarrow> string \<Rightarrow> string option" where
  "expect c s = (case skip_space s of [] \<Rightarrow> None | d # ds \<Rightarrow> if d = c then Some ds else None)"

text \<open>After the opening bracket or brace the parser has the rest of a non-empty list.\<close>

fun parse_value :: "nat \<Rightarrow> string \<Rightarrow> (json \<times> string) option"
  and parse_elements :: "nat \<Rightarrow> string \<Rightarrow> (json list \<times> string) option"
  and parse_members :: "nat \<Rightarrow> string \<Rightarrow> ((string \<times> json) list \<times> string) option" where
  "parse_value 0 s = None"
| "parse_value (Suc n) s =
     (case skip_space s of
        [] \<Rightarrow> None
      | c # cs \<Rightarrow>
          if c = CHR ''{''
          then (case expect (CHR ''}'') cs of
                  Some rest \<Rightarrow> Some (JObject [], rest)
                | None \<Rightarrow> map_option (\<lambda>(ms, rest). (JObject ms, rest)) (parse_members n cs))
          else if c = CHR ''[''
          then (case expect (CHR '']'') cs of
                  Some rest \<Rightarrow> Some (JArray [], rest)
                | None \<Rightarrow> map_option (\<lambda>(vs, rest). (JArray vs, rest)) (parse_elements n cs))
          else if c = dquote then map_option (\<lambda>(t, rest). (JString t, rest)) (unquote cs)
          else if c = CHR ''-'' \<or> digit c then parse_number (c # cs)
          else parse_literal (c # cs))"
| "parse_elements 0 s = None"
| "parse_elements (Suc n) s =
     (case parse_value n s of
        None \<Rightarrow> None
      | Some (v, s1) \<Rightarrow>
          (case expect (CHR '','') s1 of
             Some s2 \<Rightarrow> map_option (\<lambda>(vs, rest). (v # vs, rest)) (parse_elements n s2)
           | None \<Rightarrow> map_option (\<lambda>rest. ([v], rest)) (expect (CHR '']'') s1)))"
| "parse_members 0 s = None"
| "parse_members (Suc n) s =
     (case Option.bind (expect dquote s) unquote of
        None \<Rightarrow> None
      | Some (k, s1) \<Rightarrow>
          (case Option.bind (expect (CHR '':'') s1) (parse_value n) of
             None \<Rightarrow> None
           | Some (v, s2) \<Rightarrow>
               (case expect (CHR '','') s2 of
                  Some s3 \<Rightarrow> map_option (\<lambda>(ms, rest). ((k, v) # ms, rest)) (parse_members n s3)
                | None \<Rightarrow> map_option (\<lambda>rest. ([(k, v)], rest)) (expect (CHR ''}'') s2))))"

text \<open>A whole text: one value and white space around it.\<close>

definition json_parse :: "string \<Rightarrow> json option" where
  "json_parse s =
     (case parse_value (2 * length s + 2) s of
        None \<Rightarrow> None
      | Some (v, rest) \<Rightarrow> if skip_space rest = [] then Some v else None)"

section \<open>The fuel is enough\<close>

lemma skip_space_length: "length (skip_space s) \<le> length s"
  by (rule length_dropWhile_le)

lemma expect_shrinks: "expect c s = Some rest \<Longrightarrow> length rest < length s"
  using skip_space_length [of s] by (auto simp: expect_def split: list.splits if_splits)

lemma number_part_length:
  assumes "\<And>t. length (sign t) \<le> length t" "number_part starts sign s = Some rest"
  shows "length rest \<le> length s"
proof (cases s)
  case (Cons c cs)
  have "length (dropWhile digit ds) \<le> length cs" if "sign cs = d # ds" for d ds
    using assms(1) [of cs] that length_dropWhile_le [of digit ds] by simp
  with assms(2) Cons show ?thesis
    by (fastforce simp: number_part_def split: if_splits list.splits)
qed (use assms(2) in \<open>simp add: number_part_def\<close>)

lemma skip_sign_length: "length (skip_sign s) \<le> length s"
  by (simp add: skip_sign_def split: list.splits)

lemma skip_number_shrinks:
  assumes "skip_number s = Some rest"
  shows "length rest < length s"
proof -
  obtain c cs where s: "(if take 1 s = ''-'' then drop 1 s else s) = c # cs"
    using assms by (auto simp: skip_number_def split: list.splits)
  then have len: "length cs < length s"
    by (auto split: if_splits) (metis length_drop length_Cons diff_le_self Suc_le_eq)
  let ?ds = "if c = CHR ''0'' then cs else dropWhile digit cs"
  have ds: "length ?ds \<le> length cs" by (simp add: length_dropWhile_le)
  from assms s obtain t where t: "number_part (\<lambda>d. d = CHR ''.'') (\<lambda>t. t) ?ds = Some t"
    "number_part (\<lambda>d. d = CHR ''e'' \<or> d = CHR ''E'') skip_sign t = Some rest"
    by (simp add: skip_number_def split: if_splits option.splits)
  have "length t \<le> length ?ds" by (rule number_part_length [OF _ t(1)]) simp
  moreover have "length rest \<le> length t" by (rule number_part_length [OF skip_sign_length t(2)])
  moreover note ds len
  ultimately show ?thesis by linarith
qed

lemma parse_number_shrinks: "parse_number s = Some (v, rest) \<Longrightarrow> length rest < length s"
  by (auto simp: parse_number_def dest: skip_number_shrinks)

lemma parse_literal_shrinks: "parse_literal s = Some (v, rest) \<Longrightarrow> length rest < length s"
  by (cases s) (auto simp: parse_literal_def split: if_splits)

lemma parse_shrinks:
  "parse_value n s = Some (v, rest) \<Longrightarrow> length rest < length s"
  "parse_elements n s = Some (vs, rest) \<Longrightarrow> length rest < length s"
  "parse_members n s = Some (ms, rest) \<Longrightarrow> length rest < length s"
proof (induction n s and n s and n s arbitrary: v rest and vs rest and ms rest
    rule: parse_value_parse_elements_parse_members.induct)
  case (2 n s)
  show ?case
  proof (cases "skip_space s")
    case (Cons c cs)
    have "length cs < length s" using skip_space_length [of s] Cons by simp
    with 2 Cons show ?thesis
      by (fastforce split: if_splits option.splits dest: unquote_shrinks parse_number_shrinks
          parse_literal_shrinks expect_shrinks)
  next
    case Nil
    with 2(3) show ?thesis by (simp del: dropWhile_eq_Nil_conv)
  qed
next
  case (4 n s)
  then show ?case by (fastforce split: option.splits dest: expect_shrinks)
next
  case (6 n s)
  then show ?case
    by (fastforce split: option.splits dest: expect_shrinks unquote_shrinks simp: bind_eq_Some_conv)
qed auto

lemma parse_fuel:
  assumes "n \<le> m"
  shows "2 * length s < n \<Longrightarrow> parse_value m s = parse_value n s"
    and "2 * length s + 1 < n \<Longrightarrow> parse_elements m s = parse_elements n s"
    and "2 * length s + 1 < n \<Longrightarrow> parse_members m s = parse_members n s"
  using assms
proof (induction n arbitrary: m s)
  case (Suc n)
  have less: "\<exists>m'. m = Suc m' \<and> n \<le> m'" if "Suc n \<le> m" for m
    using that by (cases m) auto
  { case 1
    then obtain m' where m: "m = Suc m'" "n \<le> m'" using less by blast
    note IH = Suc.IH [OF _ m(2)]
    show ?case
    proof (cases "skip_space s")
      case (Cons c cs)
      then have "2 * length cs + 1 < n" using skip_space_length [of s] 1 by simp
      with IH(2,3) have "parse_elements m' cs = parse_elements n cs"
        "parse_members m' cs = parse_members n cs" by simp_all
      with Cons m(1) show ?thesis by (simp split: option.split)
    qed (simp add: m del: dropWhile_eq_Nil_conv)
  next
    case 2
    then obtain m' where m: "m = Suc m'" "n \<le> m'" using less by blast
    note IH = Suc.IH [OF _ m(2)]
    have v: "parse_value m' s = parse_value n s" using IH(1) 2 by simp
    have "parse_elements m' s2 = parse_elements n s2"
      if "parse_value n s = Some (x, s1)" "expect (CHR '','') s1 = Some s2" for x s1 s2
      using IH(2) 2 parse_shrinks(1) [OF that(1)] expect_shrinks [OF that(2)] by simp
    with v m(1) show ?case by (auto split: option.split)
  next
    case 3
    then obtain m' where m: "m = Suc m'" "n \<le> m'" using less by blast
    note IH = Suc.IH [OF _ m(2)]
    have v: "parse_value m' s2 = parse_value n s2"
      if "expect dquote s = Some s0" "unquote s0 = Some (k, s1)" "expect (CHR '':'') s1 = Some s2"
      for s0 k s1 s2
      using IH(1) 3 expect_shrinks [OF that(1)] unquote_shrinks [OF that(2)] expect_shrinks [OF that(3)]
      by simp
    have "parse_members m' s4 = parse_members n s4"
      if "expect dquote s = Some s0" "unquote s0 = Some (k, s1)" "expect (CHR '':'') s1 = Some s2"
        "parse_value n s2 = Some (x, s3)" "expect (CHR '','') s3 = Some s4" for s0 k s1 s2 x s3 s4
      using IH(3) 3 expect_shrinks [OF that(1)] unquote_shrinks [OF that(2)] expect_shrinks [OF that(3)]
        parse_shrinks(1) [OF that(4)] expect_shrinks [OF that(5)]
      by simp
    with v m(1) show ?case by (auto split: option.split bind_splits)
  }
qed simp_all

text \<open>A text that parses with some fuel parses to the same value with what \<open>json_parse\<close> gives.\<close>

lemma json_parse_fuel:
  assumes "2 * length s < n"
  shows "json_parse s = (case parse_value n s of
      None \<Rightarrow> None | Some (v, rest) \<Rightarrow> if skip_space rest = [] then Some v else None)"
proof -
  have "parse_value (2 * length s + 2) s = parse_value n s"
  proof (cases "n \<le> 2 * length s + 2")
    case True
    then show ?thesis using assms parse_fuel(1) by blast
  next
    case False
    then show ?thesis using parse_fuel(1) [of "2 * length s + 2" n s] by simp
  qed
  then show ?thesis by (simp add: json_parse_def)
qed

end
