(* ===== verification/Base64_Text.thy ===== *)
theory Base64_Text
  imports Utf8_Text
begin

text \<open>
  Base64 as \<open>encoding/base64\<close> has it in \<open>StdEncoding\<close>, which is how \<open>encoding/json\<close>
  writes and reads a byte slice: padded quadruples over the standard alphabet. The decoder skips
  carriage returns and line feeds, insists on the padding and does not look at the bits that the
  padding cuts off.
\<close>

definition b64_char :: "nat \<Rightarrow> char" where
  "b64_char n =
     (if n < 26 then char_of (65 + n)
      else if n < 52 then char_of (71 + n)
      else if n < 62 then char_of (n - 4)
      else if n = 62 then CHR ''+'' else CHR ''/'')"

definition b64_value :: "char \<Rightarrow> nat option" where
  "b64_value c =
     (let b = byte c in
      if 65 \<le> b \<and> b \<le> 90 then Some (b - 65)
      else if 97 \<le> b \<and> b \<le> 122 then Some (b - 71)
      else if 48 \<le> b \<and> b \<le> 57 then Some (b + 4)
      else if b = 43 then Some 62
      else if b = 47 then Some 63
      else None)"

abbreviation b64_pad :: char where
  "b64_pad \<equiv> CHR ''=''"

fun b64_encode :: "string \<Rightarrow> string" where
  "b64_encode [] = []"
| "b64_encode [a] = [b64_char (byte a div 4), b64_char (byte a mod 4 * 16), b64_pad, b64_pad]"
| "b64_encode [a, b] =
     [b64_char (byte a div 4), b64_char (byte a mod 4 * 16 + byte b div 16),
      b64_char (byte b mod 16 * 4), b64_pad]"
| "b64_encode (a # b # c # rest) =
     b64_char (byte a div 4) # b64_char (byte a mod 4 * 16 + byte b div 16)
     # b64_char (byte b mod 16 * 4 + byte c div 64) # b64_char (byte c mod 64) # b64_encode rest"

fun b64_quads :: "string \<Rightarrow> string option" where
  "b64_quads [] = Some []"
| "b64_quads (p # q # r # s # rest) =
     (case (b64_value p, b64_value q) of
        (Some v, Some w) \<Rightarrow>
          if r = b64_pad
          then (if s = b64_pad \<and> rest = [] then Some [char_of (v * 4 + w div 16)] else None)
          else (case b64_value r of
                  None \<Rightarrow> None
                | Some x \<Rightarrow>
                    if s = b64_pad
                    then (if rest = []
                          then Some [char_of (v * 4 + w div 16), char_of (w mod 16 * 16 + x div 4)]
                          else None)
                    else (case b64_value s of
                            None \<Rightarrow> None
                          | Some y \<Rightarrow>
                              map_option (\<lambda>t. char_of (v * 4 + w div 16)
                                  # char_of (w mod 16 * 16 + x div 4) # char_of (x mod 4 * 64 + y) # t)
                                (b64_quads rest)))
      | _ \<Rightarrow> None)"
| "b64_quads _ = None"

definition b64_decode :: "string \<Rightarrow> string option" where
  "b64_decode s = b64_quads (filter (\<lambda>c. byte c \<noteq> 10 \<and> byte c \<noteq> 13) s)"

section \<open>The alphabet\<close>

lemma b64_digit_cases:
  fixes n :: nat
  assumes "n < 64"
  obtains "n < 26" | "26 \<le> n" "n < 52" | m where "n = m + 52" "m < 10" | "n = 62" | "n = 63"
  using assms that(3) [of "n - 52"] by linarith

lemma b64_value_char [simp]: "n < 64 \<Longrightarrow> b64_value (b64_char n) = Some n"
  by (cases rule: b64_digit_cases [of n]) (simp_all add: b64_value_def b64_char_def Let_def)

text \<open>What the alphabet and the padding are made of: printable ASCII that JSON does not escape.\<close>

definition b64_safe :: "char \<Rightarrow> bool" where
  "b64_safe c \<longleftrightarrow> byte c \<in> {43, 47, 61} \<union> {48..57} \<union> {65..90} \<union> {97..122}"

lemma b64_safe_char: "n < 64 \<Longrightarrow> b64_safe (b64_char n)"
  by (cases rule: b64_digit_cases [of n]) (simp_all add: b64_safe_def b64_char_def)

lemma b64_safe_pad [simp]: "b64_safe b64_pad"
  by (simp add: b64_safe_def)

lemma b64_char_neq_pad: "n < 64 \<Longrightarrow> b64_char n \<noteq> b64_pad"
  using b64_value_char [of n] by (auto simp: b64_value_def)

text \<open>The digits of an encoding.\<close>

lemma byte_less: "byte c < 256"
  by simp

lemma digit_bounds:
  "byte a div 4 < 64" "byte a mod 4 * 16 < 64" "byte a mod 4 * 16 + byte b div 16 < 64"
  "byte b mod 16 * 4 < 64" "byte b mod 16 * 4 + byte c div 64 < 64" "byte c mod 64 < 64"
proof -
  have "byte a div 4 < 64" "byte b div 16 < 16" "byte c div 64 < 4" "byte a mod 4 < 4" "byte b mod 16 < 16"
    using byte_less [of a] byte_less [of b] byte_less [of c] by linarith+
  then show "byte a div 4 < 64" "byte a mod 4 * 16 < 64" "byte a mod 4 * 16 + byte b div 16 < 64"
    "byte b mod 16 * 4 < 64" "byte b mod 16 * 4 + byte c div 64 < 64" "byte c mod 64 < 64"
    by simp_all
qed

lemma b64_encode_safe: "list_all b64_safe (b64_encode s)"
  by (induction s rule: b64_encode.induct) (simp_all add: b64_safe_char digit_bounds)

section \<open>Round trip\<close>

lemma join_digits:
  "byte a div 4 * 4 + (byte a mod 4 * 16 + byte b div 16) div 16 = byte a"
  "(byte a mod 4 * 16 + byte b div 16) mod 16 * 16 + (byte b mod 16 * 4 + byte c div 64) div 4 = byte b"
  "(byte b mod 16 * 4 + byte c div 64) mod 4 * 64 + byte c mod 64 = byte c"
proof -
  have b: "byte b div 16 < 16" and c: "byte c div 64 < 4"
    using byte_less [of b] byte_less [of c] by linarith+
  have "(byte a mod 4 * 16 + byte b div 16) div 16 = byte a mod 4"
    "(byte a mod 4 * 16 + byte b div 16) mod 16 = byte b div 16"
    "(byte b mod 16 * 4 + byte c div 64) div 4 = byte b mod 16"
    "(byte b mod 16 * 4 + byte c div 64) mod 4 = byte c div 64"
    using b c by simp_all
  then show "byte a div 4 * 4 + (byte a mod 4 * 16 + byte b div 16) div 16 = byte a"
    "(byte a mod 4 * 16 + byte b div 16) mod 16 * 16 + (byte b mod 16 * 4 + byte c div 64) div 4 = byte b"
    "(byte b mod 16 * 4 + byte c div 64) mod 4 * 64 + byte c mod 64 = byte c"
    by simp_all
qed

lemma join_digits_short:
  "byte a div 4 * 4 + byte a mod 4 * 16 div 16 = byte a"
  "(byte a mod 4 * 16 + byte b div 16) mod 16 * 16 + byte b mod 16 * 4 div 4 = byte b"
proof -
  have "byte b div 16 < 16" using byte_less [of b] by linarith
  then have "(byte a mod 4 * 16 + byte b div 16) mod 16 = byte b div 16" by simp
  then show "(byte a mod 4 * 16 + byte b div 16) mod 16 * 16 + byte b mod 16 * 4 div 4 = byte b" by simp
qed simp

lemma b64_quads_encode: "b64_quads (b64_encode s) = Some s"
proof (induction s rule: b64_encode.induct)
  case (2 a)
  then show ?case
    using join_digits_short(1) [of a] by (simp add: digit_bounds del: of_char_of)
next
  case (3 a b)
  then show ?case
    using join_digits(1) [of a b] join_digits_short(2) [of a b]
    by (simp add: digit_bounds b64_char_neq_pad)
next
  case (4 a b c rest)
  then show ?case
    using join_digits [of a b] join_digits(3) [of b c] join_digits(2) [of a b c]
    by (simp only: b64_encode.simps b64_quads.simps b64_value_char b64_char_neq_pad digit_bounds
        prod.case option.case if_False option.map char_of_char)
qed simp

lemma b64_decode_encode [simp]: "b64_decode (b64_encode s) = Some s"
proof -
  have "filter (\<lambda>c. byte c \<noteq> 10 \<and> byte c \<noteq> 13) (b64_encode s) = b64_encode s"
    using b64_encode_safe [of s] by (auto simp: filter_id_conv list_all_iff b64_safe_def)
  then show ?thesis by (simp add: b64_decode_def b64_quads_encode)
qed

text \<open>Four characters for every three bytes, the last group filled up.\<close>

lemma length_b64_encode: "length (b64_encode s) = 4 * ((length s + 2) div 3)"
proof (induction s rule: b64_encode.induct)
  case (4 a b c rest)
  have "(5 + length rest) div 3 = (length rest + 2) div 3 + 1" by simp
  with 4 show ?case by simp
qed simp_all

end
