(* ===== verification/Notify_Envelope.thy ===== *)
theory Notify_Envelope
  imports Producer Json_Text Base64_Text
begin

text \<open>
  The envelope of a notification (\<open>pgpubsub.go\<close>, \<open>pubsub.go\<close>): all topics share one
  \<open>NOTIFY\<close> channel, so a message travels as a JSON object with its topic and, when it has one,
  its payload in base64. \<open>json_Marshal_message\<close> and \<open>json_Unmarshal_message\<close> are
  \<open>json.Marshal\<close> and \<open>json.Unmarshal\<close> at the type \<open>PubSubMessage\<close> with its field tags.
  Reading accepts any JSON object: keys in any order and any case, unknown keys, duplicate keys of
  which the last counts, \<open>null\<close>, and a byte slice as an array of numbers. Nesting deeper than
  the library's limit of 10000 cannot occur in a notification, which has fewer than 8000 bytes.
\<close>

section \<open>Writing\<close>

definition payload_field :: "string option \<Rightarrow> string" where
  "payload_field payload =
     (case payload of
        None \<Rightarrow> []
      | Some b \<Rightarrow>
          if b = [] then []
          else '','' @ json_quote ''payload'' @ '':'' @ (dquote # b64_encode b @ [dquote]))"

definition json_Marshal_message :: "PubSubMessage \<Rightarrow> string" where
  "json_Marshal_message msg =
     ''{'' @ json_quote ''topic'' @ '':'' @ json_quote (ps_Topic msg) @
     payload_field (ps_Payload msg) @ ''}''"

text \<open>\<open>json.Marshal\<close> cannot fail at this type, so its error branch is unreachable.\<close>

definition marshalPubSubMessage :: "topic \<Rightarrow> string option \<Rightarrow> go_err + string" where
  "marshalPubSubMessage topic payload =
     (if topic = [] then Inl (Errorf ''topic must not be empty'' [])
      else Inr (json_Marshal_message \<lparr>ps_Topic = topic, ps_Payload = payload\<rparr>))"

section \<open>Reading\<close>

definition upper :: "char \<Rightarrow> char" where
  "upper c = (if 97 \<le> byte c \<and> byte c \<le> 122 then char_of (byte c - 32) else c)"

text \<open>A key names a field if they agree up to case; no letter of the two names has a case
  variant outside ASCII.\<close>

definition names_field :: "string \<Rightarrow> string \<Rightarrow> bool" where
  "names_field k field \<longleftrightarrow> map upper k = map upper field"

definition number_value :: "string \<Rightarrow> nat" where
  "number_value s = foldl (\<lambda>n c. n * 10 + (byte c - 48)) 0 s"

text \<open>An array read into a byte slice: numbers up to 255 without sign, fraction and exponent;
  \<open>null\<close> leaves the element as it was.\<close>

fun array_bytes :: "string \<Rightarrow> json list \<Rightarrow> string option" where
  "array_bytes old [] = Some []"
| "array_bytes old (v # vs) =
     (case (case v of
              JNumber s \<Rightarrow>
                if list_all digit s \<and> number_value s \<le> 255 then Some (char_of (number_value s)) else None
            | JNull \<Rightarrow> Some (case old of [] \<Rightarrow> char_of (0 :: nat) | c # _ \<Rightarrow> c)
            | _ \<Rightarrow> None) of
        None \<Rightarrow> None
      | Some b \<Rightarrow> map_option (\<lambda>bs. b # bs) (array_bytes (drop 1 old) vs))"

definition set_topic :: "json \<Rightarrow> PubSubMessage \<Rightarrow> PubSubMessage option" where
  "set_topic v msg =
     (case v of
        JString t \<Rightarrow> Some (msg\<lparr>ps_Topic := t\<rparr>)
      | JNull \<Rightarrow> Some msg
      | _ \<Rightarrow> None)"

definition set_payload :: "json \<Rightarrow> PubSubMessage \<Rightarrow> PubSubMessage option" where
  "set_payload v msg =
     (case v of
        JString t \<Rightarrow> map_option (\<lambda>b. msg\<lparr>ps_Payload := Some b\<rparr>) (b64_decode t)
      | JNull \<Rightarrow> Some (msg\<lparr>ps_Payload := None\<rparr>)
      | JArray vs \<Rightarrow>
          map_option (\<lambda>b. msg\<lparr>ps_Payload := Some b\<rparr>)
            (array_bytes (case ps_Payload msg of None \<Rightarrow> [] | Some b \<Rightarrow> b) vs)
      | _ \<Rightarrow> None)"

fun set_members :: "(string \<times> json) list \<Rightarrow> PubSubMessage \<Rightarrow> PubSubMessage option" where
  "set_members [] msg = Some msg"
| "set_members ((k, v) # ms) msg =
     Option.bind
       (if names_field k ''topic'' then set_topic v msg
        else if names_field k ''payload'' then set_payload v msg
        else Some msg)
       (set_members ms)"

definition json_Unmarshal_message :: "string \<Rightarrow> PubSubMessage option" where
  "json_Unmarshal_message s =
     (let msg = \<lparr>ps_Topic = [], ps_Payload = None\<rparr> in
      case json_parse s of
        Some JNull \<Rightarrow> Some msg
      | Some (JObject ms) \<Rightarrow> set_members ms msg
      | _ \<Rightarrow> None)"

section \<open>What was written reads back\<close>

lemma unquote_json_quote:
  "unquote (escape_body s @ dquote # rest) = Some (to_valid_utf8 s, rest)"
  by (rule unquote_escape_body)

text \<open>Text of characters that need no escape.\<close>

lemma escape_body_safe: "list_all (\<lambda>c. html_safe c \<and> byte c < 0x80) s \<Longrightarrow> escape_body s = s"
  by (induction s) (simp_all add: escape_body_ascii escape_ascii_def)

lemma b64_safe_html: "b64_safe c \<Longrightarrow> html_safe c \<and> byte c < 0x80"
  by (auto simp: b64_safe_def html_safe_def)

lemma unquote_b64: "unquote (b64_encode b @ dquote # rest) = Some (b64_encode b, rest)"
proof -
  have safe: "list_all (\<lambda>c. html_safe c \<and> byte c < 0x80) (b64_encode b)"
    using b64_encode_safe [of b] by (auto simp: list_all_iff dest: b64_safe_html)
  then have "utf8_ValidString (b64_encode b)"
    by (intro utf8_ValidString_ascii) (auto simp: list_all_iff)
  then show ?thesis
    using unquote_escape_body [of "b64_encode b" rest] escape_body_safe [OF safe]
    by (simp add: to_valid_utf8_id)
qed

lemma field_names:
  "escape_body ''topic'' = ''topic''" "to_valid_utf8 ''topic'' = ''topic''"
  "escape_body ''payload'' = ''payload''" "to_valid_utf8 ''payload'' = ''payload''"
  by (simp_all add: escape_body_safe html_safe_def to_valid_utf8_id utf8_ValidString_ascii)

lemma expect_here: "\<not> json_space c \<Longrightarrow> expect d (c # cs) = (if c = d then Some cs else None)"
  by (simp add: expect_def)

lemma not_space [simp]:
  "\<not> json_space dquote" "\<not> json_space (CHR '':'')" "\<not> json_space (CHR '','')"
  "\<not> json_space (CHR ''}'')" "\<not> json_space (CHR ''{'')"
  by (simp_all add: json_space_def dquote_def)

lemma dquote_neq [simp]:
  "dquote \<noteq> CHR '':''" "dquote \<noteq> CHR '',''" "dquote \<noteq> CHR ''}''" "dquote \<noteq> CHR ''{''"
  "dquote \<noteq> CHR ''[''" "CHR ''}'' \<noteq> dquote" "CHR '':'' \<noteq> dquote" "CHR '','' \<noteq> dquote"
  by (auto simp: dquote_def)

lemma parse_string_value:
  "unquote s = Some (t, rest) \<Longrightarrow> parse_value (Suc n) (dquote # s) = Some (JString t, rest)"
  by simp

text \<open>One member with a string value.\<close>

lemma parse_member_string:
  assumes "unquote s = Some (k, CHR '':'' # dquote # s1)" "unquote s1 = Some (t, s2)"
  shows "parse_members (Suc (Suc n)) (dquote # s) =
    (case expect (CHR '','') s2 of
       Some s3 \<Rightarrow> map_option (\<lambda>(ms, rest). ((k, JString t) # ms, rest)) (parse_members (Suc n) s3)
     | None \<Rightarrow> map_option (\<lambda>rest. ([(k, JString t)], rest)) (expect (CHR ''}'') s2))"
  using assms by (simp add: expect_here)

lemma parse_envelope:
  "json_parse (json_Marshal_message \<lparr>ps_Topic = t, ps_Payload = p\<rparr>) =
     Some (JObject ((''topic'', JString (to_valid_utf8 t)) #
       (case p of None \<Rightarrow> [] | Some b \<Rightarrow> if b = [] then [] else [(''payload'', JString (b64_encode b))])))"
proof -
  have topic: "unquote (''topic'' @ dquote # rest) = Some (''topic'', rest)" for rest
    using unquote_escape_body [of "''topic''" rest] by (simp only: field_names)
  have payload: "unquote (''payload'' @ dquote # rest) = Some (''payload'', rest)" for rest
    using unquote_escape_body [of "''payload''" rest] by (simp only: field_names)
  let ?s = "json_Marshal_message \<lparr>ps_Topic = t, ps_Payload = p\<rparr>"
  define n where "n = 2 * length ?s"
  let ?tail = "payload_field p @ ''}''"
  have s: "?s = CHR ''{'' # dquote # (''topic'' @ dquote # CHR '':'' # dquote # (escape_body t @ dquote # ?tail))"
    by (simp add: json_Marshal_message_def json_quote_def field_names)
  have tail: "(case expect (CHR '','') ?tail of
        Some s3 \<Rightarrow> map_option (\<lambda>(ms, rest). ((''topic'', JString (to_valid_utf8 t)) # ms, rest))
          (parse_members (Suc (Suc (Suc n))) s3)
      | None \<Rightarrow> map_option (\<lambda>rest. ([(''topic'', JString (to_valid_utf8 t))], rest)) (expect (CHR ''}'') ?tail)) =
    Some ((''topic'', JString (to_valid_utf8 t)) #
      (case p of None \<Rightarrow> [] | Some b \<Rightarrow> if b = [] then [] else [(''payload'', JString (b64_encode b))]), [])"
  proof (cases "p = None \<or> p = Some []")
    case True
    then have "?tail = ''}''" by (auto simp: payload_field_def)
    with True show ?thesis by (auto simp: expect_here)
  next
    case False
    then obtain b where b: "p = Some b" "b \<noteq> []" by auto
    then have "?tail = CHR '','' # dquote # (''payload'' @ dquote # CHR '':'' # dquote #
        (b64_encode b @ dquote # ''}''))"
      by (simp add: payload_field_def json_quote_def field_names)
    then have e: "expect (CHR '','') ?tail = Some (dquote # (''payload'' @ dquote # CHR '':'' # dquote #
        (b64_encode b @ dquote # ''}'')))"
      by (simp only: expect_here not_space not_False_eq_True simp_thms if_True)
    have "parse_members (Suc (Suc (Suc n))) (dquote # (''payload'' @ dquote # CHR '':'' # dquote #
        (b64_encode b @ dquote # ''}''))) = Some ([(''payload'', JString (b64_encode b))], [])"
      by (subst parse_member_string [OF payload unquote_b64]) (simp add: expect_here)
    with e b show ?thesis by (simp del: parse_members.simps)
  qed
  have "parse_value (Suc (Suc (Suc (Suc (Suc n))))) ?s = Some (JObject ((''topic'', JString (to_valid_utf8 t)) #
      (case p of None \<Rightarrow> [] | Some b \<Rightarrow> if b = [] then [] else [(''payload'', JString (b64_encode b))])), [])"
    unfolding s parse_value.simps
    using parse_member_string [OF topic unquote_escape_body, of "Suc (Suc n)" t ?tail] tail
    by (simp add: expect_here del: parse_members.simps)
  then show ?thesis
    using json_parse_fuel [of ?s "Suc (Suc (Suc (Suc (Suc n))))"] by (simp add: n_def)
qed

text \<open>Reading the envelope of a message gives the message: the topic with its bad bytes replaced,
  the payload with an empty one left out.\<close>

definition received :: "topic \<Rightarrow> string option \<Rightarrow> PubSubMessage" where
  "received topic payload =
     \<lparr>ps_Topic = to_valid_utf8 topic, ps_Payload = (if payload = Some [] then None else payload)\<rparr>"

lemma names_field_simps [simp]:
  "names_field ''topic'' ''topic''" "names_field ''payload'' ''payload''"
  "\<not> names_field ''payload'' ''topic''"
  by (simp_all add: names_field_def)

lemma Unmarshal_Marshal:
  "json_Unmarshal_message (json_Marshal_message \<lparr>ps_Topic = t, ps_Payload = p\<rparr>) = Some (received t p)"
  unfolding json_Unmarshal_message_def parse_envelope Let_def
  by (cases p) (simp_all add: set_topic_def set_payload_def received_def)

section \<open>What the database sees\<close>

lemma utf8_ValidString_append:
  "utf8_ValidString s \<Longrightarrow> utf8_ValidString (s @ t) = utf8_ValidString t"
proof (induction s rule: to_valid_utf8.induct)
  case (1 s)
  show ?case
  proof (cases rule: utf8_cases [of s])
    case (bad c cs)
    with 1(2) utf8_ValidString_bad [of c cs] show ?thesis by simp
  next
    case (rune r rest)
    with 1(2) have "utf8_ValidString rest" by (simp add: utf8_ValidString_rune)
    with 1(1) rune show ?thesis by (simp add: utf8_ValidString_rune)
  qed simp
qed

text \<open>A text that PostgreSQL accepts: well-formed UTF-8 without a zero byte.\<close>

definition pg_text :: "string \<Rightarrow> bool" where
  "pg_text s \<longleftrightarrow> utf8_ValidString s \<and> list_all (\<lambda>c. byte c \<noteq> 0) s"

lemma pg_text_append: "pg_text s \<Longrightarrow> pg_text (s @ t) = pg_text t"
  by (simp add: pg_text_def utf8_ValidString_append)

lemma pg_text_ascii: "list_all (\<lambda>c. byte c < 0x80 \<and> byte c \<noteq> 0) s \<Longrightarrow> pg_text s"
  by (auto simp: pg_text_def list_all_iff intro!: utf8_ValidString_ascii)

lemma hex_digit_ascii: "n < 16 \<Longrightarrow> byte (hex_digit n) < 0x80 \<and> 0 < byte (hex_digit n)"
  by (simp add: hex_digit_def)

lemma u_escape_ascii: "list_all (\<lambda>c. byte c < 0x80 \<and> byte c \<noteq> 0) (u_escape r)"
  by (simp add: u_escape_def hex_digit_ascii)

lemma escape_ascii_ascii:
  "byte c < 0x80 \<Longrightarrow> list_all (\<lambda>c. byte c < 0x80 \<and> byte c \<noteq> 0) (escape_ascii c)"
  using u_escape_ascii [of "byte c"] by (auto simp: escape_ascii_def html_safe_def)

lemma pg_text_rune: "valid_rune r \<Longrightarrow> 0x80 \<le> r \<Longrightarrow> pg_text (utf8_EncodeRune r @ s) = pg_text s"
  using utf8_EncodeRune_high [of r] by (auto simp: pg_text_def utf8_ValidString_rune list_all_iff)

lemma escape_body_pg_text: "pg_text (escape_body s)"
proof (induction s rule: to_valid_utf8.induct)
  case (1 s)
  note esc = pg_text_append [OF pg_text_ascii [OF u_escape_ascii]]
  show ?case
  proof (cases rule: utf8_cases [of s])
    case empty
    then show ?thesis by (simp add: pg_text_def)
  next
    case (bad c cs)
    with 1 show ?thesis by (simp add: escape_body_bad esc)
  next
    case (rune r t)
    with 1 have IH: "pg_text (escape_body t)" by simp
    show ?thesis
    proof (cases "r < 0x80")
      case True
      then have "byte (char_of r) < 0x80" by simp
      from pg_text_append [OF pg_text_ascii [OF escape_ascii_ascii [OF this]]] True rune IH show ?thesis
        by (simp add: utf8_EncodeRune_ascii escape_body_ascii del: byte_char_of)
    next
      case False
      with rune IH show ?thesis
        using escape_body_rune [of r t] by (simp add: esc pg_text_rune)
    qed
  qed
qed

lemma json_Marshal_pg_text: "pg_text (json_Marshal_message msg)"
proof -
  have b64: "pg_text (b64_encode b)" for b
    using b64_encode_safe [of b] by (intro pg_text_ascii) (auto simp: list_all_iff b64_safe_def)
  have lit: "pg_text (''{'' @ s) = pg_text s" "pg_text ('':'' @ s) = pg_text s" "pg_text ('','' @ s) = pg_text s"
    "pg_text (dquote # s) = pg_text s" "pg_text ''}''" "pg_text [dquote, CHR ''}'']" for s
    using pg_text_append [OF pg_text_ascii, of "[dquote]" s] pg_text_append [OF pg_text_ascii, of "''{''" s]
      pg_text_append [OF pg_text_ascii, of "'':''" s] pg_text_append [OF pg_text_ascii, of "'',''" s]
      pg_text_ascii [of "''}''"] pg_text_ascii [of "[dquote, CHR ''}'']"]
    by simp_all
  show ?thesis
    using lit by (auto simp: json_Marshal_message_def json_quote_def payload_field_def
        pg_text_append [OF escape_body_pg_text] pg_text_append [OF b64] split: option.split)
qed

text \<open>How long an envelope is: at most six bytes for a byte of the topic.\<close>

lemma length_escape_ascii: "length (escape_ascii c) \<le> 6"
  by (simp add: escape_ascii_def)

lemma length_escape_body: "length (escape_body s) \<le> 6 * length s"
proof (induction s rule: to_valid_utf8.induct)
  case (1 s)
  show ?case
  proof (cases rule: utf8_cases [of s])
    case (bad c cs)
    with 1 show ?thesis by (simp add: escape_body_bad)
  next
    case (rune r t)
    with 1 have IH: "length (escape_body t) \<le> 6 * length t" by simp
    have pos: "1 \<le> length (utf8_EncodeRune r)" by (simp add: Suc_le_eq)
    show ?thesis
    proof (cases "r < 0x80")
      case True
      then have "byte (char_of r) < 0x80" by simp
      with True rune IH length_escape_ascii [of "char_of r"] show ?thesis
        by (simp add: utf8_EncodeRune_ascii escape_body_ascii del: byte_char_of)
    next
      case False
      with rune IH pos show ?thesis using escape_body_rune [of r t] by auto
    qed
  qed simp
qed

lemma length_envelope:
  "length (json_Marshal_message \<lparr>ps_Topic = t, ps_Payload = None\<rparr>) = length (escape_body t) + 12"
  by (simp add: json_Marshal_message_def json_quote_def payload_field_def field_names)

section \<open>Properties\<close>

lemma valid_iff_unchanged: "to_valid_utf8 s = s \<longleftrightarrow> utf8_ValidString s"
  using to_valid_utf8_valid [of s] to_valid_utf8_id [of s] by metis



end
