(* ===== verification/Notify_Bus.thy ===== *)
theory Notify_Bus
  imports Notify_Envelope Go_Channels Sql_Names
begin

text \<open>
  The pub/sub transport on \<open>LISTEN\<close> and \<open>NOTIFY\<close> (\<open>pgpubsub.go\<close>).

  Publishing is a statement on the database: \<open>pg_notify\<close> queues a pair of channel and text
  with the transaction, once per transaction, and refuses a text of 8000 bytes or more, as the
  documentation of PostgreSQL says; the queue is published by the commit.

  The receiving side is a step function over the interleavings of its goroutines: callers in
  \<open>Sub\<close>, the listener, the goroutine that \<open>Sub\<close> leaves behind for every subscription, and the
  consumers. What runs under \<open>subscribersMu\<close> is one step; \<open>listenMu\<close> is part of the state,
  because it is held across the dial. Channels live in a heap, so that a send on a channel that
  another goroutine has closed is a panic of the model, as it is in Go.
\<close>

section \<open>Options and publishing\<close>

definition defaultNotifyChannel :: string where
  "defaultNotifyChannel = ''pgoutbox_pubsub''"

definition subscriberBufferSize :: nat where
  "subscriberBufferSize = 16"

record pgPubSubOpts =
  opt_channel :: string

definition defaultPGPubSubOpts :: pgPubSubOpts where
  "defaultPGPubSubOpts = \<lparr>opt_channel = defaultNotifyChannel\<rparr>"

datatype PGPubSubOpt = WithNotifyChannel string | WithNotifyLogger

fun apply_PGPubSubOpt :: "PGPubSubOpt \<Rightarrow> pgPubSubOpts \<Rightarrow> pgPubSubOpts" where
  "apply_PGPubSubOpt (WithNotifyChannel name) opts = opts\<lparr>opt_channel := name\<rparr>"
| "apply_PGPubSubOpt WithNotifyLogger opts = opts"

text \<open>The text of a transaction's notifications, at most once each.\<close>

definition notify_payload_limit :: nat where
  "notify_payload_limit = 8000"

definition pg_notify :: "string \<Rightarrow> string \<Rightarrow> 'a db \<Rightarrow> go_err option \<times> 'a db" where
  "pg_notify channel payload tx =
     (if notify_payload_limit \<le> length payload then (Some (DriverError ''payload string too long''), tx)
      else (None, if (channel, payload) \<in> set (tx_notifies tx) then tx
                  else tx\<lparr>tx_notifies := tx_notifies tx @ [(channel, payload)]\<rparr>))"

section \<open>The state of a \<open>pgPubSub\<close>\<close>

text \<open>
  A subscription is the channel's entry in the heap of subscriptions: its topic and context,
  which the goroutine of \<open>Sub\<close> captured, and whether that goroutine has finished. The listener
  is serving a connection, on which notifications wait, or waiting to redial, or has returned.
\<close>

type_synonym chan_id = nat

type_synonym sub_caller = nat

type_synonym sub_ctx = nat

record subscription =
  sub_topic :: topic
  sub_ctx :: sub_ctx
  sub_done :: bool

datatype listener = Serving "string list" | Redialing | Returned

datatype sub_call =
    WaitingListenMu topic sub_ctx
  | HoldingListenMu topic sub_ctx
  | Registering topic sub_ctx
  | SubReturned "go_err + chan_id"

record pgPubSub =
  p_channel :: string
  p_ctx :: "go_err option"
  listenMu :: "sub_caller option"
  listening :: bool
  listeners :: "listener list"
  subscribers :: "topic \<Rightarrow> chan_id list option"
  chans :: "chan_id \<Rightarrow> PubSubMessage chan option"
  subs :: "chan_id \<Rightarrow> subscription option"
  next_chan :: chan_id
  sub_calls :: "sub_caller \<Rightarrow> sub_call option"
  ended :: "sub_ctx \<Rightarrow> bool"

definition new_pgPubSub :: "string \<Rightarrow> pgPubSub" where
  "new_pgPubSub channel = \<lparr>p_channel = channel, p_ctx = None, listenMu = None, listening = False,
     listeners = [], subscribers = (\<lambda>_. None), chans = (\<lambda>_. None), subs = (\<lambda>_. None),
     next_chan = 0, sub_calls = (\<lambda>_. None), ended = (\<lambda>_. False)\<rparr>"

definition NewPGPubSub :: "PGPubSubOpt list \<Rightarrow> go_err + pgPubSub" where
  "NewPGPubSub fs =
     (let opts = fold apply_PGPubSubOpt fs defaultPGPubSubOpts in
      if \<not> schemaNameRE_MatchString (opt_channel opts)
      then Inl (Errorf ''invalid notify channel name'' (opt_channel opts))
      else Inr (new_pgPubSub (opt_channel opts)))"

definition pgPubSub_Pub ::
  "pgPubSub \<Rightarrow> env \<Rightarrow> topic \<Rightarrow> string option \<Rightarrow> 'a db \<Rightarrow> go_err option \<times> 'a db" where
  "pgPubSub_Pub p e topic payload d =
     (case marshalPubSubMessage topic payload of
        Inl er \<Rightarrow> (Some er, d)
      | Inr wrapped \<Rightarrow>
          (case pg_notify (p_channel p) wrapped (begin_tx d) of
             (Some er, tx) \<Rightarrow> (Some (Wrap ''could not publish to topic'' topic er), d)
           | (None, tx) \<Rightarrow>
               (map_option (Wrap ''could not publish to topic'' topic) (call_err e AtPub),
                if outcome_applied (e_outcome e AtPub) then commit_db tx else d)))"

definition pgPubSub_PubInTx ::
  "pgPubSub \<Rightarrow> env \<Rightarrow> topic \<Rightarrow> string option \<Rightarrow> 'a db \<Rightarrow> go_err option \<times> 'a db" where
  "pgPubSub_PubInTx p e topic payload tx =
     (case marshalPubSubMessage topic payload of
        Inl er \<Rightarrow> (Some er, tx)
      | Inr wrapped \<Rightarrow>
          on_err (call_err e AtPubInTx)
            (\<lambda>er. (Some (Wrap ''could not publish to topic'' topic er), tx))
            (case pg_notify (p_channel p) wrapped tx of
               (Some er, tx1) \<Rightarrow> (Some (Wrap ''could not publish to topic'' topic er), tx1)
             | (None, tx1) \<Rightarrow> (None, tx1)))"

text \<open>The transport as the outbox sees it.\<close>

definition pg_transport :: "pgPubSub \<Rightarrow> env \<Rightarrow> 'a db \<Rightarrow> 'a PubSub" where
  "pg_transport p e d =
     \<lparr>ps_Pub = (\<lambda>topic payload. fst (pgPubSub_Pub p e topic payload d)),
      ps_PubInTx = Some (pgPubSub_PubInTx p e)\<rparr>"

section \<open>Subscribing\<close>

definition Sub_check :: "pgPubSub \<Rightarrow> topic \<Rightarrow> go_err option" where
  "Sub_check p topic =
     (if topic = [] then Some (Errorf ''topic must not be empty'' [])
      else map_option (Wrap ''pubsub has shut down'' []) (p_ctx p))"

definition connectAndListen :: "pgPubSub \<Rightarrow> env \<Rightarrow> go_err option" where
  "connectAndListen p e =
     on_err (call_err e AtListenAcquire) (\<lambda>er. Some (Wrap ''acquire listener connection'' [] er))
       (map_option (Wrap ''listen on channel'' (p_channel p)) (call_err e AtListen))"

text \<open>
  \<open>ensureListening\<close>: with the mutex taken it returns at once if the listener runs; otherwise the
  caller keeps the mutex and dials, which takes time, and then starts the listener or fails.
\<close>

definition ensureListening_enter :: "sub_caller \<Rightarrow> topic \<Rightarrow> sub_ctx \<Rightarrow> pgPubSub \<Rightarrow> sub_call \<times> pgPubSub" where
  "ensureListening_enter c topic ctx p =
     (if listening p then (Registering topic ctx, p)
      else (HoldingListenMu topic ctx, p\<lparr>listenMu := Some c\<rparr>))"

definition ensureListening_dial :: "env \<Rightarrow> pgPubSub \<Rightarrow> go_err option \<times> pgPubSub" where
  "ensureListening_dial e p =
     (case connectAndListen p e of
        Some er \<Rightarrow> (Some (Wrap ''could not start pubsub listener'' [] er), p\<lparr>listenMu := None\<rparr>)
      | None \<Rightarrow> (None, p\<lparr>listening := True, listeners := listeners p @ [Serving []], listenMu := None\<rparr>))"

text \<open>The last part of \<open>Sub\<close>: the channel, its registration and its goroutine.\<close>

definition register :: "topic \<Rightarrow> sub_ctx \<Rightarrow> pgPubSub \<Rightarrow> chan_id \<times> pgPubSub" where
  "register topic ctx p =
     (let ch = next_chan p;
          ids = (case subscribers p topic of None \<Rightarrow> [] | Some ids \<Rightarrow> ids)
      in (ch, p\<lparr>next_chan := Suc ch,
            chans := (chans p)(ch \<mapsto> chan_make subscriberBufferSize),
            subscribers := (subscribers p)(topic \<mapsto> ids @ [ch]),
            subs := (subs p)(ch \<mapsto> \<lparr>sub_topic = topic, sub_ctx = ctx, sub_done = False\<rparr>)\<rparr>))"

datatype 'a step_result = Disabled | Panicked | Next 'a

text \<open>\<open>unsubscribe\<close>, the end of a subscription's goroutine.\<close>

definition unsubscribe :: "topic \<Rightarrow> chan_id \<Rightarrow> pgPubSub \<Rightarrow> pgPubSub step_result" where
  "unsubscribe topic ch p =
     (case subscribers p topic of
        None \<Rightarrow> Next p
      | Some ids \<Rightarrow>
          if ch \<notin> set ids then Next p
          else (let ids' = removeAll ch ids;
                    p1 = p\<lparr>subscribers := (subscribers p)(topic := (if ids' = [] then None else Some ids'))\<rparr>
                in case Option.bind (chans p ch) chan_close of
                     None \<Rightarrow> Panicked
                   | Some c \<Rightarrow> Next (p1\<lparr>chans := (chans p)(ch \<mapsto> c)\<rparr>)))"

text \<open>\<open>dispatch\<close>: every subscriber of the topic gets a copy, unless its buffer is full. The order in
  which the map is traversed makes no difference. A channel that is not in the heap is nil, on
  which a send with a default arm does nothing.\<close>

fun send_all ::
  "PubSubMessage \<Rightarrow> chan_id list \<Rightarrow> (chan_id \<Rightarrow> PubSubMessage chan option)
     \<Rightarrow> (chan_id \<Rightarrow> PubSubMessage chan option) option" where
  "send_all msg [] cs = Some cs"
| "send_all msg (i # is) cs =
     (case cs i of
        None \<Rightarrow> send_all msg is cs
      | Some c \<Rightarrow>
          (case chan_try_send msg c of
             None \<Rightarrow> None
           | Some (sent, c') \<Rightarrow> send_all msg is (cs(i \<mapsto> c'))))"

definition dispatch :: "PubSubMessage \<Rightarrow> pgPubSub \<Rightarrow> pgPubSub step_result" where
  "dispatch msg p =
     (case send_all msg (case subscribers p (ps_Topic msg) of None \<Rightarrow> [] | Some ids \<Rightarrow> ids) (chans p) of
        None \<Rightarrow> Panicked
      | Some cs \<Rightarrow> Next (p\<lparr>chans := cs\<rparr>))"

text \<open>One round of \<open>serveConn\<close> that received a notification.\<close>

definition serve_notification :: "string \<Rightarrow> pgPubSub \<Rightarrow> pgPubSub step_result" where
  "serve_notification payload p =
     (case json_Unmarshal_message payload of
        None \<Rightarrow> Next p
      | Some msg \<Rightarrow> dispatch msg p)"

section \<open>The steps\<close>

text \<open>
  \<open>Arrive\<close> is PostgreSQL delivering a committed notification to every connection that listens on
  its channel; \<open>ListenerLost\<close> is \<open>WaitForNotification\<close> returning an error, which it also
  does when the context ends.
\<close>

datatype bus_event =
    CallSub sub_caller topic sub_ctx
  | LockListenMu sub_caller
  | DialDone sub_caller env
  | Register sub_caller
  | TakeResult sub_caller
  | EndCtx sub_ctx
  | Shutdown go_err
  | Unsubscribe chan_id
  | Arrive string string
  | Serve nat
  | ListenerLost nat
  | Redial nat env
  | GiveUp nat
  | Receive chan_id

definition set_listener :: "nat \<Rightarrow> listener \<Rightarrow> pgPubSub \<Rightarrow> pgPubSub" where
  "set_listener j l p = p\<lparr>listeners := (listeners p)[j := l]\<rparr>"

definition listener_at :: "nat \<Rightarrow> pgPubSub \<Rightarrow> listener" where
  "listener_at j p = (if j < length (listeners p) then listeners p ! j else Returned)"

definition end_or_redial :: "pgPubSub \<Rightarrow> listener" where
  "end_or_redial p = (if p_ctx p \<noteq> None then Returned else Redialing)"

abbreviation set_call :: "sub_caller \<Rightarrow> sub_call option \<Rightarrow> pgPubSub \<Rightarrow> pgPubSub" where
  "set_call c s p \<equiv> p\<lparr>sub_calls := (sub_calls p)(c := s)\<rparr>"

fun queue_notification :: "string \<Rightarrow> listener \<Rightarrow> listener" where
  "queue_notification payload (Serving q) = Serving (q @ [payload])"
| "queue_notification payload l = l"

fun bus_step :: "bus_event \<Rightarrow> pgPubSub \<Rightarrow> pgPubSub step_result" where
  "bus_step (CallSub c topic ctx) p =
     (if sub_calls p c \<noteq> None then Disabled
      else Next (set_call c (Some (case Sub_check p topic of
             Some er \<Rightarrow> SubReturned (Inl er) | None \<Rightarrow> WaitingListenMu topic ctx)) p))"
| "bus_step (LockListenMu c) p =
     (case sub_calls p c of
        Some (WaitingListenMu topic ctx) \<Rightarrow>
          if listenMu p \<noteq> None then Disabled
          else (case ensureListening_enter c topic ctx p of (s, p1) \<Rightarrow> Next (set_call c (Some s) p1))
      | _ \<Rightarrow> Disabled)"
| "bus_step (DialDone c e) p =
     (case sub_calls p c of
        Some (HoldingListenMu topic ctx) \<Rightarrow>
          (case ensureListening_dial e p of
             (Some er, p1) \<Rightarrow> Next (set_call c (Some (SubReturned (Inl er))) p1)
           | (None, p1) \<Rightarrow> Next (set_call c (Some (Registering topic ctx)) p1))
      | _ \<Rightarrow> Disabled)"
| "bus_step (Register c) p =
     (case sub_calls p c of
        Some (Registering topic ctx) \<Rightarrow>
          (case register topic ctx p of
             (ch, p1) \<Rightarrow> Next (set_call c (Some (SubReturned (Inr ch))) p1))
      | _ \<Rightarrow> Disabled)"
| "bus_step (TakeResult c) p =
     (case sub_calls p c of
        Some (SubReturned r) \<Rightarrow> Next (set_call c None p)
      | _ \<Rightarrow> Disabled)"
| "bus_step (EndCtx ctx) p = Next (p\<lparr>ended := (ended p)(ctx := True)\<rparr>)"
| "bus_step (Shutdown er) p = (if p_ctx p \<noteq> None then Disabled else Next (p\<lparr>p_ctx := Some er\<rparr>))"
| "bus_step (Unsubscribe ch) p =
     (case subs p ch of
        None \<Rightarrow> Disabled
      | Some s \<Rightarrow>
          if sub_done s \<or> \<not> (ended p (sub_ctx s) \<or> p_ctx p \<noteq> None) then Disabled
          else (case unsubscribe (sub_topic s) ch p of
                  Next p1 \<Rightarrow> Next (p1\<lparr>subs := (subs p)(ch \<mapsto> s\<lparr>sub_done := True\<rparr>)\<rparr>)
                | r \<Rightarrow> r))"
| "bus_step (Arrive channel payload) p =
     Next (if channel = p_channel p
           then p\<lparr>listeners := map (queue_notification payload) (listeners p)\<rparr> else p)"
| "bus_step (Serve j) p =
     (case listener_at j p of
        Serving (payload # q) \<Rightarrow> serve_notification payload (set_listener j (Serving q) p)
      | _ \<Rightarrow> Disabled)"
| "bus_step (ListenerLost j) p =
     (case listener_at j p of
        Serving q \<Rightarrow> Next (set_listener j (end_or_redial p) p)
      | _ \<Rightarrow> Disabled)"
| "bus_step (Redial j e) p =
     (case listener_at j p of
        Redialing \<Rightarrow>
          Next (set_listener j (if connectAndListen p e = None then Serving [] else end_or_redial p) p)
      | _ \<Rightarrow> Disabled)"
| "bus_step (GiveUp j) p =
     (case listener_at j p of
        Redialing \<Rightarrow> if p_ctx p = None then Disabled else Next (set_listener j Returned p)
      | _ \<Rightarrow> Disabled)"
| "bus_step (Receive ch) p =
     (case chans p ch of
        None \<Rightarrow> Disabled
      | Some c \<Rightarrow> Next (p\<lparr>chans := (chans p)(ch \<mapsto> snd (chan_try_recv c))\<rparr>))"

inductive bus_reachable :: "pgPubSub \<Rightarrow> bool" where
  start: "NewPGPubSub fs = Inr p \<Longrightarrow> bus_reachable p"
| step: "bus_reachable p \<Longrightarrow> bus_step ev p = Next p' \<Longrightarrow> bus_reachable p'"

fun bus_run :: "bus_event list \<Rightarrow> pgPubSub \<Rightarrow> pgPubSub step_result" where
  "bus_run [] p = Next p"
| "bus_run (ev # evs) p =
     (case bus_step ev p of Next p' \<Rightarrow> bus_run evs p' | r \<Rightarrow> r)"

section \<open>Sending to all subscribers\<close>

text \<open>What a non-blocking send leaves in an open channel.\<close>

definition offer :: "'m \<Rightarrow> 'm chan \<Rightarrow> 'm chan" where
  "offer m c = (if length (ch_buf c) < ch_cap c then c\<lparr>ch_buf := ch_buf c @ [m]\<rparr> else c)"

lemma offer_simps [simp]:
  "ch_cap (offer m c) = ch_cap c" "ch_closed (offer m c) = ch_closed c"
  "length (ch_buf c) \<le> ch_cap c \<Longrightarrow> length (ch_buf (offer m c)) \<le> ch_cap c"
  by (simp_all add: offer_def)

lemma offer_not_empty: "0 < ch_cap c \<Longrightarrow> ch_buf (offer m c) \<noteq> []"
  by (auto simp: offer_def)

lemma chan_try_send_open: "\<not> ch_closed c \<Longrightarrow> \<exists>sent. chan_try_send m c = Some (sent, offer m c)"
  by (auto simp: chan_try_send_def offer_def)

lemma send_all_open:
  assumes "distinct is" "\<And>i c. i \<in> set is \<Longrightarrow> cs i = Some c \<Longrightarrow> \<not> ch_closed c"
  shows "send_all m is cs = Some (\<lambda>i. if i \<in> set is then map_option (offer m) (cs i) else cs i)"
  using assms
proof (induction "is" arbitrary: cs)
  case (Cons i "is")
  show ?case
  proof (cases "cs i")
    case None
    with Cons.prems have "send_all m is cs =
        Some (\<lambda>k. if k \<in> set is then map_option (offer m) (cs k) else cs k)"
      by (intro Cons.IH) auto
    with None show ?thesis by (auto simp: fun_eq_iff)
  next
    case (Some c)
    with Cons.prems(2) [of i c] have "\<not> ch_closed c" by simp
    then obtain sent where c: "chan_try_send m c = Some (sent, offer m c)"
      using chan_try_send_open [of c m] by blast
    have "send_all m is (cs(i \<mapsto> offer m c)) = Some (\<lambda>k. if k \<in> set is
        then map_option (offer m) ((cs(i \<mapsto> offer m c)) k) else (cs(i \<mapsto> offer m c)) k)"
      using Cons.prems by (intro Cons.IH) (auto split: if_splits)
    also have "\<dots> = Some (\<lambda>k. if k \<in> set (i # is) then map_option (offer m) (cs k) else cs k)"
      using Cons.prems(1) Some by (auto simp: fun_eq_iff)
    finally show ?thesis using Some c by simp
  qed
qed simp

section \<open>Invariants of the receiving side\<close>

definition registry_ok :: "pgPubSub \<Rightarrow> bool" where
  "registry_ok p \<longleftrightarrow> (\<forall>t ids. subscribers p t = Some ids \<longrightarrow> ids \<noteq> [] \<and> distinct ids \<and>
     (\<forall>i \<in> set ids. \<exists>s. subs p i = Some s \<and> sub_topic s = t \<and> \<not> sub_done s))"

definition subscription_ok :: "pgPubSub \<Rightarrow> chan_id \<Rightarrow> subscription \<Rightarrow> bool" where
  "subscription_ok p i s \<longleftrightarrow> i < next_chan p \<and>
     (\<exists>c. chans p i = Some c \<and> ch_cap c = subscriberBufferSize \<and> length (ch_buf c) \<le> ch_cap c \<and>
        (ch_closed c \<longleftrightarrow> sub_done s)) \<and>
     (sub_done s \<longrightarrow> ended p (sub_ctx s) \<or> p_ctx p \<noteq> None) \<and>
     (\<not> sub_done s \<longrightarrow> (\<exists>ids. subscribers p (sub_topic s) = Some ids \<and> i \<in> set ids))"

definition subs_ok :: "pgPubSub \<Rightarrow> bool" where
  "subs_ok p \<longleftrightarrow> (\<forall>i s. subs p i = Some s \<longrightarrow> subscription_ok p i s) \<and> dom (chans p) = dom (subs p)"

fun holds_mu :: "sub_call option \<Rightarrow> bool" where
  "holds_mu (Some (HoldingListenMu t x)) = True"
| "holds_mu _ = False"

fun is_registering :: "sub_call option \<Rightarrow> bool" where
  "is_registering (Some (Registering t x)) = True"
| "is_registering _ = False"

definition listener_ok :: "pgPubSub \<Rightarrow> bool" where
  "listener_ok p \<longleftrightarrow> length (listeners p) = (if listening p then 1 else 0) \<and>
     (\<forall>c. holds_mu (sub_calls p c) = (listenMu p = Some c)) \<and>
     (listenMu p \<noteq> None \<longrightarrow> \<not> listening p) \<and>
     (\<forall>c. is_registering (sub_calls p c) \<longrightarrow> listening p) \<and>
     (\<forall>i. subs p i \<noteq> None \<longrightarrow> listening p)"

lemma listener_okI:
  assumes "listener_ok p" "length (listeners p') = length (listeners p)" "listening p' = listening p"
    "listenMu p' = listenMu p" "subs p' = subs p"
    and "\<And>c. holds_mu (sub_calls p' c) = holds_mu (sub_calls p c)"
    and "\<And>c. is_registering (sub_calls p' c) \<Longrightarrow> is_registering (sub_calls p c)"
  shows "listener_ok p'"
  using assms by (simp add: listener_ok_def) blast

lemma listener_ok_step:
  assumes "listener_ok p" "bus_step ev p = Next p'"
  shows "listener_ok p'"
proof (cases ev)
  case (LockListenMu c)
  with assms(2) obtain t x where call: "sub_calls p c = Some (WaitingListenMu t x)" "listenMu p = None"
    by (auto split: option.splits sub_call.splits if_splits)
  with LockListenMu assms show ?thesis
    by (auto simp: listener_ok_def ensureListening_enter_def split: if_splits)
next
  case (DialDone c e)
  with assms(2) obtain t x where call: "sub_calls p c = Some (HoldingListenMu t x)"
    by (auto split: option.splits sub_call.splits)
  then have "holds_mu (sub_calls p c)" by simp
  with assms(1) have mu: "listenMu p = Some c" by (simp add: listener_ok_def)
  with assms DialDone call show ?thesis
    by (cases "connectAndListen p e") (auto simp: listener_ok_def ensureListening_dial_def split: if_splits)
next
  case (Register c)
  with assms(2) obtain t x where "sub_calls p c = Some (Registering t x)"
    by (auto split: option.splits sub_call.splits)
  moreover from this have "is_registering (sub_calls p c)" by simp
  with assms(1) have "listening p" unfolding listener_ok_def by blast
  ultimately show ?thesis
    using Register assms by (auto simp: listener_ok_def register_def Let_def split: if_splits)
next
  case (Unsubscribe i)
  with assms(2) obtain s p1 where "subs p i = Some s" "unsubscribe (sub_topic s) i p = Next p1"
    "p' = p1\<lparr>subs := (subs p)(i \<mapsto> s\<lparr>sub_done := True\<rparr>)\<rparr>"
    by (auto split: option.splits if_splits step_result.splits)
  with assms(1) show ?thesis
    by (auto simp: listener_ok_def unsubscribe_def Let_def split: option.splits if_splits)
next
  case (Serve j)
  with assms(2) obtain q payload where
    "serve_notification payload (set_listener j (Serving q) p) = Next p'"
    by (auto split: listener.splits list.splits)
  then show ?thesis
    by (intro listener_okI [OF assms(1)])
      (auto simp: serve_notification_def dispatch_def set_listener_def split: option.splits)
next
  case (CallSub c t x)
  with assms show ?thesis
    by (auto intro!: listener_okI [OF assms(1)] split: if_splits option.splits)
next
  case (TakeResult c)
  with assms(2) obtain r where "sub_calls p c = Some (SubReturned r)" "p' = set_call c None p"
    by (auto split: option.splits sub_call.splits)
  then show ?thesis by (intro listener_okI [OF assms(1)]) (auto split: if_splits)
qed (use assms(2) in \<open>auto simp: set_listener_def intro!: listener_okI [OF assms(1)]
    split: option.splits if_splits listener.splits\<close>)

lemma registry_okD:
  assumes "registry_ok p" "subscribers p t = Some ids"
  shows "ids \<noteq> []" "distinct ids"
    "i \<in> set ids \<Longrightarrow> \<exists>s. subs p i = Some s \<and> sub_topic s = t \<and> \<not> sub_done s"
  using assms by (simp_all add: registry_ok_def)

lemma subs_okD:
  assumes "subs_ok p"
  shows "subs p i = Some s \<Longrightarrow> subscription_ok p i s"
    and "chans p i = Some c \<Longrightarrow> \<exists>s. subs p i = Some s"
    and "subs p i = None \<Longrightarrow> chans p i = None"
  using assms unfolding subs_ok_def by blast+

text \<open>What the invariants make of the two operations on the registry.\<close>

lemma registered_open:
  assumes "registry_ok p" "subs_ok p" "subscribers p t = Some ids" "i \<in> set ids"
  shows "\<exists>c. chans p i = Some c \<and> \<not> ch_closed c"
  using registry_okD(3) [OF assms(1,3,4)] subs_okD(1) [OF assms(2)]
  by (fastforce simp: subscription_ok_def)

lemma dispatch_ok:
  assumes "registry_ok p" "subs_ok p"
  shows "dispatch msg p = Next (p\<lparr>chans := (\<lambda>i.
    if (\<exists>ids. subscribers p (ps_Topic msg) = Some ids \<and> i \<in> set ids)
    then map_option (offer msg) (chans p i) else chans p i)\<rparr>)"
proof (cases "subscribers p (ps_Topic msg)")
  case None
  then show ?thesis by (simp add: dispatch_def)
next
  case (Some ids)
  have "send_all msg ids (chans p) =
      Some (\<lambda>i. if i \<in> set ids then map_option (offer msg) (chans p i) else chans p i)"
    using registered_open [OF assms Some] registry_okD(2) [OF assms(1) Some]
    by (intro send_all_open) fastforce+
  with Some show ?thesis by (simp add: dispatch_def)
qed

lemma unsubscribe_ok:
  assumes "registry_ok p" "subs_ok p" "subs p i = Some s" "\<not> sub_done s"
  obtains ids c where "subscribers p (sub_topic s) = Some ids" "i \<in> set ids" "chans p i = Some c"
    "\<not> ch_closed c"
    "unsubscribe (sub_topic s) i p = Next (p\<lparr>
       subscribers := (subscribers p)(sub_topic s :=
         (if removeAll i ids = [] then None else Some (removeAll i ids))),
       chans := (chans p)(i \<mapsto> c\<lparr>ch_closed := True\<rparr>)\<rparr>)"
proof -
  from subs_okD(1) [OF assms(2,3)] assms(4) obtain ids c where
    "subscribers p (sub_topic s) = Some ids" "i \<in> set ids" "chans p i = Some c" "\<not> ch_closed c"
    by (auto simp: subscription_ok_def)
  then show ?thesis
    by (intro that) (simp_all add: unsubscribe_def Let_def chan_close_def)
qed

definition bus_ok :: "pgPubSub \<Rightarrow> bool" where
  "bus_ok p \<longleftrightarrow> registry_ok p \<and> subs_ok p \<and> listener_ok p"

lemma bus_ok_new [simp]: "bus_ok (new_pgPubSub channel)"
  by (simp add: bus_ok_def registry_ok_def subs_ok_def listener_ok_def new_pgPubSub_def)

text \<open>Steps that leave the registry alone.\<close>

lemma registry_frame:
  assumes "registry_ok p" "subs_ok p" "subscribers p' = subscribers p" "subs p' = subs p"
    "chans p' = chans p" "next_chan p' = next_chan p"
    "\<And>x. ended p x \<Longrightarrow> ended p' x" "p_ctx p \<noteq> None \<Longrightarrow> p_ctx p' \<noteq> None"
  shows "registry_ok p' \<and> subs_ok p'"
proof -
  have "subscription_ok p' i s" if "subs p i = Some s" for i s
    using subs_okD(1) [OF assms(2) that] assms(3-8) by (auto simp: subscription_ok_def)
  then show ?thesis using assms(1-5) by (simp add: registry_ok_def subs_ok_def)
qed

text \<open>Steps that change the buffers only.\<close>

lemma registry_buffers:
  assumes "registry_ok p" "subs_ok p" "subscribers p' = subscribers p" "subs p' = subs p"
    "next_chan p' = next_chan p" "ended p' = ended p" "p_ctx p' = p_ctx p"
    and "\<And>i. rel_option (\<lambda>c c'. ch_cap c' = ch_cap c \<and> ch_closed c' = ch_closed c \<and>
      (length (ch_buf c) \<le> ch_cap c \<longrightarrow> length (ch_buf c') \<le> ch_cap c)) (chans p i) (chans p' i)"
  shows "registry_ok p' \<and> subs_ok p'"
proof -
  have "chans p' i = None \<longleftrightarrow> chans p i = None" for i
    using assms(8) [of i] by (cases "chans p i"; cases "chans p' i") auto
  then have "dom (chans p') = dom (chans p)" by (auto simp: dom_def)
  moreover have "subscription_ok p' i s" if "subs p i = Some s" for i s
  proof -
    from subs_okD(1) [OF assms(2) that] obtain c where c: "chans p i = Some c"
      "ch_cap c = subscriberBufferSize" "length (ch_buf c) \<le> ch_cap c" "ch_closed c = sub_done s"
      by (auto simp: subscription_ok_def)
    from assms(8) [of i] c obtain c' where "chans p' i = Some c'" "ch_cap c' = ch_cap c"
      "ch_closed c' = ch_closed c" "length (ch_buf c') \<le> ch_cap c"
      by (auto simp: option_rel_Some1)
    with c subs_okD(1) [OF assms(2) that] assms show ?thesis by (auto simp: subscription_ok_def)
  qed
  ultimately show ?thesis using assms(1-4) by (auto simp: registry_ok_def subs_ok_def)
qed

lemma chan_try_recv_frame:
  "ch_cap (snd (chan_try_recv c)) = ch_cap c" "ch_closed (snd (chan_try_recv c)) = ch_closed c"
  "length (ch_buf (snd (chan_try_recv c))) \<le> length (ch_buf c)"
  by (simp_all add: chan_try_recv_def split: list.splits)

lemma register_ok:
  assumes "registry_ok p" "subs_ok p"
  shows "registry_ok (snd (register t x p)) \<and> subs_ok (snd (register t x p))"
proof -
  let ?p = "snd (register t x p)" and ?i = "next_chan p"
  let ?ids = "case subscribers p t of None \<Rightarrow> [] | Some ids \<Rightarrow> ids"
  have less: "i < ?i" if "subs p i = Some s" for i s
    using subs_okD(1) [OF assms(2) that] by (simp add: subscription_ok_def)
  then have new: "subs p ?i = None" by (cases "subs p ?i") auto
  have ids: "i \<in> set ids \<Longrightarrow> i \<noteq> ?i" if "subscribers p u = Some ids" for i u ids
    using registry_okD(3) [OF assms(1) that] new by fastforce
  have p: "subscribers ?p = (subscribers p)(t \<mapsto> ?ids @ [?i])"
    "chans ?p = (chans p)(?i \<mapsto> chan_make subscriberBufferSize)"
    "subs ?p = (subs p)(?i \<mapsto> \<lparr>sub_topic = t, sub_ctx = x, sub_done = False\<rparr>)"
    "next_chan ?p = Suc ?i" "ended ?p = ended p" "p_ctx ?p = p_ctx p"
    by (simp_all add: register_def Let_def)
  have "registry_ok ?p"
    using assms(1) ids unfolding registry_ok_def p
    by (fastforce split: option.splits if_splits)
  moreover have "subscription_ok ?p i s" if "subs ?p i = Some s" for i s
  proof (cases "i = ?i")
    case True
    with that show ?thesis by (auto simp: p subscription_ok_def)
  next
    case False
    with that have s: "subs p i = Some s" by (simp add: p)
    with subs_okD(1) [OF assms(2) s] False show ?thesis
      by (fastforce simp: p subscription_ok_def)
  qed
  moreover have "dom (chans ?p) = dom (subs ?p)" using assms(2) by (auto simp: p subs_ok_def)
  ultimately show ?thesis by (simp add: subs_ok_def)
qed

lemma removeAll_Nil_mem: "removeAll i ids = [] \<Longrightarrow> k \<in> set ids \<Longrightarrow> k = i"
  by (metis Diff_iff empty_iff empty_set set_removeAll singletonD)

lemma bus_ok_unsubscribe:
  assumes "registry_ok p" "subs_ok p" "bus_step (Unsubscribe i) p = Next p'"
  shows "registry_ok p' \<and> subs_ok p'"
proof -
  from assms(3) obtain s where s: "subs p i = Some s" "\<not> sub_done s"
    and over: "ended p (sub_ctx s) \<or> p_ctx p \<noteq> None" by (auto split: option.splits if_splits)
  obtain ids c where reg: "subscribers p (sub_topic s) = Some ids" "i \<in> set ids" and c: "chans p i = Some c"
    and un: "unsubscribe (sub_topic s) i p = Next (p\<lparr>
       subscribers := (subscribers p)(sub_topic s :=
         (if removeAll i ids = [] then None else Some (removeAll i ids))),
       chans := (chans p)(i \<mapsto> c\<lparr>ch_closed := True\<rparr>)\<rparr>)"
    by (rule unsubscribe_ok [OF assms(1,2) s])
  have p': "subscribers p' = (subscribers p)(sub_topic s :=
      (if removeAll i ids = [] then None else Some (removeAll i ids)))"
    "chans p' = (chans p)(i \<mapsto> c\<lparr>ch_closed := True\<rparr>)"
    "subs p' = (subs p)(i \<mapsto> s\<lparr>sub_done := True\<rparr>)"
    "next_chan p' = next_chan p" "ended p' = ended p" "p_ctx p' = p_ctx p"
    using assms(3) s over un by auto
  have only: "u = sub_topic s" if "subscribers p u = Some js" "i \<in> set js" for u js
    using registry_okD(3) [OF assms(1) that] s by simp
  have "registry_ok p'"
    unfolding registry_ok_def
  proof (intro allI impI)
    fix u js
    assume js: "subscribers p' u = Some js"
    obtain ks where ks: "subscribers p u = Some ks" "js = removeAll i ks"  "js \<noteq> []"
    proof (cases "u = sub_topic s")
      case True
      with js reg that show ?thesis by (auto simp: p' split: if_splits)
    next
      case False
      with js have "subscribers p u = Some js" by (simp add: p')
      moreover with only False have "i \<notin> set js" by blast
      ultimately show ?thesis
        using that [of js] registry_okD(1) [OF assms(1), of u js] by simp
    qed
    show "js \<noteq> [] \<and> distinct js \<and>
        (\<forall>k \<in> set js. \<exists>s. subs p' k = Some s \<and> sub_topic s = u \<and> \<not> sub_done s)"
      using ks registry_okD(2,3) [OF assms(1) ks(1)] by (auto simp: p' distinct_removeAll)
  qed
  moreover have "subscription_ok p' k r" if "subs p' k = Some r" for k r
  proof (cases "k = i")
    case True
    with that s c over subs_okD(1) [OF assms(2) s(1)] show ?thesis
      by (auto simp: p' subscription_ok_def)
  next
    case False
    with that have r: "subs p k = Some r" by (simp add: p')
    from False have "removeAll i ids \<noteq> []" if "k \<in> set ids"
      using that removeAll_Nil_mem [of i ids k] by auto
    with subs_okD(1) [OF assms(2) r] False reg show ?thesis
      by (auto simp: p' subscription_ok_def)
  qed
  moreover have "dom (chans p') = dom (subs p')" using assms(2) c s by (auto simp: p' subs_ok_def)
  ultimately show ?thesis by (simp add: subs_ok_def)
qed

lemma serve_ok:
  assumes "registry_ok p" "subs_ok p" "serve_notification payload p = Next p'"
  shows "registry_ok p' \<and> subs_ok p'"
proof (cases "json_Unmarshal_message payload")
  case None
  with assms show ?thesis by (simp add: serve_notification_def)
next
  case (Some msg)
  with assms(3) dispatch_ok [OF assms(1,2), of msg] have "p' = p\<lparr>chans := (\<lambda>i.
      if (\<exists>ids. subscribers p (ps_Topic msg) = Some ids \<and> i \<in> set ids)
      then map_option (offer msg) (chans p i) else chans p i)\<rparr>"
    by (simp add: serve_notification_def)
  then show ?thesis
    by (intro registry_buffers [OF assms(1,2)]) (auto simp: option.rel_map intro!: option.rel_refl)
qed

definition leaves_registry :: "pgPubSub \<Rightarrow> pgPubSub \<Rightarrow> bool" where
  "leaves_registry p p' \<longleftrightarrow> subscribers p' = subscribers p \<and> subs p' = subs p \<and> chans p' = chans p \<and>
     next_chan p' = next_chan p \<and> (\<forall>x. ended p x \<longrightarrow> ended p' x) \<and> (p_ctx p \<noteq> None \<longrightarrow> p_ctx p' \<noteq> None)"

lemma registry_leave:
  "registry_ok p \<Longrightarrow> subs_ok p \<Longrightarrow> leaves_registry p p' \<Longrightarrow> registry_ok p' \<and> subs_ok p'"
  using registry_frame [of p p'] unfolding leaves_registry_def by blast

lemma step_leaves_registry:
  assumes "bus_step ev p = Next p'"
    and "\<And>c. ev \<noteq> Register c" "\<And>i. ev \<noteq> Unsubscribe i" "\<And>j. ev \<noteq> Serve j" "\<And>i. ev \<noteq> Receive i"
  shows "leaves_registry p p'"
  using assms
  by (cases ev) (auto simp: leaves_registry_def ensureListening_enter_def ensureListening_dial_def
      set_listener_def split: option.splits sub_call.splits listener.splits if_splits)

lemma bus_ok_step:
  assumes "bus_ok p" "bus_step ev p = Next p'"
  shows "bus_ok p'"
proof -
  from assms(1) have ok: "registry_ok p" "subs_ok p" "listener_ok p" by (simp_all add: bus_ok_def)
  have "registry_ok p' \<and> subs_ok p'"
  proof (cases ev)
    case (Register c)
    with assms(2) obtain t x where "sub_calls p c = Some (Registering t x)"
      "p' = set_call c (Some (SubReturned (Inr (fst (register t x p))))) (snd (register t x p))"
      by (auto split: option.splits sub_call.splits prod.splits)
    with registry_frame [OF conjunct1 [OF register_ok [OF ok(1,2)]] conjunct2 [OF register_ok [OF ok(1,2)]]]
    show ?thesis by simp
  next
    case (Unsubscribe i)
    with bus_ok_unsubscribe [OF ok(1,2)] assms(2) show ?thesis by blast
  next
    case (Serve j)
    have frame: "registry_ok (set_listener j l p) \<and> subs_ok (set_listener j l p)" for l
      by (rule registry_frame [OF ok(1,2)]) (simp_all add: set_listener_def)
    from Serve assms(2) obtain payload q where
      "serve_notification payload (set_listener j (Serving q) p) = Next p'"
      by (auto split: listener.splits list.splits)
    with serve_ok frame show ?thesis by blast
  next
    case (Receive i)
    with assms(2) obtain c where "chans p i = Some c"
      "p' = p\<lparr>chans := (chans p)(i \<mapsto> snd (chan_try_recv c))\<rparr>" by (auto split: option.splits)
    then show ?thesis
      by (intro registry_buffers [OF ok(1,2)])
        (auto simp: chan_try_recv_frame intro!: option.rel_refl le_trans [OF chan_try_recv_frame(3)])
  qed (rule registry_leave [OF ok(1,2) step_leaves_registry [OF assms(2)]], simp_all)+
  with listener_ok_step [OF ok(3) assms(2)] show ?thesis by (simp add: bus_ok_def)
qed

lemma bus_reachable_ok: "bus_reachable p \<Longrightarrow> bus_ok p"
proof (induction rule: bus_reachable.induct)
  case (start fs p)
  then show ?case by (auto simp: NewPGPubSub_def Let_def split: if_splits)
qed (rule bus_ok_step)

section \<open>Properties\<close>

definition subscribed :: "pgPubSub \<Rightarrow> topic \<Rightarrow> chan_id \<Rightarrow> bool" where
  "subscribed p t i \<longleftrightarrow> (\<exists>ids. subscribers p t = Some ids \<and> i \<in> set ids)"

lemma bus_reachableD:
  assumes "bus_reachable p"
  shows "registry_ok p" "subs_ok p" "listener_ok p"
  using bus_reachable_ok [OF assms] by (simp_all add: bus_ok_def)

lemma serve_notification_ok:
  assumes "registry_ok p" "subs_ok p"
  shows "\<exists>p'. serve_notification w p = Next p' \<and> subscribers p' = subscribers p \<and> subs p' = subs p \<and>
    listeners p' = listeners p \<and> next_chan p' = next_chan p \<and> ended p' = ended p \<and> p_ctx p' = p_ctx p"
  using dispatch_ok [OF assms] by (cases "json_Unmarshal_message w") (simp_all add: serve_notification_def)

text \<open>C25: no interleaving of subscribers, listener, cancellations and shutdown makes the transport
  send on a closed channel or close a channel twice, which would panic.\<close>

theorem bus_never_panics:
  assumes "bus_reachable p"
  shows "bus_step ev p \<noteq> Panicked"
proof (cases ev)
  case (Unsubscribe i)
  show ?thesis
  proof (cases "\<exists>s. subs p i = Some s \<and> \<not> sub_done s")
    case True
    then obtain s where s: "subs p i = Some s" "\<not> sub_done s" by blast
    obtain p1 where "unsubscribe (sub_topic s) i p = Next p1"
      by (rule unsubscribe_ok [OF bus_reachableD(1,2) [OF assms] s])
    with s Unsubscribe show ?thesis by simp
  next
    case False
    with Unsubscribe show ?thesis by (auto split: option.split)
  qed
next
  case (Serve j)
  have frame: "registry_ok (set_listener j l p) \<and> subs_ok (set_listener j l p)" for l
    by (rule registry_frame [OF bus_reachableD(1,2) [OF assms]]) (simp_all add: set_listener_def)
  have "serve_notification w (set_listener j l p) \<noteq> Panicked" for w l
    using serve_notification_ok [of "set_listener j l p" w] frame [of l] by auto
  with Serve show ?thesis by (auto split: listener.split list.split)
qed (auto split: option.split sub_call.split listener.split if_splits prod.splits)

text \<open>A subscription lasts exactly until its context or the transport's ends and its goroutine
  has run: every channel belongs to one subscription, is open if and only if it is registered,
  under its own topic and no other, never holds more than its sixteen messages, and is closed only
  after the end of one of the two contexts.\<close>

theorem subscription_lifetime:
  assumes "bus_reachable p" and "chans p i = Some c"
  shows "\<exists>s. subs p i = Some s \<and> (ch_closed c \<longleftrightarrow> sub_done s) \<and>
    (\<forall>t. subscribed p t i = (\<not> ch_closed c \<and> t = sub_topic s)) \<and>
    length (ch_buf c) \<le> subscriberBufferSize \<and>
    (ch_closed c \<longrightarrow> ended p (sub_ctx s) \<or> p_ctx p \<noteq> None)"
proof -
  note ok = bus_reachableD [OF assms(1)]
  from subs_okD(2) [OF ok(2) assms(2)] obtain s where s: "subs p i = Some s" by blast
  have "subscribed p t i \<Longrightarrow> t = sub_topic s \<and> \<not> sub_done s" for t
    using registry_okD(3) [OF ok(1)] s unfolding subscribed_def by fastforce
  moreover have "\<not> sub_done s \<Longrightarrow> subscribed p (sub_topic s) i"
    using subs_okD(1) [OF ok(2) s] by (simp add: subscription_ok_def subscribed_def)
  ultimately show ?thesis
    using subs_okD(1) [OF ok(2) s] assms(2) s by (intro exI [of _ s]) (auto simp: subscription_ok_def)
qed

text \<open>Once the context of a subscription or of the transport has ended, the subscription's
  goroutine can run at once; it closes exactly that channel, keeps what is still in its buffer,
  and leaves every other subscription as it was.\<close>

theorem subscription_ends:
  assumes "bus_reachable p" and "subs p i = Some s" and "\<not> sub_done s"
    and "ended p (sub_ctx s) \<or> p_ctx p \<noteq> None"
  shows "\<exists>p' c. bus_step (Unsubscribe i) p = Next p' \<and> chans p i = Some c \<and>
    chans p' = (chans p)(i \<mapsto> c\<lparr>ch_closed := True\<rparr>) \<and>
    (\<forall>t k. subscribed p' t k = (subscribed p t k \<and> k \<noteq> i))"
proof -
  note ok = bus_reachableD [OF assms(1)]
  obtain ids c where reg: "subscribers p (sub_topic s) = Some ids" "chans p i = Some c"
    and un: "unsubscribe (sub_topic s) i p = Next (p\<lparr>
       subscribers := (subscribers p)(sub_topic s :=
         (if removeAll i ids = [] then None else Some (removeAll i ids))),
       chans := (chans p)(i \<mapsto> c\<lparr>ch_closed := True\<rparr>)\<rparr>)" (is "_ = Next ?p1")
    by (rule unsubscribe_ok [OF ok(1,2) assms(2,3)])
  have "i \<notin> set js" if "subscribers p t = Some js" "t \<noteq> sub_topic s" for t js
    using registry_okD(3) [OF ok(1) that(1)] assms(2) that(2) by fastforce
  moreover note removeAll_Nil_mem [of i ids]
  ultimately have "subscribed ?p1 t k = (subscribed p t k \<and> k \<noteq> i)" for t k
    using reg(1) by (auto simp: subscribed_def split: if_splits)
  with un reg(2) assms(2-4) show ?thesis
    by (auto simp: subscribed_def)
qed

text \<open>However many callers subscribe at once, one listener is started and it is started before
  the first of them returns: the list of listeners has one entry if the flag is set and none
  otherwise, and no subscription exists without it. Somebody who waits for the mutex waits for a
  caller that is dialling.\<close>

theorem one_listener:
  assumes "bus_reachable p"
  shows "length (listeners p) = (if listening p then 1 else 0) \<and>
    (\<forall>i. subs p i \<noteq> None \<longrightarrow> listening p) \<and>
    (\<forall>c. listenMu p = Some c \<longrightarrow> (\<exists>t x. sub_calls p c = Some (HoldingListenMu t x)))"
proof (intro conjI allI impI)
  note ok = bus_reachableD(3) [OF assms]
  then show "length (listeners p) = (if listening p then 1 else 0)" "subs p i \<noteq> None \<Longrightarrow> listening p" for i
    unfolding listener_ok_def by blast+
  fix c
  assume "listenMu p = Some c"
  with ok have "holds_mu (sub_calls p c)" by (simp add: listener_ok_def)
  then show "\<exists>t x. sub_calls p c = Some (HoldingListenMu t x)"
    by (cases "sub_calls p c" rule: holds_mu.cases) simp_all
qed

text \<open>A notification in the transport's own format reaches every open subscription of its topic
  that has room in its buffer, as the last message there; a full buffer drops it, and no other
  channel sees it.\<close>

theorem notification_dispatched:
  assumes "bus_reachable p" and "marshalPubSubMessage topic payload = Inr w"
  shows "\<exists>p'. serve_notification w p = Next p' \<and> subscribers p' = subscribers p \<and>
    (\<forall>i. chans p' i = (if subscribed p (to_valid_utf8 topic) i
       then map_option (offer (received topic payload)) (chans p i) else chans p i))"
proof -
  have "json_Unmarshal_message w = Some (received topic payload)"
    using assms(2) by (auto simp: marshalPubSubMessage_def Unmarshal_Marshal split: if_splits)
  then show ?thesis
    using dispatch_ok [OF bus_reachableD(1,2) [OF assms(1)], of "received topic payload"]
    by (simp add: serve_notification_def subscribed_def received_def)
qed

section \<open>Instances\<close>

lemma bus_run_reachable: "bus_reachable p \<Longrightarrow> bus_run evs p = Next p' \<Longrightarrow> bus_reachable p'"
proof (induction evs arbitrary: p)
  case (Cons ev evs)
  then show ?case by (auto split: step_result.splits intro: bus_reachable.step)
qed simp

lemma default_channel_ok: "NewPGPubSub [] = Inr (new_pgPubSub defaultNotifyChannel)"
  by (simp add: NewPGPubSub_def defaultPGPubSubOpts_def defaultNotifyChannel_def Let_def
      schemaNameRE_MatchString_def ident_char_def ident_start_def between_def)

text \<open>Two subscribers of one topic; a second one that comes while the first is dialling.\<close>

definition two_subscribers :: "bus_event list" where
  "two_subscribers = [CallSub 0 ''orders'' 7, LockListenMu 0, CallSub 1 ''orders'' 8,
     DialDone 0 (quiet_env 0), LockListenMu 1, Register 1, Register 0]"

definition two_subscribed :: pgPubSub where
  "two_subscribed = (new_pgPubSub defaultNotifyChannel)\<lparr>
     listening := True, listeners := [Serving []], next_chan := 2,
     subscribers := [''orders'' \<mapsto> [0, 1]],
     chans := [0 \<mapsto> chan_make 16, 1 \<mapsto> chan_make 16],
     subs := [0 \<mapsto> \<lparr>sub_topic = ''orders'', sub_ctx = 8, sub_done = False\<rparr>,
              1 \<mapsto> \<lparr>sub_topic = ''orders'', sub_ctx = 7, sub_done = False\<rparr>],
     sub_calls := [0 \<mapsto> SubReturned (Inr 1), 1 \<mapsto> SubReturned (Inr 0)]\<rparr>"

lemma two_subscribers_run:
  "bus_run two_subscribers (new_pgPubSub defaultNotifyChannel) = Next two_subscribed"
  by (simp add: two_subscribers_def two_subscribed_def new_pgPubSub_def Sub_check_def
      ensureListening_enter_def ensureListening_dial_def connectAndListen_def register_def Let_def
      subscriberBufferSize_def fun_upd_twist)

lemma two_subscribed_reachable: "bus_reachable two_subscribed"
  using bus_run_reachable [OF bus_reachable.start [OF default_channel_ok] two_subscribers_run] .

theorem bus_never_panics_witness:
  "bus_step (Serve 0) (two_subscribed\<lparr>ended := (\<lambda>_. False)(7 := True)\<rparr>) \<noteq> Panicked"
proof -
  have "bus_step (EndCtx 7) two_subscribed = Next (two_subscribed\<lparr>ended := (\<lambda>_. False)(7 := True)\<rparr>)"
    by (simp add: two_subscribed_def new_pgPubSub_def)
  from bus_never_panics [OF bus_reachable.step [OF two_subscribed_reachable this]] show ?thesis .
qed

theorem subscription_lifetime_witness:
  "subscribed two_subscribed ''orders'' 1 \<and> \<not> subscribed two_subscribed ''other'' 1"
proof -
  have "chans two_subscribed 1 = Some (chan_make 16)" by (simp add: two_subscribed_def)
  from subscription_lifetime [OF two_subscribed_reachable this] obtain s where
    "subs two_subscribed 1 = Some s" "\<forall>t. subscribed two_subscribed t 1 = (t = sub_topic s)"
    by auto
  moreover from this(1) have "sub_topic s = ''orders''" by (auto simp: two_subscribed_def)
  ultimately show ?thesis by simp
qed

theorem subscription_ends_witness:
  "\<exists>p'. bus_step (Unsubscribe 1) (two_subscribed\<lparr>ended := (\<lambda>_. False)(7 := True)\<rparr>) = Next p' \<and>
     \<not> subscribed p' ''orders'' 1 \<and> subscribed p' ''orders'' 0"
proof -
  let ?p = "two_subscribed\<lparr>ended := (\<lambda>_. False)(7 := True)\<rparr>"
  have "bus_step (EndCtx 7) two_subscribed = Next ?p"
    by (simp add: two_subscribed_def new_pgPubSub_def)
  from bus_reachable.step [OF two_subscribed_reachable this] have "bus_reachable ?p" .
  moreover have "subs ?p 1 = Some \<lparr>sub_topic = ''orders'', sub_ctx = 7, sub_done = False\<rparr>"
    by (simp add: two_subscribed_def)
  moreover have "subscribed ?p ''orders'' 0" by (simp add: subscribed_def two_subscribed_def)
  ultimately show ?thesis using subscription_ends [of ?p 1] by fastforce
qed

theorem one_listener_witness:
  "length (listeners two_subscribed) = 1 \<and> listening two_subscribed"
proof -
  have "subs two_subscribed 0 \<noteq> None" by (simp add: two_subscribed_def)
  with one_listener [OF two_subscribed_reachable] show ?thesis by metis
qed

theorem notification_dispatched_witness:
  "\<exists>w p'. marshalPubSubMessage ''orders'' None = Inr w \<and> serve_notification w two_subscribed = Next p' \<and>
     map_option ch_buf (chans p' 0) = Some [\<lparr>ps_Topic = ''orders'', ps_Payload = None\<rparr>]"
proof -
  have t: "to_valid_utf8 ''orders'' = ''orders''"
    by (intro to_valid_utf8_id utf8_ValidString_ascii) simp
  have sub: "subscribed two_subscribed ''orders'' 0" by (simp add: subscribed_def two_subscribed_def)
  obtain w where w: "marshalPubSubMessage ''orders'' None = Inr w"
    by (simp add: marshalPubSubMessage_def)
  from notification_dispatched [OF two_subscribed_reachable w] t sub obtain p' where
    "serve_notification w two_subscribed = Next p'"
    "chans p' 0 = map_option (offer (received ''orders'' None)) (chans two_subscribed 0)"
    by auto
  with w t show ?thesis by (auto simp: two_subscribed_def offer_def received_def)
qed

end
