(* ===== verification/Notify_Path.thy ===== *)
theory Notify_Path
  imports Notify_Bus
begin

text \<open>
  From \<open>AddMessages\<close> to the select of \<open>Subscribe\<close>: an outbox whose transport is
  \<open>pgPubSub\<close> queues one notification with the transaction that inserts, the commit publishes it
  and a rollback drops it, and once the listener has served it every open subscription of the
  topic has something to receive.
\<close>

section \<open>Notifying in the transaction\<close>

text \<open>The notification of a topic.\<close>

definition wake_text :: "topic \<Rightarrow> string" where
  "wake_text topic = json_Marshal_message \<lparr>ps_Topic = topic, ps_Payload = None\<rparr>"

definition queued :: "'x \<Rightarrow> 'x list \<Rightarrow> 'x list" where
  "queued x xs = (if x \<in> set xs then xs else xs @ [x])"

lemma queued_set [simp]: "set (queued x xs) = insert x (set xs)"
  by (auto simp: queued_def)

lemma queued_twice [simp]: "queued x (queued x xs) = queued x xs"
  by (simp add: queued_def)

lemma PubInTx_Done:
  assumes "pgPubSub_PubInTx p e topic None tx = (None, tx')"
  shows "tx' = tx\<lparr>tx_notifies := queued (p_channel p, wake_text topic) (tx_notifies tx)\<rparr>"
  using assms
  by (auto simp: pgPubSub_PubInTx_def marshalPubSubMessage_def pg_notify_def wake_text_def queued_def
      split: on_err_splits if_splits)

lemma InsertMessage_notifies:
  "tx_notifies (snd (InsertMessage e arg d)) = tx_notifies d"
  "notified (snd (InsertMessage e arg d)) = notified d"
  by (auto simp: InsertMessage_alt copy_messages_def Let_def on_err_def split: option.splits)

text \<open>What is known of a call that succeeded over this transport.\<close>

lemma AddMessages_notifies:
  assumes "AddMessages o1 e topic msgs aopts store tx = (None, store', tx')"
    and "msgs \<noteq> []" and "txPub o1 = Some (pgPubSub_PubInTx p e)"
  shows "tx_notifies tx' = queued (p_channel p, wake_text topic) (tx_notifies tx) \<and>
    notified tx' = notified tx \<and> store' = store"
proof -
  from assms obtain params where par: "insert_params topic 0 msgs = Inr params"
    by (auto simp: AddMessages_def split: if_splits sum.splits)
  obtain r tx1 where ins: "InsertMessage e params tx = (r, tx1)" by (cases "InsertMessage e params tx")
  with assms par obtain n where "r = Inr n"
    by (cases r) (auto simp: AddMessages_def split: if_splits)
  with assms par ins have pub: "pgPubSub_PubInTx p e topic None tx1 = (None, tx')" "store' = store"
    by (auto simp: AddMessages_def split: if_splits option.splits prod.splits)
  from InsertMessage_notifies [of e params tx] ins
  have "tx_notifies tx1 = tx_notifies tx" "notified tx1 = notified tx" by simp_all
  with PubInTx_Done [OF pub(1)] pub(2) show ?thesis by simp
qed


section \<open>The size of a notification\<close>

lemma length_wake_text: "length (wake_text topic) \<le> 6 * length topic + 12"
  using length_escape_body [of topic] by (simp add: wake_text_def length_envelope)

lemma PubInTx_fits:
  assumes "topic \<noteq> []" "length (wake_text topic) < notify_payload_limit" "e_outcome e AtPubInTx = Done"
  shows "pgPubSub_PubInTx p e topic None tx =
    (None, tx\<lparr>tx_notifies := queued (p_channel p, wake_text topic) (tx_notifies tx)\<rparr>)"
  using assms
  by (simp add: pgPubSub_PubInTx_def marshalPubSubMessage_def pg_notify_def queued_def
      wake_text_def [symmetric])

text \<open>The outbox's own notifications are small enough: for a topic of at most 1331 bytes,
  whatever characters it has, publishing in the transaction fails only if the database call does,
  and the text is one that PostgreSQL accepts.\<close>

theorem short_topics_fit:
  assumes "topic \<noteq> []" and "length topic \<le> 1331" and "e_outcome e AtPubInTx = Done"
  shows "pgPubSub_PubInTx p e topic None tx =
      (None, tx\<lparr>tx_notifies := queued (p_channel p, wake_text topic) (tx_notifies tx)\<rparr>) \<and>
    pg_text (wake_text topic) \<and> length (wake_text topic) < notify_payload_limit"
proof -
  have "length (wake_text topic) < notify_payload_limit"
    using length_wake_text [of topic] assms(2) by (simp add: notify_payload_limit_def)
  moreover have "pg_text (wake_text topic)" by (simp add: wake_text_def json_Marshal_pg_text)
  ultimately show ?thesis using PubInTx_fits [OF assms(1) _ assms(3)] by simp
qed

section \<open>No wake-up is lost\<close>

text \<open>A connected listener works off what waits on its connection.\<close>

lemma serve_frame:
  assumes "bus_reachable p" "listeners p = [Serving (w # q)]"
  shows "\<exists>p'. bus_step (Serve 0) p = Next p' \<and> bus_reachable p' \<and> listeners p' = [Serving q] \<and>
    subscribers p' = subscribers p \<and>
    (\<forall>t i msg. json_Unmarshal_message w = Some msg \<longrightarrow> subscribed p (ps_Topic msg) i \<longrightarrow>
       (\<exists>c. chans p' i = Some c \<and> ch_buf c \<noteq> []))"
proof -
  let ?p = "set_listener 0 (Serving q) p"
  note ok = bus_reachableD [OF assms(1)]
  have ok': "registry_ok ?p" "subs_ok ?p"
    using registry_frame [OF ok(1,2), of ?p] by (simp_all add: set_listener_def)
  from serve_notification_ok [OF ok', of w] obtain p' where
    p': "serve_notification w ?p = Next p'" "subscribers p' = subscribers ?p" "listeners p' = listeners ?p"
    by blast
  then have step: "bus_step (Serve 0) p = Next p'" by (simp add: listener_at_def assms(2))
  have "\<exists>c. chans p' i = Some c \<and> ch_buf c \<noteq> []"
    if "json_Unmarshal_message w = Some msg" "subscribed p (ps_Topic msg) i" for msg i
  proof -
    from that(2) obtain ids where ids: "subscribers ?p (ps_Topic msg) = Some ids" "i \<in> set ids"
      by (auto simp: subscribed_def set_listener_def)
    from registry_okD(3) [OF ok'(1) ids] obtain s where "subs ?p i = Some s" by blast
    from subs_okD(1) [OF ok'(2) this] obtain c where c: "chans ?p i = Some c" "ch_cap c = subscriberBufferSize"
      by (auto simp: subscription_ok_def)
    have "chans p' i = Some (offer msg c)"
      using p'(1) that(1) dispatch_ok [OF ok', of msg] ids c by (auto simp: serve_notification_def)
    with c(2) show ?thesis by (simp add: offer_not_empty subscriberBufferSize_def)
  qed
  with step p' assms show ?thesis
    by (intro exI [of _ p'])
      (auto simp: set_listener_def intro: bus_reachable.step [OF assms(1) step])
qed

lemma bus_run_append:
  "bus_run (evs @ evs') p = (case bus_run evs p of Next p' \<Rightarrow> bus_run evs' p' | r \<Rightarrow> r)"
  by (induction evs arbitrary: p) (auto split: step_result.splits)

lemma serve_all:
  assumes "bus_reachable p" "listeners p = [Serving (q @ [w])]"
    and "json_Unmarshal_message w = Some msg" "subscribed p (ps_Topic msg) i"
  shows "\<exists>p' c. bus_run (replicate (length q + 1) (Serve 0)) p = Next p' \<and> listeners p' = [Serving []] \<and>
    chans p' i = Some c \<and> ch_buf c \<noteq> []"
  using assms(1,2,4)
proof (induction q arbitrary: p)
  case Nil
  from serve_frame [OF Nil(1)] Nil(2,3) assms(3) show ?case by fastforce
next
  case (Cons v q)
  from serve_frame [OF Cons.prems(1)] Cons.prems(2) obtain p1 where
    p1: "bus_step (Serve 0) p = Next p1" "bus_reachable p1" "listeners p1 = [Serving (q @ [w])]"
    "subscribers p1 = subscribers p" by fastforce
  with Cons.prems(3) have "subscribed p1 (ps_Topic msg) i" by (simp add: subscribed_def)
  from Cons.IH [OF p1(2,3) this] p1(1) show ?case by simp
qed

text \<open>C23: no wake-up is lost while the listener is connected. When a transaction that added messages
  to a topic commits, PostgreSQL hands its notification to the listener, and the listener works
  off what it has received, then every subscription of the topic that was open has a message
  waiting, so the select of \<open>Subscribe\<close> proceeds; a buffer that was full did not need another.\<close>

theorem commit_wakes_subscribers:
  assumes "bus_reachable p" and "listeners p = [Serving q]"
    and "subscribed p topic i" and "utf8_ValidString topic"
    and "AddMessages o1 e topic msgs aopts store (begin_tx d) = (None, store', tx)"
    and "msgs \<noteq> []" and "txPub o1 = Some (pgPubSub_PubInTx p e)"
    and "e_outcome e2 AtCommit = Done"
  shows "\<exists>w p' c m c'. notified (snd (commit_tx e2 d tx)) = notified d @ [(p_channel p, w)] \<and>
    bus_run (Arrive (p_channel p) w # replicate (length q + 1) (Serve 0)) p = Next p' \<and>
    chans p' i = Some c \<and> chan_try_recv c = (Value m, c')"
proof -
  let ?w = "wake_text topic"
  let ?p = "p\<lparr>listeners := [Serving (q @ [?w])]\<rparr>"
  have "notified (snd (commit_tx e2 d tx)) = notified d @ [(p_channel p, ?w)]"
    using AddMessages_notifies [OF assms(5-7)] assms(8) by (simp add: commit_tx_def queued_def)
  moreover have arrive: "bus_step (Arrive (p_channel p) ?w) p = Next ?p" by (simp add: assms(2))
  moreover have reach: "bus_reachable ?p" by (rule bus_reachable.step [OF assms(1) arrive])
  have msg: "json_Unmarshal_message ?w = Some (received topic None)"
    by (simp add: wake_text_def Unmarshal_Marshal)
  have "subscribed ?p (ps_Topic (received topic None)) i"
    using assms(3) to_valid_utf8_id [OF assms(4)] by (simp add: subscribed_def received_def)
  from serve_all [OF reach _ msg this] obtain p' c where
    "bus_run (replicate (length q + 1) (Serve 0)) ?p = Next p'" "chans p' i = Some c" "ch_buf c \<noteq> []"
    by auto
  moreover from this(3) obtain m c' where "chan_try_recv c = (Value m, c')"
    by (auto simp: chan_try_recv_def neq_Nil_conv)
  moreover have "bus_run (Arrive (p_channel p) ?w # evs) p = bus_run evs ?p" for evs
    by (simp only: bus_run.simps arrive step_result.case)
  ultimately show ?thesis by metis
qed

section \<open>Instances\<close>

definition notifying_outbox :: "unit outboxImpl" where
  "notifying_outbox = new_outboxImpl 1 defaultOpts
     \<lparr>pubsub := Some (pg_transport two_subscribed (quiet_env 7) (empty_db ())),
      txPub := asTxPublisher (Some (pg_transport two_subscribed (quiet_env 7) (empty_db ())))\<rparr>"

lemma notifying_outbox_txPub: "txPub notifying_outbox = Some (pgPubSub_PubInTx two_subscribed (quiet_env 7))"
  by (simp add: notifying_outbox_def asTxPublisher_def pg_transport_def)

lemma notifying_AddMessages:
  "\<exists>tx'. AddMessages notifying_outbox (quiet_env 7) ''orders'' [\<lparr>Payload = ''1''\<rparr>] [] store tx =
     (None, store, tx')"
proof -
  have "copy_messages (quiet_env 7) (map (\<lambda>m. (''orders'', Payload m)) [\<lparr>Payload = ''1''\<rparr>]) tx =
      (Inr 1, snd (copy_messages (quiet_env 7) [(''orders'', ''1'')] tx))"
    by (simp add: copy_messages_def Let_def)
  moreover have "length (wake_text ''orders'') < notify_payload_limit"
    using length_wake_text [of "''orders''"] by (simp add: notify_payload_limit_def)
  ultimately show ?thesis
    using AddMessages_insert [of "''orders''" "[\<lparr>Payload = ''1''\<rparr>]" "quiet_env 7" tx 1
        "snd (copy_messages (quiet_env 7) [(''orders'', ''1'')] tx)" notifying_outbox "[]" store]
    by (simp add: notifying_outbox_txPub PubInTx_fits)
qed


theorem short_topics_fit_witness:
  "fst (pgPubSub_PubInTx two_subscribed (quiet_env 7) ''orders'' None (empty_db ())) = None \<and>
   length (wake_text ''orders'') < 8000"
  using short_topics_fit [of "''orders''" "quiet_env 7" two_subscribed "empty_db ()"]
  by (simp add: notify_payload_limit_def)

theorem commit_wakes_subscribers_witness:
  "\<exists>w p' c m c'. bus_run [Arrive defaultNotifyChannel w, Serve 0] two_subscribed = Next p' \<and>
     chans p' 1 = Some c \<and> chan_try_recv c = (Value m, c')"
proof -
  obtain tx where tx: "AddMessages notifying_outbox (quiet_env 7) ''orders'' [\<lparr>Payload = ''1''\<rparr>] []
      (\<lambda>_. []) (begin_tx (empty_db ())) = (None, \<lambda>_. [], tx)"
    using notifying_AddMessages by blast
  have "listeners two_subscribed = [Serving []]" "subscribed two_subscribed ''orders'' 1"
    "p_channel two_subscribed = defaultNotifyChannel"
    by (simp_all add: two_subscribed_def subscribed_def new_pgPubSub_def)
  moreover have "utf8_ValidString ''orders''" by (rule utf8_ValidString_ascii) simp
  ultimately obtain w p' c m c' where
    "bus_run [Arrive defaultNotifyChannel w, Serve 0] two_subscribed = Next p'"
    "chans p' 1 = Some c" "chan_try_recv c = (Value m, c')"
    using commit_wakes_subscribers [OF two_subscribed_reachable _ _ _ tx _ notifying_outbox_txPub,
        of "[]" 1 "quiet_env 7"]
    by (auto simp del: bus_run.simps)
  then show ?thesis by blast
qed

end
