(* ===== verification/Fleet.thy ===== *)
theory Fleet
  imports Outbox_Spec Subscriber Maintenance_Claims Notify_Path
begin

text \<open>
  All instances together on one database. A step of the fleet is one operation of one instance, with
  an arbitrary environment: a producer's transaction, a \<open>ProcessMessages\<close> call, an attempt to
  acquire a topic, a release, the write of a watcher, a heartbeat, a tick of the scanner, a round
  of a maintenance loop, the exit of a dormant loop, and the start of an instance. What an
  instance keeps in memory (its watchers and loops, the TTL a loop runs with) is an argument of
  the step and unconstrained, so the properties hold for every behaviour of that memory.

  The abstract specification is an outbox: a list of pending messages and the next identity, with
  four actions. Every step of the fleet is one of them, and what they promise (no message is lost,
  none is delivered twice) is proved of the actions and carried over.
\<close>

section \<open>The steps of the fleet\<close>

datatype 'a fleet_op =
    Produce "'a outboxImpl" env topic "MessageOpts list" "AddOpt list" bool
  | Process "'a outboxImpl" env topic "ProcessOpt list"
  | TryAcquire "'a outboxImpl" env topic
  | Release "'a outboxImpl" env topic watched
  | GraceExpiry "'a outboxImpl" env topic
  | Heartbeat "'a outboxImpl" env
  | Scan "'a outboxImpl" env "time option" managed
  | MaintainRound "'a outboxImpl" env topic duration
  | FinishDormant "'a outboxImpl" env topic duration
  | Start uuid "go_err option" "topic \<Rightarrow> env" env "'a PubSub OutboxOpt list"

text \<open>A producer runs \<open>AddMessages\<close> in a transaction of its own and rolls back when that fails or
  when it changes its mind.\<close>

definition produce ::
  "'a outboxImpl \<Rightarrow> env \<Rightarrow> topic \<Rightarrow> MessageOpts list \<Rightarrow> AddOpt list \<Rightarrow> bool \<Rightarrow> 'a db \<Rightarrow> 'a db" where
  "produce o1 e t msgs aopts undo d =
     (case AddMessages o1 e t msgs aopts (\<lambda>_. []) (begin_tx d) of
        (er, store, tx) \<Rightarrow> if er \<noteq> None \<or> undo then rollback d tx else snd (commit_tx e d tx))"

fun fleet_step :: "'a fleet_op \<Rightarrow> 'a db \<Rightarrow> 'a db" where
  "fleet_step (Produce o1 e t msgs aopts undo) d = produce o1 e t msgs aopts undo d"
| "fleet_step (Process o1 e t popts) d = snd (snd (ProcessMessages o1 e t popts d))"
| "fleet_step (TryAcquire o1 e t) d = snd (tryAcquireTopicLease o1 e t d)"
| "fleet_step (Release o1 e t w) d = snd (snd (ReleaseTopic o1 e t w d))"
| "fleet_step (GraceExpiry o1 e t) d = expireExclusiveLeaseAfterGrace o1 e t d"
| "fleet_step (Heartbeat o1 e) d = snd (runConsumerSessionRenewer_tick o1 e d)"
| "fleet_step (Scan o1 e lc mg) d = snd (snd (scanTopics o1 e lc mg d))"
| "fleet_step (MaintainRound o1 e t ttl) d = snd (maintenance_round o1 e t ttl d)"
| "fleet_step (FinishDormant o1 e t ttl) d = finishDormantTopic o1 e t ttl d"
| "fleet_step (Start fresh migrated es e fs) d = snd (NewOutbox fresh migrated es e fs d)"

definition fleet_run :: "'a fleet_op list \<Rightarrow> 'a db \<Rightarrow> 'a db" where
  "fleet_run ops d = fold fleet_step ops d"

lemma fleet_run_simps [simp]:
  "fleet_run [] d = d"
  "fleet_run (op1 # ops) d = fleet_run ops (fleet_step op1 d)"
  "fleet_run (ops @ ops') d = fleet_run ops' (fleet_run ops d)"
  by (simp_all add: fleet_run_def)

text \<open>What is asked of code that is not this program's: a flusher writes the application's own tables,
  a publisher queues notifications and nothing else. \<open>pgPubSub\<close> is such a publisher.\<close>

definition notifies_only :: "(topic \<Rightarrow> string option \<Rightarrow> 'a db \<Rightarrow> go_err option \<times> 'a db) \<Rightarrow> bool" where
  "notifies_only pub \<longleftrightarrow> (\<forall>t p d. \<exists>ns. snd (pub t p d) = d\<lparr>tx_notifies := ns\<rparr>)"

fun op_ok :: "'a fleet_op \<Rightarrow> bool" where
  "op_ok (Produce o1 e t msgs aopts undo) \<longleftrightarrow> (\<forall>pub. txPub o1 = Some pub \<longrightarrow> notifies_only pub)"
| "op_ok (Process o1 e t popts) \<longleftrightarrow> (\<forall>f. getFlusher o1 t = Some f \<longrightarrow> app_only f)"
| "op_ok op1 \<longleftrightarrow> True"

lemma db_same: "d = d\<lparr>tx_notifies := tx_notifies d\<rparr>"
  by simp

lemma pgPubSub_notifies_only: "notifies_only (pgPubSub_PubInTx p e)"
  unfolding notifies_only_def
proof (intro allI)
  fix t pl and d :: "'a db"
  have "pgPubSub_PubInTx p e t pl d = (er, d') \<Longrightarrow> d' = d \<or> (\<exists>ns. d' = d\<lparr>tx_notifies := ns\<rparr>)" for er d'
    by (auto simp: pgPubSub_PubInTx_def pg_notify_def split: sum.splits on_err_splits if_splits)
  then show "\<exists>ns. snd (pgPubSub_PubInTx p e t pl d) = d\<lparr>tx_notifies := ns\<rparr>"
    using db_same [of d] by (metis prod.collapse)
qed

section \<open>Steps that leave the messages alone\<close>

definition quiet_change :: "'a db \<Rightarrow> 'a db \<Rightarrow> bool" where
  "quiet_change d d' \<longleftrightarrow> messages d' = messages d \<and> messages_id_seq d' = messages_id_seq d \<and>
     (db_ok d \<longrightarrow> db_ok d') \<and> (tx_notifies d = [] \<longrightarrow> tx_notifies d' = []) \<and>
     (\<forall>t. lease_holder t d' = lease_holder t d)"

named_theorems quiet

lemma quiet_refl [quiet]: "quiet_change d d"
  by (simp add: quiet_change_def)

lemma quiet_trans: "quiet_change d d1 \<Longrightarrow> quiet_change d1 d2 \<Longrightarrow> quiet_change d d2"
  by (simp add: quiet_change_def)

lemma quiet_exec_pool [quiet]: "quiet_change d (f d) \<Longrightarrow> quiet_change d (snd (exec_pool e s f d))"
  by (simp add: exec_pool_def quiet_refl)

lemma holder_cong: "topics d' = topics d \<Longrightarrow> lease_holder t d' = lease_holder t d"
  by (simp add: lease_holder_def)

lemma quiet_statements [quiet]:
  "quiet_change d (InsertTopicIfAbsent now t x d)"
  "quiet_change d (RenewTopicExclusiveConsumer t c x d)"
  "quiet_change d (UpsertConsumerSession h y b d)"
  "quiet_change d (DeleteExpiredConsumerSessions co d)"
  "quiet_change d (ReleaseMaintenanceLease t h d)"
  "quiet_change d (snd (InsertMaintenanceLeases now ts h d))"
  "quiet_change d (snd (ClaimMaintenanceLeases lk now h ts co d))"
  by (auto simp: quiet_change_def schema_ok intro!: holder_cong)

text \<open>A step that is quiet, and then a continuation that is quiet from there on.\<close>

lemma quiet_then:
  assumes "quiet_change d (snd res)" "\<And>a d1. quiet_change d1 (snd (k a d1))"
  shows "quiet_change d (snd (case res of (a, d1) \<Rightarrow> k a d1))"
  using assms by (auto split: prod.split intro: quiet_trans)

lemma quiet_session [quiet]: "quiet_change d (snd (upsertConsumerSession o1 e d))"
  by (simp add: upsertConsumerSession_def upsertConsumerSessionIn_def quiet)

lemma quiet_expirations [quiet]: "quiet_change d (publish_expirations es xs d)"
proof (induction es xs d rule: publish_expirations.induct)
  case (2 es t ttl xs d)
  have "quiet_change d (snd (ensureTopicRow (es t) t ttl d))"
    by (simp add: ensureTopicRow_def quiet)
  with 2 show ?case by (simp add: quiet_trans)
qed (simp add: quiet)

lemma quiet_claim_result [quiet]:
  "quiet_change d (snd res) \<Longrightarrow> quiet_change d (snd (claim_result oc res d))"
  by (simp add: claim_result_def quiet)

lemma quiet_claimClassShare [quiet]: "quiet_change d (snd (claimClassShare o1 e cls class n d))"
proof -
  have won: "quiet_change d (snd (if b then claim_result oc (InsertMaintenanceLeases now ts h d) d else ([], d)))"
    for b oc now ts h
    by (simp add: quiet)
  show ?thesis
    unfolding claimClassShare_def Let_def
    by (auto intro!: quiet_then [OF won] quiet_then quiet simp: quiet)
qed

lemma quiet_claimTopics [quiet]: "quiet_change d (snd (claimTopics o1 e a b d))"
proof -
  have "quiet_change d (snd (case p of (live, maintainers) \<Rightarrow>
      let (won1, d1) = claimClassShare o1 e True a live d;
          (won2, d2) = claimClassShare o1 e False b maintainers d1
      in (won1 @ won2, d2)))" for p
    unfolding Let_def by (cases p) (auto intro!: quiet_then simp: quiet)
  then show ?thesis
    unfolding claimTopics_def Let_def by (auto simp: quiet split: on_err_split)
qed

lemma quiet_catchup: "catchup_sweep e lc d = (inc, lc1, d1) \<Longrightarrow> quiet_change d d1"
  by (auto simp: catchup_sweep_def Let_def quiet split: if_splits prod.splits)

lemma quiet_scan [quiet]: "quiet_change d (snd (snd (scanTopics o1 e lc mg d)))"
proof -
  obtain inc lc1 d1 where c: "catchup_sweep e lc d = (inc, lc1, d1)" by (metis prod_cases3)
  let ?acc = "classify_all (defaultExpiration o1) (scan_candidates o1 e inc d1)"
  have "quiet_change d1 (snd (claimTopics o1 e (sa_explicit ?acc) (sa_dflt ?acc) d1))"
    by (simp add: quiet)
  with c quiet_catchup [OF c] show ?thesis
    by (auto simp: scanTopics_def Let_def split: prod.split on_err_split intro: quiet_trans)
qed

lemma quiet_grace [quiet]:
  "quiet_change d (expireExclusiveLeaseAfterGrace o1 e t d)"
  "quiet_change d (expireLeaseIfWatcherOrphaned o1 e t b d)"
  by (simp_all add: expireExclusiveLeaseAfterGrace_def expireLeaseIfWatcherOrphaned_def quiet)

lemma quiet_release [quiet]: "quiet_change d (snd (snd (ReleaseTopic o1 e t w d)))"
proof -
  obtain b w' where w: "watcher_Stop t w = (b, w')" by fastforce
  define x where "x = exec_pool e AtReleaseTopic (RenewTopicExclusiveConsumer t (Some (instanceID o1))
      (Some (e_clock e AtReleaseTopic - second))) d"
  obtain er d1 where x1: "x = (er, d1)" by fastforce
  have "quiet_change d (snd x)" by (simp add: x_def quiet)
  with x1 have 1: "quiet_change d d1" by simp
  show ?thesis
  proof (cases er)
    case None
    with 1 x1 show ?thesis
      by (simp add: ReleaseTopic_def w x_def [symmetric] quiet_refl)
  next
    case (Some er1)
    with 1 x1 quiet_trans [OF 1 quiet_grace(2)] show ?thesis
      by (simp add: ReleaseTopic_def w x_def [symmetric] quiet_refl)
  qed
qed

lemma quiet_steps:
  "quiet_change d (fleet_step (Release o1 e t w) d)"
  "quiet_change d (fleet_step (GraceExpiry o1 e t) d)"
  "quiet_change d (fleet_step (Heartbeat o1 e) d)"
  "quiet_change d (fleet_step (Scan o1 e lc mg) d)"
  "quiet_change d (fleet_step (Start fresh migrated es e fs) d)"
proof -
  show "quiet_change d (fleet_step (Heartbeat o1 e) d)"
    using quiet_session [of d o1 e]
    by (auto simp: runConsumerSessionRenewer_tick_def split: prod.split option.split)
  show "quiet_change d (fleet_step (Start fresh migrated es e fs) d)"
    using quiet_trans [OF quiet_expirations quiet_session]
    by (auto simp: NewOutbox_def Let_def quiet split: on_err_split)
qed (simp_all add: quiet)

section \<open>The outbox in the database\<close>

definition outbox_of :: "'a db \<Rightarrow> outbox" where
  "outbox_of d = \<lparr>pending = messages d, next_id = messages_id_seq d, reserved = {}\<rparr>"

lemma outbox_of_simps [simp]:
  "pending (outbox_of d) = messages d" "next_id (outbox_of d) = messages_id_seq d" "reserved (outbox_of d) = {}"
  by (simp_all add: outbox_of_def)

text \<open>The action of a step in a state; a step that leaves the messages as they are is idle.\<close>

fun changing_action :: "'a fleet_op \<Rightarrow> 'a db \<Rightarrow> outbox_action" where
  "changing_action (Produce o1 e t msgs aopts undo) d =
     Publish t (drop (length (messages d)) (messages (produce o1 e t msgs aopts undo d)))"
| "changing_action (Process o1 e t popts) d = Deliver t (batch_of e t popts d)"
| "changing_action (MaintainRound o1 e t ttl) d = Expire t (e_clock e AtDeleteExpiredMessages - ttl)"
| "changing_action (FinishDormant o1 e t ttl) d = Expire t (e_clock e AtDeleteExpiredMessages - ttl)"
| "changing_action op1 d = Stutter"

definition fleet_action :: "'a fleet_op \<Rightarrow> 'a db \<Rightarrow> outbox_action" where
  "fleet_action op1 d =
     (let d' = fleet_step op1 d in
      if messages d' \<noteq> messages d then changing_action op1 d
      else if messages_id_seq d' = messages_id_seq d then Stutter
      else Burn (nat (messages_id_seq d' - messages_id_seq d)))"

text \<open>A step refines the outbox if it keeps the schema and the outbox has its action.\<close>

definition refines :: "'a db \<Rightarrow> outbox_action \<Rightarrow> 'a db \<Rightarrow> bool" where
  "refines d a d' \<longleftrightarrow> db_ok d' \<and> outbox_next a (outbox_of d) = Some (outbox_of d')"

lemma refines_same:
  assumes "messages (fleet_step op1 d) = messages d" "messages_id_seq d \<le> messages_id_seq (fleet_step op1 d)"
    and "db_ok (fleet_step op1 d)"
  shows "refines d (fleet_action op1 d) (fleet_step op1 d)"
  using assms by (simp add: refines_def fleet_action_def outbox_of_def Let_def)

lemma refines_quiet:
  "quiet_change d (fleet_step op1 d) \<Longrightarrow> db_ok d \<Longrightarrow> refines d (fleet_action op1 d) (fleet_step op1 d)"
  by (rule refines_same) (simp_all add: quiet_change_def)

section \<open>Every step refines the outbox\<close>

lemma refines_changing:
  assumes "messages (fleet_step op1 d) \<noteq> messages d"
    and "refines d (changing_action op1 d) (fleet_step op1 d)"
  shows "refines d (fleet_action op1 d) (fleet_step op1 d)"
  using assms by (simp add: fleet_action_def)

lemma runMaintenance_db:
  "snd (runMaintenance o1 e t ttl d) = d \<or> snd (runMaintenance o1 e t ttl d) = maintained_db o1 e t ttl d"
  by (metis prod.collapse runMaintenance_cases)

lemma MaintainRound_db:
  "snd (maintenance_round o1 e t ttl d) = d \<or>
   snd (maintenance_round o1 e t ttl d) = maintained_db o1 e t ttl d"
  using runMaintenance_db [of o1 e t ttl d]
  by (auto simp: maintenance_round_def Let_def split: sum.split)

lemma FinishDormant_db:
  obtains d1 where "d1 = d \<or> d1 = maintained_db o1 e t ttl d"
    and "finishDormantTopic o1 e t ttl d = d1 \<or>
      finishDormantTopic o1 e t ttl d = ReleaseMaintenanceLease t (instanceID o1) d1"
proof
  show "snd (runMaintenance o1 e t ttl d) = d \<or> snd (runMaintenance o1 e t ttl d) = maintained_db o1 e t ttl d"
    by (rule runMaintenance_db)
  show "finishDormantTopic o1 e t ttl d = snd (runMaintenance o1 e t ttl d) \<or>
      finishDormantTopic o1 e t ttl d =
        ReleaseMaintenanceLease t (instanceID o1) (snd (runMaintenance o1 e t ttl d))"
    by (auto simp: finishDormantTopic_def exec_pool_def split: prod.split option.split sum.split)
qed

lemma maintained_refines:
  assumes "db_ok d" "d1 = d \<or> d1 = maintained_db o1 e t ttl d"
    and "fleet_step op1 d = d1 \<or> fleet_step op1 d = ReleaseMaintenanceLease t h d1"
    and "changing_action op1 d = Expire t (e_clock e AtDeleteExpiredMessages - ttl)"
  shows "refines d (fleet_action op1 d) (fleet_step op1 d)"
proof -
  from assms(1,2) have d1: "db_ok d1" by (auto simp: schema_ok)
  with assms(3) have step: "db_ok (fleet_step op1 d)" "messages (fleet_step op1 d) = messages d1"
    "messages_id_seq (fleet_step op1 d) = messages_id_seq d1"
    by (auto simp: schema_ok)
  show ?thesis
  proof (cases "messages d1 = messages d")
    case True
    with step assms(2) show ?thesis by (intro refines_same) auto
  next
    case False
    with assms(2) have "d1 = maintained_db o1 e t ttl d" by auto
    with False step assms(4) show ?thesis
      by (intro refines_changing) (auto simp: refines_def outbox_of_def delete_where_def)
  qed
qed

section \<open>Producers\<close>

text \<open>What \<open>AddMessages\<close> leaves in its transaction: nothing, or the inserted rows, and possibly
  notifications.\<close>

lemma AddMessages_tx:
  assumes "AddMessages o1 e t msgs aopts store tx = (er, store', tx')"
    and "\<And>pub. txPub o1 = Some pub \<Longrightarrow> notifies_only pub"
  obtains "tx' = tx"
  | vs n tx1 ns where "copy_messages e vs tx = (Inr n, tx1)" "tx' = tx1\<lparr>tx_notifies := ns\<rparr>"
      "fst ` set vs \<subseteq> {t}" "vs \<noteq> []"
proof -
  have same: "\<exists>ns. tx = tx\<lparr>tx_notifies := ns\<rparr>" for tx :: "'a db"
    by (rule exI [of _ "tx_notifies tx"]) simp
  show ?thesis
  proof (cases "t = [] \<or> msgs = [] \<or> (\<exists>er. insert_params t 0 msgs = Inl er)")
    case True
    with assms(1) have "tx' = tx" by (auto simp: AddMessages_def split: if_splits)
    then show ?thesis by (rule that(1))
  next
    case False
    then obtain ps where ps: "insert_params t 0 msgs = Inr ps" by (cases "insert_params t 0 msgs") auto
    then have vs: "map (\<lambda>q. (p_Topic q, p_Payload q)) ps = map (\<lambda>m. (t, Payload m)) msgs"
      by (simp add: insert_params_Inr)
    let ?vs = "map (\<lambda>m. (t, Payload m)) msgs"
    obtain r tx1 where ins: "InsertMessage e ps tx = (r, tx1)" by fastforce
    show ?thesis
    proof (cases r)
      case (Inl x)
      with assms(1) False ps ins have "tx' = tx1" by (auto simp: AddMessages_def)
      moreover from ins Inl have "tx1 = tx"
        by (auto simp: InsertMessage_alt dest: copy_messages_Inl split: on_err_splits)
      ultimately show ?thesis using that(1) by simp
    next
      case (Inr n)
      with ins vs have copy: "copy_messages e ?vs tx = (Inr n, tx1)"
        by (auto simp: InsertMessage_alt split: on_err_splits)
      obtain ns where ns: "tx' = tx1\<lparr>tx_notifies := ns\<rparr>"
      proof (atomize_elim, cases "txPub o1")
        case None
        with assms(1) False ps ins Inr have "tx' = tx1" by (auto simp: AddMessages_def)
        with same [of tx1] show "\<exists>ns. tx' = tx1\<lparr>tx_notifies := ns\<rparr>" by simp
      next
        case (Some pub)
        obtain x tx2 where x: "pub t None tx1 = (x, tx2)" by fastforce
        with assms(1) False ps ins Inr Some have "tx' = tx2"
          by (auto simp: AddMessages_def split: option.splits)
        with assms(2) [OF Some] x show "\<exists>ns. tx' = tx1\<lparr>tx_notifies := ns\<rparr>"
          unfolding notifies_only_def by (metis snd_conv)
      qed
      show ?thesis by (rule that(2) [OF copy ns]) (use False in auto)
    qed
  qed
qed

lemma AddMessages_rows:
  assumes "AddMessages o1 e t msgs aopts store (begin_tx d) = (er, store', tx)"
    and "\<And>pub. txPub o1 = Some pub \<Longrightarrow> notifies_only pub"
  obtains (none) "tx = begin_tx d"
  | (rows) docs ns where "docs \<noteq> []" "fst ` set docs \<subseteq> {t}"
      "tx = (topics_insert_trigger_fn (e_now e AtBegin) (e_topic_locked e)
         (number_rows (messages_id_seq d) (e_now e AtBegin) docs)
         ((begin_tx d)\<lparr>messages := messages d @ number_rows (messages_id_seq d) (e_now e AtBegin) docs,
            messages_id_seq := messages_id_seq d + int (length docs)\<rparr>))\<lparr>tx_notifies := ns\<rparr>"
proof (cases rule: AddMessages_tx [OF assms])
  case 2
  then show ?thesis by (rule none)
next
  case (3 vs n tx1 ns)
  from copy_messages_Inr [OF 3(1)] obtain docs where
    len: "map (e_jsonb e \<circ> snd) vs = map Some docs" and
    tx1: "tx1 = topics_insert_trigger_fn (e_now e AtBegin) (e_topic_locked e)
      (number_rows (messages_id_seq d) (e_now e AtBegin) (zip (map fst vs) docs))
      ((begin_tx d)\<lparr>messages := messages d @
           number_rows (messages_id_seq d) (e_now e AtBegin) (zip (map fst vs) docs),
         messages_id_seq := messages_id_seq d + int (length vs)\<rparr>)"
    by auto
  have n: "length docs = length vs" using arg_cong [OF len, of length] by simp
  let ?docs = "zip (map fst vs) docs"
  have "fst ` set ?docs \<subseteq> {t}" using 3(3) by (fastforce dest: set_zip_leftD)
  moreover have "?docs \<noteq> []" using n 3(4) by (cases vs; cases docs) auto
  ultimately show ?thesis using 3(2) tx1 n by (intro rows [of ?docs ns]) simp_all
qed simp

lemma Produce_cases:
  assumes "op_ok (Produce o1 e t msgs aopts undo)" and "db_ok d"
  defines "d' \<equiv> produce o1 e t msgs aopts undo d"
  obtains (same) "messages d' = messages d" "messages_id_seq d \<le> messages_id_seq d'" "db_ok d'"
      "topics d' = topics d" "maintenance_leases d' = maintenance_leases d"
  | (inserted) docs where "docs \<noteq> []" "db_ok d'" "fst ` set docs \<subseteq> {t}"
      "messages d' = messages d @ number_rows (messages_id_seq d) (e_now e AtBegin) docs"
      "messages_id_seq d' = messages_id_seq d + int (length docs)"
      "topics d' = topics (topics_insert_trigger_fn (e_now e AtBegin) (e_topic_locked e)
         (number_rows (messages_id_seq d) (e_now e AtBegin) docs) d)"
      "maintenance_leases d' = maintenance_leases d"
proof -
  obtain er store tx where add: "AddMessages o1 e t msgs aopts (\<lambda>_. []) (begin_tx d) = (er, store, tx)"
    by (metis prod_cases3)
  then have d': "d' = rollback d tx \<or> d' = commit_db tx"
    by (auto simp: d'_def produce_def commit_tx_def)
  have pub: "txPub o1 = Some pub \<Longrightarrow> notifies_only pub" for pub using assms(1) by simp
  show ?thesis
  proof (cases rule: AddMessages_rows [OF add pub])
    case 2
    with d' \<open>db_ok d\<close> show ?thesis by (intro same) auto
  next
    case (3 docs ns)
    have ok: "db_ok tx"
      using db_ok_insert_rows [of "begin_tx d" "e_now e AtBegin" "e_topic_locked e" docs] \<open>db_ok d\<close>
      by (simp add: 3(3))
    from d' show ?thesis
    proof
      assume "d' = rollback d tx"
      with 3(3) \<open>db_ok d\<close> show ?thesis by (intro same) (auto intro!: db_ok_rollback)
    next
      assume c: "d' = commit_db tx"
      then show ?thesis
        using ok 3 by (intro inserted [of docs]) (auto simp: topics_insert_trigger_fn_def Let_def)
    qed
  qed simp
qed

lemma Produce_refines:
  assumes "op_ok (Produce o1 e t msgs aopts undo)" "db_ok d"
  defines "op1 \<equiv> Produce o1 e t msgs aopts undo"
  shows "refines d (fleet_action op1 d) (fleet_step op1 d)"
proof (cases rule: Produce_cases [OF assms(1,2)])
  case 1
  then show ?thesis by (intro refines_same) (simp_all add: op1_def)
next
  case (2 docs)
  let ?rows = "number_rows (messages_id_seq d) (e_now e AtBegin) docs"
  have "list_all (\<lambda>m. m_Topic m = t) ?rows"
    using arg_cong [OF number_rows_fields(1) [of "messages_id_seq d" "e_now e AtBegin" docs], of set] 2(3)
    by (auto simp: list_all_iff)
  moreover have "?rows \<noteq> []" using 2(1) by (metis length_0_conv number_rows_length)
  ultimately show ?thesis
    using 2 by (intro refines_changing) (simp_all add: refines_def op1_def outbox_of_def number_rows_ids)
qed

section \<open>Consumers\<close>

lemma Process_cases:
  assumes "op_ok (Process o1 e t popts)" "db_ok d"
  defines "d' \<equiv> fleet_step (Process o1 e t popts) d"
  obtains (same) "d' = d \<or> d' = commit_db (begin_tx d)"
  | (delivered) f a where "getFlusher o1 t = Some f" "batch_of e t popts d \<noteq> []"
      "f (batch_of e t popts d) (begin_tx d) = (None, (begin_tx d)\<lparr>app := a\<rparr>)"
      "checkExclusiveAccessForUpdate o1 e t d = None"
      "d' = flushed_db e t (batch_of e t popts d) ((begin_tx d)\<lparr>app := a\<rparr>)"
proof -
  obtain r fl d1 where pm: "ProcessMessages o1 e t popts d = (r, fl, d1)" by (metis prod_cases3)
  then have d1: "d' = d1" by (simp add: d'_def)
  have flu: "\<exists>a. tx1 = (begin_tx d)\<lparr>app := a\<rparr>"
    if "getFlusher o1 t = Some f" "f b (begin_tx d) = (er, tx1)" for f b er tx1
    using that assms(1) by (auto dest: app_onlyD)
  show ?thesis
  proof (cases rule: ProcessMessages_cases [OF pm])
    case (1 er)
    with d1 same show ?thesis by simp
  next
    case 2
    with d1 same show ?thesis by auto
  next
    case (3 er f er' tx1)
    from flu [OF 3(2,5)] obtain a where "tx1 = (begin_tx d)\<lparr>app := a\<rparr>" by blast
    with 3(6) d1 show ?thesis by (intro same) simp
  next
    case (4 f tx1)
    from flu [OF 4(1,3)] obtain a where "tx1 = (begin_tx d)\<lparr>app := a\<rparr>" by blast
    with 4 d1 show ?thesis by (intro delivered [of f a]) simp_all
  qed
qed

text \<open>Deleting by topic and identity takes exactly the batch.\<close>

lemma delete_batch:
  assumes "db_ok d" "\<And>b. b \<in> set ms \<Longrightarrow> m_Topic b = t \<and> b \<in> set (messages d)"
  shows "delete_where (\<lambda>m. m_Topic m = t \<and> m_ID m \<in> m_ID ` set ms) (messages d) =
    filter (\<lambda>m. m \<notin> set ms) (messages d)"
  unfolding delete_where_def
proof (rule filter_cong [OF refl])
  fix m assume "m \<in> set (messages d)"
  then have "b \<in> set ms \<Longrightarrow> m_ID m = m_ID b \<Longrightarrow> m = b" for b
    using message_unique [OF assms(1)] assms(2) by blast
  then show "(\<not> (m_Topic m = t \<and> m_ID m \<in> m_ID ` set ms)) = (m \<notin> set ms)"
    by (auto dest: assms(2))
qed

lemma delivered_rest:
  assumes "db_ok d"
  shows "delete_where (\<lambda>m. m_Topic m = t \<and> m_ID m \<in> m_ID ` set (batch_of e t popts d)) (messages d) =
    filter (\<lambda>m. m \<notin> set (batch_of e t popts d)) (messages d)"
  by (rule delete_batch [OF assms]) (auto dest: batch_of_mem)

lemma Process_refines:
  assumes "op_ok (Process o1 e t popts)" "db_ok d"
  defines "op1 \<equiv> Process o1 e t popts"
  shows "refines d (fleet_action op1 d) (fleet_step op1 d)"
proof (cases rule: Process_cases [OF assms(1,2)])
  case 1
  with assms(2) show ?thesis unfolding op1_def by (intro refines_same) auto
next
  case (2 f a)
  let ?b = "batch_of e t popts d"
  have b: "list_all (\<lambda>m. m_Topic m = t \<and> m \<in> set (messages d)) ?b"
    by (auto simp: list_all_iff dest: batch_of_mem)
  have "sorted_wrt (<) (map m_ID ?b)"
    using AcquireMessagesByTopic_strict [OF assms(2)] by (simp add: batch_of_def)
  moreover obtain m where "m \<in> set ?b" using 2(2) by (cases ?b) auto
  with b have "m \<in> set (messages d)" by (auto simp: list_all_iff)
  with \<open>m \<in> set ?b\<close> have "filter (\<lambda>m. m \<notin> set ?b) (messages d) \<noteq> messages d"
    by (metis (mono_tags, lifting) filter_id_conv)
  ultimately show ?thesis
    using b 2(2,5) assms(2) unfolding op1_def
    by (intro refines_changing) (simp_all add: refines_def outbox_of_def delivered_rest schema_ok)
qed

section \<open>All steps\<close>

lemma lease_contended_quiet: "quiet_change d (snd (tryAcquireTopicLease o1 e t d)) \<or>
    \<not> lease_contended o1 e t d \<and> snd (tryAcquireTopicLease o1 e t d) = acquired_db o1 e t d"
proof (cases rule: tryAcquire_cases [OF prod.collapse [symmetric], of o1 e t d])
qed (simp_all add: quiet_refl)

lemma step_refines:
  assumes "op_ok op1" "db_ok d"
  shows "refines d (fleet_action op1 d) (fleet_step op1 d)"
proof (cases op1)
  case (Produce o1 e t msgs aopts undo)
  show ?thesis unfolding Produce by (rule Produce_refines) (use assms Produce in simp_all)
next
  case (Process o1 e t popts)
  show ?thesis unfolding Process by (rule Process_refines) (use assms Process in simp_all)
next
  case (TryAcquire o1 e t)
  show ?thesis
    using lease_contended_quiet [of d o1 e t] refines_quiet [of d op1] refines_same [of op1 d] assms(2)
    by (auto simp: TryAcquire schema_ok)
next
  case (MaintainRound o1 e t ttl)
  with maintained_refines [OF assms(2) MaintainRound_db, of op1 o1 e t ttl] show ?thesis by simp
next
  case (FinishDormant o1 e t ttl)
  then show ?thesis
    using FinishDormant_db [of d o1 e t ttl] maintained_refines [OF assms(2)]
    by (metis changing_action.simps(4) fleet_step.simps(9))
qed (use assms(2) in \<open>auto intro!: refines_quiet quiet_steps simp del: fleet_step.simps\<close>)

lemma lease_trigger: "lease_holder t (topics_insert_trigger_fn now lk ins d) = lease_holder t d"
  by (simp add: lease_holder_def trigger_find_topic split: option.split)

text \<open>Only an attempt that finds the lease lapsed changes who holds it.\<close>

lemma step_holder:
  assumes "op_ok op1" "db_ok d"
  shows "lease_holder t (fleet_step op1 d) = lease_holder t d \<or>
    (\<exists>o1 e. op1 = TryAcquire o1 e t \<and> \<not> lease_contended o1 e t d \<and>
       lease_holder t (fleet_step op1 d) = Some (instanceID o1))"
proof (cases op1)
  case (Produce o1 e u msgs aopts undo)
  with assms have ok: "op_ok (Produce o1 e u msgs aopts undo)" by simp
  show ?thesis
    by (cases rule: Produce_cases [OF ok assms(2)])
      (simp_all add: Produce holder_cong [of "produce o1 e u msgs aopts undo d"] lease_trigger)
next
  case (Process o1 e u popts)
  with assms have ok: "op_ok (Process o1 e u popts)" by simp
  show ?thesis
    by (cases rule: Process_cases [OF ok assms(2)]) (auto simp: Process)
next
  case (TryAcquire o1 e u)
  then show ?thesis
    using lease_contended_quiet [of d o1 e u] by (cases "t = u") (auto simp: quiet_change_def)
next
  case (MaintainRound o1 e u ttl)
  then show ?thesis
    using MaintainRound_db [of o1 e u ttl d] by (auto intro!: holder_cong)
next
  case (FinishDormant o1 e u ttl)
  obtain d1 where "d1 = d \<or> d1 = maintained_db o1 e u ttl d" "fleet_step op1 d = d1 \<or>
      fleet_step op1 d = ReleaseMaintenanceLease u (instanceID o1) d1"
    by (rule FinishDormant_db [of d o1 e u ttl]) (simp add: FinishDormant)
  then have "topics (fleet_step op1 d) = topics d" by auto
  then show ?thesis using holder_cong by blast
qed (use quiet_steps [of d] in \<open>auto simp: quiet_change_def simp del: fleet_step.simps\<close>)

end
