(* ===== verification/Fleet_Runs.thy ===== *)
theory Fleet_Runs
  imports Fleet
begin

text \<open>
  Runs of the fleet: the interpretations of the two contracts, of the abstract outbox
  (\<open>outbox_refinement\<close>) and of leases in a system (\<open>lease_system\<close>), on the steps of the fleet, and
  what holds of every run.
\<close>

section \<open>The contracts\<close>

text \<open>What a run publishes, delivers and expires, read off the actions of its steps.\<close>

definition published :: "'a fleet_op list \<Rightarrow> 'a db \<Rightarrow> Message list" where
  "published = run_published fleet_step fleet_action"

definition delivered :: "'a fleet_op list \<Rightarrow> 'a db \<Rightarrow> Message list" where
  "delivered = run_delivered fleet_step fleet_action"

definition expired :: "'a fleet_op list \<Rightarrow> 'a db \<Rightarrow> Message list" where
  "expired = run_expired fleet_step fleet_action outbox_of"

interpretation fleet: outbox_refinement fleet_step op_ok db_ok outbox_of fleet_action
proof unfold_locales
  fix op1 :: "'a fleet_op" and d :: "'a db"
  assume "op_ok op1" "db_ok d"
  then show "db_ok (fleet_step op1 d)"
    "outbox_next (fleet_action op1 d) (outbox_of d) = Some (outbox_of (fleet_step op1 d))"
    using step_refines [of op1 d] by (simp_all add: refines_def)
next
  fix d :: "'a db" and m
  assume "db_ok d"
  then show "distinct (map m_ID (pending (outbox_of d)))"
    "m \<in> set (pending (outbox_of d)) \<Longrightarrow> m_ID m < next_id (outbox_of d)"
    "i \<in> reserved (outbox_of d) \<Longrightarrow> i < next_id (outbox_of d) \<and> i \<notin> m_ID ` set (pending (outbox_of d))" for i
    using db_okD(4,5) by simp_all
qed

text \<open>An attempt, as the contract of leases sees a step.\<close>

fun fleet_attempt :: "'a fleet_op \<Rightarrow> ('a outboxImpl \<times> env \<times> topic) option" where
  "fleet_attempt (TryAcquire o1 e t) = Some (o1, e, t)"
| "fleet_attempt op1 = None"

lemma fleet_attempt_Some [simp]: "fleet_attempt op1 = Some (o1, e, t) \<longleftrightarrow> op1 = TryAcquire o1 e t"
  by (cases op1) auto

interpretation fleet_lease: lease_system "instanceID :: 'a outboxImpl \<Rightarrow> uuid" lease_holder live_for
  attempt_lease fleet_step op_ok db_ok fleet_attempt
proof unfold_locales
  fix op1 :: "'a fleet_op" and d :: "'a db" and o1 e t
  show "fleet_attempt op1 = Some (o1, e, t) \<Longrightarrow> fleet_step op1 d = snd (attempt_lease o1 e t d)"
    by (simp add: attempt_lease_def case_prod_unfold Let_def)
  assume "op_ok op1" "db_ok d"
  then show "fleet_attempt op1 = None \<Longrightarrow> lease_holder t (fleet_step op1 d) = lease_holder t d"
    using step_holder [of op1 d t] by auto
qed (rule fleet.inv_step)

text \<open>The steps of a run, each with the database it starts from.\<close>

fun fleet_trace :: "'a fleet_op list \<Rightarrow> 'a db \<Rightarrow> ('a fleet_op \<times> 'a db) list" where
  "fleet_trace [] d = []"
| "fleet_trace (op1 # ops) d = (op1, d) # fleet_trace ops (fleet_step op1 d)"

lemma trace_ok:
  "(op1, d1) \<in> set (fleet_trace ops d) \<Longrightarrow> list_all op_ok ops \<Longrightarrow> db_ok d \<Longrightarrow> op_ok op1 \<and> db_ok d1"
proof (induction ops arbitrary: d)
  case (Cons op2 ops)
  then have "db_ok (fleet_step op2 d)" using step_refines [of op2 d] by (simp add: refines_def)
  with Cons show ?case by auto
qed simp

lemma fleet_action_Deliver:
  "fleet_action op1 d = Deliver t ms \<longleftrightarrow>
     (\<exists>o1 e popts. op1 = Process o1 e t popts \<and> ms = batch_of e t popts d) \<and>
     messages (fleet_step op1 d) \<noteq> messages d"
  by (cases op1) (auto simp: fleet_action_def Let_def)

section \<open>Properties\<close>

text \<open>
  C28: The schema's promises are a type of the whole system: from a database that has them, every
  run of the fleet, with whatever failures, clocks, lost commit answers and locked rows, leads
  to databases with distinct keys, identities below the sequence, and a row for every topic
  that has messages.
\<close>

theorem fleet_schema:
  assumes "list_all op_ok ops" "db_ok d"
  shows "db_ok (fleet_run ops d)"
  unfolding fleet_run_def using assms by (rule fleet.run_inv)

text \<open>
  C12: The program refines the abstract outbox: every step of every instance is, on the messages and
  the sequence, an enabled action of it: nothing, identities spent by a rollback, a batch of
  one topic published under consecutive fresh identities, a non-empty batch of pending messages
  of one topic delivered in identity order, or the expired messages of one topic dropped.
\<close>

theorem fleet_refines_outbox:
  assumes "op_ok op1" "db_ok d"
  shows "outbox_next (fleet_action op1 d) (outbox_of d) = Some (outbox_of (fleet_step op1 d))"
  using assms by (rule fleet.refines_step)

text \<open>
  C3: No message is lost and none appears from nowhere: over every run, the stored messages and
  those published in the run are, as multisets, those still stored, those delivered and those
  expired.
\<close>

theorem fleet_conserves_messages:
  assumes "list_all op_ok ops" "db_ok d"
  shows "mset (messages d) + mset (published ops d) =
    mset (messages (fleet_run ops d)) + mset (delivered ops d) + mset (expired ops d)"
  using fleet.run_conserves [OF assms]
  by (simp add: fleet_run_def published_def delivered_def expired_def)


text \<open>
  C9: Every delivery of a run was made by a \<open>ProcessMessages\<close> call whose flusher was handed
  exactly the delivered batch and succeeded, whose writes to the application's tables were
  committed with it, and whose instance, where the topic was exclusive, held the lease, live on
  its own clock.
\<close>

theorem fleet_deliveries_flushed:
  assumes "list_all op_ok ops" "db_ok d"
    and "(op1, d1) \<in> set (fleet_trace ops d)" "fleet_action op1 d1 = Deliver t ms"
  shows "\<exists>o1 e popts f a. op1 = Process o1 e t popts \<and> getFlusher o1 t = Some f \<and>
    f ms (begin_tx d1) = (None, (begin_tx d1)\<lparr>app := a\<rparr>) \<and> app (fleet_step op1 d1) = a \<and>
    (\<forall>c. lease_holder t d1 = Some c \<longrightarrow>
       c = instanceID o1 \<and> valid_after (lease_expiry t d1) (e_clock e AtLeaseCheck))"
proof -
  from assms(4) obtain o1 e popts where op1: "op1 = Process o1 e t popts" "ms = batch_of e t popts d1"
    and changed: "messages (fleet_step op1 d1) \<noteq> messages d1"
    by (auto simp: fleet_action_Deliver)
  have ok: "op_ok (Process o1 e t popts)" "db_ok d1"
    using trace_ok [OF assms(3,1,2)] op1(1) by auto
  show ?thesis
  proof (cases rule: Process_cases [OF ok])
    case 1
    with changed op1 show ?thesis by auto
  next
    case (2 f a)
    from 2(4) have "c = instanceID o1 \<and> valid_after (lease_expiry t d1) (e_clock e AtLeaseCheck)"
      if "lease_holder t d1 = Some c" for c
      using that by (auto simp: check_alt split: option.splits if_splits)
    with 2 op1 show ?thesis by (intro exI [of _ o1] exI [of _ e] exI [of _ popts] exI [of _ f] exI [of _ a]) simp
  qed
qed

text \<open>
  C11: Over every run of the fleet an exclusive topic stays exclusive, and if its holder has changed
  then the first change was an attempt of another instance at a moment when the lease had lapsed
  on that instance's clock: no producer, consumer, release, heartbeat, scan, maintenance or
  start of an instance ever takes a lease away.
\<close>

theorem fleet_handover:
  assumes "list_all op_ok ops" "db_ok d" "lease_holder t d = Some c"
  shows "lease_holder t (fleet_run ops d) \<noteq> None \<and>
    (lease_holder t (fleet_run ops d) = Some c \<or>
      (\<exists>ops1 o1 e ops2. ops = ops1 @ TryAcquire o1 e t # ops2 \<and> instanceID o1 \<noteq> c \<and>
         lease_holder t (fleet_run ops1 d) = Some c \<and>
         \<not> valid_after (lease_expiry t (fleet_run ops1 d)) (e_clock e AtLeaseCheck)))"
  using fleet_lease.system_handover [OF assms]
  by (simp add: fleet_run_def [symmetric] live_for_def) blast

section \<open>Witnesses\<close>

text \<open>Instance 1 delivers one of the sample messages, instance 2 acquires another topic.\<close>

definition sample_process_op :: "unit fleet_op" where
  "sample_process_op = Process (sample_consumer 1) (quiet_env 50) ''b'' [WithBatchSize 1]"

definition sample_run :: "unit fleet_op list" where
  "sample_run = [sample_process_op, TryAcquire (sample_outbox 2) (quiet_env 60) ''a'']"

lemma sample_ok [simp]: "op_ok sample_process_op" "list_all op_ok sample_run"
  by (auto simp: sample_process_op_def sample_run_def app_only_NopFlusher)

lemma sample_batch_ne: "batch_of (quiet_env 50) ''b'' [WithBatchSize 1] sample_db \<noteq> []"
  using sample_batch [of 50] by auto

lemma sample_step:
  "fleet_step sample_process_op sample_db = flushed_db (quiet_env 50) ''b''
     (batch_of (quiet_env 50) ''b'' [WithBatchSize 1] sample_db) (begin_tx sample_db)"
  by (simp add: sample_process_op_def sample_process sample_batch_ne)

lemma sample_messages:
  "messages (fleet_step sample_process_op sample_db) = [sample_message 3 ''b'' 30, sample_message 1 ''a'' 10]"
proof -
  have "m_ID ` set (batch_of (quiet_env 50) ''b'' [WithBatchSize 1] sample_db) = {2}"
    using sample_batch [of 50] by (metis list.set(1,2) set_map)
  then have "messages (fleet_step sample_process_op sample_db) =
      delete_where (\<lambda>m. m_Topic m = ''b'' \<and> m_ID m \<in> {2}) (messages sample_db)"
    by (simp add: sample_step)
  then show ?thesis by (simp add: delete_where_def sample_db_def sample_message_def)
qed

lemma sample_action:
  "fleet_action sample_process_op sample_db =
     Deliver ''b'' (batch_of (quiet_env 50) ''b'' [WithBatchSize 1] sample_db)"
proof -
  have "messages (fleet_step sample_process_op sample_db) \<noteq> messages sample_db"
    unfolding sample_messages by (simp add: sample_db_def)
  then show ?thesis
    by (simp add: fleet_action_Deliver) (auto simp: sample_process_op_def)
qed

lemma sample_acquire:
  "messages (fleet_step (TryAcquire (sample_outbox 2) (quiet_env 60) ''a'') d) = messages d"
  "messages_id_seq (fleet_step (TryAcquire (sample_outbox 2) (quiet_env 60) ''a'') d) = messages_id_seq d"
  using lease_contended_quiet [of d "sample_outbox 2" "quiet_env 60" "''a''"]
  by (auto simp: quiet_change_def)

lemma sample_delivered: "map m_ID (delivered sample_run sample_db) = [2]"
  using sample_batch [of 50]
  by (simp add: delivered_def sample_run_def sample_action fleet_action_def [of "TryAcquire _ _ _"] sample_acquire
      del: fleet_step.simps)

theorem fleet_schema_witness: "db_ok (fleet_run sample_run sample_db)"
  by (rule fleet_schema [OF sample_ok(2) db_ok_sample])

theorem fleet_refines_outbox_witness:
  "map m_ID (messages sample_db) = [3, 1, 2] \<and>
   outbox_next (fleet_action sample_process_op sample_db) (outbox_of sample_db) =
     Some \<lparr>pending = [sample_message 3 ''b'' 30, sample_message 1 ''a'' 10], next_id = 4, reserved = {}\<rparr>"
proof -
  have "messages_id_seq (fleet_step sample_process_op sample_db) = 4"
    unfolding sample_step by (simp add: sample_db_def)
  then have "outbox_of (fleet_step sample_process_op sample_db) =
      \<lparr>pending = [sample_message 3 ''b'' 30, sample_message 1 ''a'' 10], next_id = 4, reserved = {}\<rparr>"
    by (simp add: outbox_of_def sample_messages)
  with fleet_refines_outbox [OF sample_ok(1) db_ok_sample] show ?thesis
    by simp (simp add: sample_db_def sample_message_def)
qed

theorem fleet_conserves_messages_witness:
  "size (mset (messages (fleet_run sample_run sample_db))) + size (mset (expired sample_run sample_db)) =
     2 + size (mset (published sample_run sample_db))"
proof -
  have "length (delivered sample_run sample_db) = 1"
    using arg_cong [OF sample_delivered, of length] by simp
  moreover have "size (mset (messages sample_db)) = 3" by (simp add: sample_db_def)
  ultimately show ?thesis
    using arg_cong [OF fleet_conserves_messages [OF sample_ok(2) db_ok_sample], of size] by simp
qed


theorem fleet_deliveries_flushed_witness:
  "\<exists>ms o1 e popts. fleet_action sample_process_op sample_db = Deliver ''b'' ms \<and> map m_ID ms = [2] \<and>
     sample_process_op = Process o1 e ''b'' popts \<and> getFlusher o1 ''b'' = Some NopFlusher_Flush"
proof -
  have "(sample_process_op, sample_db) \<in> set (fleet_trace sample_run sample_db)"
    by (simp add: sample_run_def)
  from fleet_deliveries_flushed [OF sample_ok(2) db_ok_sample this sample_action]
  obtain o1 e popts f where "sample_process_op = Process o1 e ''b'' popts" "getFlusher o1 ''b'' = Some f"
    by blast
  moreover from this have "f = NopFlusher_Flush" by (auto simp: sample_process_op_def)
  ultimately show ?thesis
    using sample_action sample_batch [of 50]
    by (intro exI [of _ "batch_of (quiet_env 50) ''b'' [WithBatchSize 1] sample_db"] exI [of _ o1]
        exI [of _ e] exI [of _ popts]) simp
qed

theorem fleet_handover_witness:
  "\<exists>ops1 o1 e ops2. map (\<lambda>(o1, e, t). TryAcquire o1 e t) sample_attempts = ops1 @ TryAcquire o1 e ''a'' # ops2 \<and>
     instanceID o1 \<noteq> 1 \<and> lease_holder ''a'' (fleet_run ops1 held_db) = Some 1 \<and>
     \<not> valid_after (lease_expiry ''a'' (fleet_run ops1 held_db)) (e_clock e AtLeaseCheck)"
proof -
  let ?ops = "map (\<lambda>(o1, e, t). TryAcquire o1 e t) sample_attempts"
  have "fleet_run ?ops held_db = acquired_db (sample_outbox 2) (quiet_env (30 * second)) ''a'' held_db"
    by (simp add: sample_attempts_def tryAcquire_no_faults lease_contended_def)
  then have "lease_holder ''a'' (fleet_run ?ops held_db) = Some 2" by (simp add: sample_outbox_def new_outboxImpl_def)
  moreover have "list_all op_ok ?ops" by (simp add: sample_attempts_def)
  moreover have "db_ok held_db" by (simp add: held_db_def schema_ok)
  ultimately show ?thesis using fleet_handover [of ?ops held_db "''a''" 1] by auto
qed

end
