(* ===== verification/Background_Loops.thy ===== *)
theory Background_Loops
  imports Fleet_Runs
begin

text \<open>
  The two loops that \<open>NewOutbox\<close> starts and that run until its context ends (\<open>outbox.go\<close>):
  \<open>runTopicScanner\<close> and \<open>runConsumerSessionRenewer\<close>. As with the other loops, a run follows a
  script of rounds with what happened elsewhere in between; a script that runs out is a loop that
  has not returned. Their ticks are defined with the components they belong to.
\<close>

section \<open>\<open>runTopicScanner\<close>\<close>

text \<open>\<open>sr_others\<close> is the time between two ticks: loops of this instance that exit, and everything
  other transactions do.\<close>

record 'a scan_round =
  sr_ctx_ended :: bool
  sr_env :: env
  sr_woke :: bool
  sr_others :: "managed \<times> 'a db \<Rightarrow> managed \<times> 'a db"

fun runTopicScanner ::
  "'a outboxImpl \<Rightarrow> 'a scan_round list \<Rightarrow> time option \<Rightarrow> managed \<Rightarrow> 'a db \<Rightarrow> (managed \<times> 'a db) option" where
  "runTopicScanner o1 [] lastCatchup mg d = None"
| "runTopicScanner o1 (r # rs) lastCatchup mg d =
     (if sr_ctx_ended r then Some (mg, d)
      else (case scanTopics o1 (sr_env r) lastCatchup mg d of
              (lastCatchup1, mg1, d1) \<Rightarrow>
                if \<not> sr_woke r then Some (mg1, d1)
                else (case sr_others r (mg1, d1) of
                        (mg2, d2) \<Rightarrow> runTopicScanner o1 rs lastCatchup1 mg2 d2)))"

text \<open>The ticks of a run, each with its environment, the time of the last sweep and the database it
  found.\<close>

fun scanner_ticks ::
  "'a outboxImpl \<Rightarrow> 'a scan_round list \<Rightarrow> time option \<Rightarrow> managed \<Rightarrow> 'a db \<Rightarrow> (env \<times> time option \<times> 'a db) list" where
  "scanner_ticks o1 [] lastCatchup mg d = []"
| "scanner_ticks o1 (r # rs) lastCatchup mg d =
     (if sr_ctx_ended r then []
      else (sr_env r, lastCatchup, d) #
        (case scanTopics o1 (sr_env r) lastCatchup mg d of
           (lastCatchup1, mg1, d1) \<Rightarrow>
             if \<not> sr_woke r then []
             else (case sr_others r (mg1, d1) of
                     (mg2, d2) \<Rightarrow> scanner_ticks o1 rs lastCatchup1 mg2 d2)))"

definition keeps_schema :: "'a scan_round \<Rightarrow> bool" where
  "keeps_schema r \<longleftrightarrow> (\<forall>x. db_ok (snd x) \<longrightarrow> db_ok (snd (sr_others r x)))"

text \<open>The time of the last sweep is the clock of an earlier tick of the run whose sweep succeeded.\<close>

lemma scan_lastCatchup:
  assumes "scanTopics o1 e lc mg d = (lc1, mg1, d1)"
  shows "lc1 = lc \<or> lc1 = Some (e_clock e AtGetTopicsWithMessages) \<and> e_outcome e AtGetTopicsWithMessages = Done"
  using assms by (auto simp: scanTopics_def catchup_sweep_def Let_def split: if_splits prod.splits on_err_splits)

lemma scan_db_ok: "scanTopics o1 e lc mg d = (lc1, mg1, d1) \<Longrightarrow> db_ok d \<Longrightarrow> db_ok d1"
  using quiet_scan [of d o1 e lc mg] by (simp add: quiet_change_def)

lemma scanner_ticks_inv:
  assumes "scanner_ticks o1 rs lc0 mg d = ts1 @ (e, lc, d1) # ts2" "db_ok d" "list_all keeps_schema rs"
  shows "db_ok d1 \<and> (lc = lc0 \<or> (\<exists>e0 lc' d0. (e0, lc', d0) \<in> set ts1 \<and>
    e_outcome e0 AtGetTopicsWithMessages = Done \<and> lc = Some (e_clock e0 AtGetTopicsWithMessages)))"
  using assms
proof (induction rs arbitrary: lc0 mg d ts1)
  case (Cons r rs)
  obtain lc1 mg1 d2 where s: "scanTopics o1 (sr_env r) lc0 mg d = (lc1, mg1, d2)" by (metis prod_cases3)
  obtain mg2 d3 where o: "sr_others r (mg1, d2) = (mg2, d3)" by fastforce
  have d3: "db_ok d3"
    using Cons.prems scan_db_ok [OF s] o by (auto simp: keeps_schema_def) (metis snd_conv)
  show ?case
  proof (cases ts1)
    case Nil
    with Cons.prems s o show ?thesis by (auto split: if_splits)
  next
    case (Cons x ts)
    with Cons.prems(1) s o have x: "x = (sr_env r, lc0, d)"
      and rest: "scanner_ticks o1 rs lc1 mg2 d3 = ts @ (e, lc, d1) # ts2"
      by (auto split: if_splits)
    from Cons.IH [OF rest d3] Cons.prems(3) scan_lastCatchup [OF s] x Cons show ?thesis by auto
  qed
qed simp


section \<open>\<open>runConsumerSessionRenewer\<close>\<close>

record 'a renew_round =
  rr_woke :: bool
  rr_env :: env
  rr_others :: "'a db \<Rightarrow> 'a db"

text \<open>The errors it logs and the database it leaves.\<close>

fun runConsumerSessionRenewer ::
  "'a outboxImpl \<Rightarrow> 'a renew_round list \<Rightarrow> 'a db \<Rightarrow> (go_err list \<times> 'a db) option" where
  "runConsumerSessionRenewer o1 [] d = None"
| "runConsumerSessionRenewer o1 (r # rs) d =
     (if \<not> rr_woke r then Some ([], rr_others r d)
      else (case runConsumerSessionRenewer_tick o1 (rr_env r) (rr_others r d) of
              (er, d1) \<Rightarrow>
                map_option (\<lambda>(ers, d'). (case er of None \<Rightarrow> ers | Some x \<Rightarrow> x # ers, d'))
                  (runConsumerSessionRenewer o1 rs d1)))"

abbreviation renew_clock :: "'a renew_round \<Rightarrow> time" where
  "renew_clock r \<equiv> e_clock (rr_env r) AtUpsertConsumerSession"

definition renewed_until :: "'a renew_round \<Rightarrow> time" where
  "renewed_until r = renew_clock r + exclusiveLeaseDuration (e_timings (rr_env r))"

definition spares_session :: "uuid \<Rightarrow> 'a renew_round \<Rightarrow> bool" where
  "spares_session c r \<longleftrightarrow> (\<forall>d. session_expiry c (rr_others r d) = session_expiry c d)"

lemma session_after_tick:
  "session_expiry (instanceID o1) (snd (runConsumerSessionRenewer_tick o1 (rr_env r) d)) =
     (if outcome_applied (e_outcome (rr_env r) AtUpsertConsumerSession) then Some (renewed_until r)
      else session_expiry (instanceID o1) d)"
  by (auto simp: runConsumerSessionRenewer_tick_def upsertConsumerSession_def upsertConsumerSessionIn_def
      exec_pool_def renewed_until_def split: option.split)

lemma renewer_keeps_bound:
  assumes "runConsumerSessionRenewer o1 rs d = Some (ers, d')" "list_all (spares_session (instanceID o1)) rs"
    and "session_expiry (instanceID o1) d = Some x" "b \<le> x" "list_all (\<lambda>q. b \<le> renewed_until q) rs"
  shows "\<exists>y. session_expiry (instanceID o1) d' = Some y \<and> b \<le> y"
  using assms
proof (induction rs arbitrary: d x ers)
  case (Cons r rs)
  show ?case
  proof (cases "rr_woke r")
    case False
    with Cons.prems show ?thesis by (auto simp: spares_session_def)
  next
    case True
    obtain er d1 where t: "runConsumerSessionRenewer_tick o1 (rr_env r) (rr_others r d) = (er, d1)" by fastforce
    with True Cons.prems(1) obtain ers' where rest: "runConsumerSessionRenewer o1 rs d1 = Some (ers', d')" by auto
    obtain y where "session_expiry (instanceID o1) d1 = Some y" "b \<le> y"
      using session_after_tick [of o1 r "rr_others r d"] t Cons.prems
      by (auto simp: spares_session_def split: if_splits)
    with Cons.IH [OF rest] Cons.prems show ?thesis by simp
  qed
qed simp


section \<open>Witnesses\<close>

text \<open>The first tick of a scanner on the sample database of the maintenance theory.\<close>

definition sample_scan :: "unit scan_round list" where
  "sample_scan = [\<lparr>sr_ctx_ended = False, sr_env = quiet_env 20, sr_woke = False, sr_others = id\<rparr>]"


text \<open>A renewal, then one that fails.\<close>

definition sample_renewals :: "unit renew_round list" where
  "sample_renewals = [
     \<lparr>rr_woke = True, rr_env = quiet_env 0, rr_others = id\<rparr>,
     \<lparr>rr_woke = True, rr_env = (quiet_env (10 * second))\<lparr>e_outcome := (\<lambda>_. Failed CtxDeadlineExceeded)\<rparr>,
       rr_others = id\<rparr>,
     \<lparr>rr_woke = False, rr_env = quiet_env (20 * second), rr_others = id\<rparr>]"


end
