(* ===== verification/Lease_Rows.thy ===== *)
theory Lease_Rows
  imports Fleet_Runs
begin

text \<open>
  Who writes the rows of \<open>maintenance_leases\<close>: maintenance of a topic its row, a scan the rows that it
  inserts and the stale ones that nobody has locked, and nobody else any.
\<close>

lemma exec_pool_leases: "maintenance_leases (f d) = maintenance_leases d \<Longrightarrow>
  maintenance_leases (snd (exec_pool e s f d)) = maintenance_leases d"
  by (simp add: exec_pool_def)

lemma session_leases: "maintenance_leases (snd (upsertConsumerSession o1 e d)) = maintenance_leases d"
  by (simp add: upsertConsumerSession_def upsertConsumerSessionIn_def exec_pool_leases)

lemma expirations_leases: "maintenance_leases (publish_expirations es xs d) = maintenance_leases d"
  by (induction es xs d rule: publish_expirations.induct) (simp_all add: ensureTopicRow_def exec_pool_leases)

lemma grace_leases: "maintenance_leases (expireExclusiveLeaseAfterGrace o1 e t d) = maintenance_leases d"
  by (simp add: expireExclusiveLeaseAfterGrace_def exec_pool_leases Let_def)

lemma other_leases:
  "maintenance_leases (fleet_step (Release o1 e t w) d) = maintenance_leases d"
  "maintenance_leases (fleet_step (GraceExpiry o1 e t) d) = maintenance_leases d"
  "maintenance_leases (fleet_step (Heartbeat o1 e) d) = maintenance_leases d"
  "maintenance_leases (fleet_step (Start fresh migrated es e fs) d) = maintenance_leases d"
proof -
  show "maintenance_leases (fleet_step (Release o1 e t w) d) = maintenance_leases d"
    by (auto simp: ReleaseTopic_def Let_def exec_pool_def grace_leases expireLeaseIfWatcherOrphaned_def
        split: option.split prod.split)
  show "maintenance_leases (fleet_step (Heartbeat o1 e) d) = maintenance_leases d"
    using session_leases [of o1 e d]
    by (auto simp: runConsumerSessionRenewer_tick_def Let_def split: option.split prod.split)
  show "maintenance_leases (fleet_step (Start fresh migrated es e fs) d) = maintenance_leases d"
    by (auto simp: NewOutbox_def Let_def session_leases expirations_leases split: on_err_split)
qed (simp add: grace_leases)

section \<open>A scan\<close>

text \<open>A claim leaves a row that is there and locked; a row that is not there it can only insert.\<close>

lemma claim_result_lease:
  "find_lease t (snd res) = find_lease t d \<Longrightarrow> find_lease t (snd (claim_result oc res d)) = find_lease t d"
  by (simp add: claim_result_def)

lemma claimClassShare_lease:
  assumes "e_lease_locked e t" "find_lease t d \<noteq> None"
  shows "find_lease t (snd (claimClassShare o1 e b class n d)) = find_lease t d"
proof -
  have "find_lease t (snd (ClaimMaintenanceLeases (e_lease_locked e) now h ts co d')) = find_lease t d'"
    for now h ts co and d' :: "'a db"
    using assms(1) by (cases "find_lease t d'") (auto simp: claimable_lease_def dest: find_row_key)
  moreover have "find_lease t (snd (InsertMaintenanceLeases now ts h d)) = find_lease t d" for now ts h
    using assms(2) by (simp add: find_lease_InsertMaintenanceLeases)
  ultimately show ?thesis
    by (simp add: claimClassShare_def Let_def case_prod_beta claim_result_lease)
qed

lemma claimTopics_lease:
  assumes "e_lease_locked e t" "find_lease t d \<noteq> None"
  shows "find_lease t (snd (claimTopics o1 e a b (d :: 'a db))) = find_lease t d"
proof -
  obtain l where l: "find_lease t d = Some l" using assms(2) by blast
  have keep: "find_lease t d' = Some l \<Longrightarrow> find_lease t (snd (claimClassShare o1 e c cl n d')) = Some l"
    for c cl n and d' :: "'a db"
    using claimClassShare_lease [OF assms(1), of d'] by simp
  show ?thesis
    by (simp add: claimTopics_def Let_def case_prod_beta on_err_def keep l split: option.split)
qed

lemma scan_lease:
  assumes "e_lease_locked e t" "find_lease t d \<noteq> None"
  shows "find_lease t (fleet_step (Scan o1 e lc mg) d) = find_lease t d"
proof -
  obtain inc lc1 d1 where c: "catchup_sweep e lc d = (inc, lc1, d1)" by (metis prod_cases3)
  then have "maintenance_leases d1 = maintenance_leases d"
    by (auto simp: catchup_sweep_def Let_def exec_pool_def split: if_splits prod.splits)
  then have "find_lease t d1 = find_lease t d" by simp
  with claimTopics_lease [OF assms(1), of d1] assms(2) show ?thesis
    by (simp add: scanTopics_def c Let_def case_prod_beta on_err_def split: option.split)
qed

section \<open>Maintenance\<close>

lemma MaintainRound_lease: "u \<noteq> t \<Longrightarrow> find_lease u (fleet_step (MaintainRound o1 e t ttl) d) = find_lease u d"
  using MaintainRound_db [of o1 e t ttl d] by auto

lemma FinishDormant_lease:
  assumes "u \<noteq> t" "db_ok d"
  shows "find_lease u (fleet_step (FinishDormant o1 e t ttl) d) = find_lease u d"
proof (cases rule: FinishDormant_db [of d o1 e t ttl])
  case (1 d1)
  have "db_ok d1" using 1(1) assms(2) by (auto simp: schema_ok)
  moreover have "find_lease u d1 = find_lease u d" using 1(1) assms(1) by auto
  ultimately show ?thesis
    using 1(2) assms(1)
    by (auto simp: find_lease_ReleaseMaintenanceLease db_okD(2) split: option.split dest: find_row_key)
qed

end
