(* ===== verification/Row_Locks.thy ===== *)
theory Row_Locks
  imports Lease_Rows
begin

text \<open>
  Transactions statement by statement. Elsewhere a handler's transaction is one step and what
  others have locked is a parameter; here the transactions that take row locks and keep them
  across statements, \<open>ProcessMessages\<close>, the attempt of \<open>AcquireTopic\<close>, \<open>runMaintenance\<close> and the
  transaction of a producer around \<open>AddMessages\<close>, are open over several steps, interleaved with each
  other and with everything else. Writes become visible at the
  commit, a statement sees what is committed when it runs (\<open>READ COMMITTED\<close>), and the lock
  tables say which transaction holds which row of \<open>topics\<close>, of \<open>messages\<close> and of
  \<open>maintenance_leases\<close> until it ends. What holds of them is in \<open>Lock_Invariants\<close> and
  \<open>Interleaving\<close>.

  A statement that needs a row somebody else holds waits, that is, has no step, unless it says
  \<open>SKIP LOCKED\<close>. The row of a topic that \<open>AcquireTopic\<close> inserts counts as held by the inserting
  transaction; before the commit nobody else sees it, so a check of such a topic finds no row and
  locks nothing. The identity sequence belongs to no transaction: an insert moves it at once, whatever
  becomes of the insert. What a flusher or a producer writes to the application's tables is left
  out here.
\<close>

section \<open>Open transactions\<close>

text \<open>\<open>Validated\<close>: past the check; \<open>Claimed\<close>: the flusher is running on the batch; \<open>Flushed\<close>: it
  reported success; the flag says whether the check found a row and locked it. \<open>Taking\<close>: the
  attempt has written the lease and not committed. \<open>Added\<close>: the rows are inserted and the
  notifications queued; the flag says whether the insert trigger wrote the row of the topic. \<open>Holding\<close>: maintenance has the
  lease of its topic, with the row that it found; \<open>Purged\<close>: it has deleted the messages older than
  its cutoff.\<close>

datatype 'a open_tx =
    Validated "'a outboxImpl" "'a flusher" topic "ProcessOpt list" bool
  | Claimed "'a outboxImpl" "'a flusher" topic bool "Message list"
  | Flushed "'a outboxImpl" topic bool "Message list"
  | Taking "'a outboxImpl" env topic
  | Added topic env "Message list" "(string \<times> string) list" bool
  | Holding "'a outboxImpl" env topic duration "MaintenanceLease option"
  | Purged "'a outboxImpl" env topic time "Message list" "MaintenanceLease option"

type_synonym tx_id = nat

record 'a conc =
  committed :: "'a db"
  open_txs :: "tx_id \<Rightarrow> 'a open_tx option"
  row_locks :: "topic \<Rightarrow> tx_id option"
  msg_locks :: "int \<Rightarrow> tx_id option"
  session_locks :: "uuid \<Rightarrow> tx_id option"
  lease_locks :: "topic \<Rightarrow> tx_id option"

definition conc_start :: "'a db \<Rightarrow> 'a conc" where
  "conc_start d = \<lparr>committed = d, open_txs = (\<lambda>_. None), row_locks = (\<lambda>_. None), msg_locks = (\<lambda>_. None),
     session_locks = (\<lambda>_. None), lease_locks = (\<lambda>_. None)\<rparr>"

definition set_tx :: "tx_id \<Rightarrow> 'a open_tx \<Rightarrow> 'a conc \<Rightarrow> 'a conc" where
  "set_tx x tx s = s\<lparr>open_txs := (open_txs s)(x \<mapsto> tx)\<rparr>"

text \<open>The end of a transaction releases its locks.\<close>

definition release :: "tx_id \<Rightarrow> ('k \<Rightarrow> tx_id option) \<Rightarrow> 'k \<Rightarrow> tx_id option" where
  "release x locks = (\<lambda>k. if locks k = Some x then None else locks k)"

definition end_tx :: "tx_id \<Rightarrow> 'a conc \<Rightarrow> 'a conc" where
  "end_tx x s = s\<lparr>open_txs := (open_txs s)(x := None),
     row_locks := release x (row_locks s), msg_locks := release x (msg_locks s),
     session_locks := release x (session_locks s), lease_locks := release x (lease_locks s)\<rparr>"

section \<open>The statements\<close>

text \<open>The check of \<open>ProcessMessages\<close>, with \<open>FOR UPDATE\<close> on the row if there is one.\<close>

definition check_access ::
  "tx_id \<Rightarrow> 'a outboxImpl \<Rightarrow> env \<Rightarrow> topic \<Rightarrow> ProcessOpt list \<Rightarrow> 'a conc \<Rightarrow> 'a conc step_result" where
  "check_access x o1 e t popts s =
     (if open_txs s x \<noteq> None then Disabled
      else (case getFlusher o1 t of
              None \<Rightarrow> Next s
            | Some f \<Rightarrow>
                if find_topic t (committed s) \<noteq> None \<and> row_locks s t \<noteq> None then Disabled
                else (case checkExclusiveAccessForUpdate o1 e t (committed s) of
                        Some er \<Rightarrow> Next s
                      | None \<Rightarrow>
                          if find_topic t (committed s) = None
                          then Next (set_tx x (Validated o1 f t popts False) s)
                          else Next (set_tx x (Validated o1 f t popts True)
                            (s\<lparr>row_locks := (row_locks s)(t \<mapsto> x)\<rparr>)))))"

text \<open>\<open>AcquireMessagesByTopic\<close> skips what others have locked and locks what it returns.\<close>

definition lock_batch :: "tx_id \<Rightarrow> 'a conc \<Rightarrow> 'a conc step_result" where
  "lock_batch x s =
     (case open_txs s x of
        Some (Validated o1 f t popts locked) \<Rightarrow>
          (let msgs = AcquireMessagesByTopic (\<lambda>_ i. msg_locks s i \<noteq> None) t
                 (Some (sint (batchSize (process_opts popts)))) (committed s)
           in if msgs = [] then Next (end_tx x s)
              else Next (set_tx x (Claimed o1 f t locked msgs)
                (s\<lparr>msg_locks := (\<lambda>i. if i \<in> m_ID ` set msgs then Some x else msg_locks s i)\<rparr>)))
      | _ \<Rightarrow> Disabled)"

definition flush_batch :: "tx_id \<Rightarrow> 'a conc \<Rightarrow> 'a conc step_result" where
  "flush_batch x s =
     (case open_txs s x of
        Some (Claimed o1 f t locked msgs) \<Rightarrow>
          (case fst (f msgs (begin_tx (committed s))) of
             Some er \<Rightarrow> Next (end_tx x s)
           | None \<Rightarrow> Next (set_tx x (Flushed o1 t locked msgs) s))
      | _ \<Rightarrow> Disabled)"

text \<open>The delete, the bump and the commit; a statement that fails is \<open>roll_back\<close>. The bump of a
  stale row that the check did not lock waits for whoever has it.\<close>

definition bump_waits :: "tx_id \<Rightarrow> time \<Rightarrow> topic \<Rightarrow> 'a conc \<Rightarrow> bool" where
  "bump_waits x now t s \<longleftrightarrow>
     (case find_topic t (committed s) of
        None \<Rightarrow> False
      | Some row \<Rightarrow> stale_activity now row \<and> row_locks s t \<noteq> None \<and> row_locks s t \<noteq> Some x)"

definition commit_batch :: "tx_id \<Rightarrow> env \<Rightarrow> 'a conc \<Rightarrow> 'a conc step_result" where
  "commit_batch x e s =
     (case open_txs s x of
        Some (Flushed o1 t locked msgs) \<Rightarrow>
          if bump_waits x (e_now e AtBegin) t s then Disabled
          else Next (end_tx x (if outcome_applied (e_outcome e AtCommit)
            then s\<lparr>committed := flushed_db e t msgs (begin_tx (committed s))\<rparr> else s))
      | _ \<Rightarrow> Disabled)"

text \<open>The statements of \<open>tryAcquireTopicLease\<close>: the insert waits for the row, then nobody can change
  it, so the check, the session and the lease are one step, which waits also for another attempt
  of the same instance that has written the session.\<close>

definition take_lease :: "tx_id \<Rightarrow> 'a outboxImpl \<Rightarrow> env \<Rightarrow> topic \<Rightarrow> 'a conc \<Rightarrow> 'a conc step_result" where
  "take_lease x o1 e t s =
     (if open_txs s x \<noteq> None \<or> row_locks s t \<noteq> None then Disabled
      else if lease_contended o1 e t (committed s) then Next s
      else if session_locks s (instanceID o1) \<noteq> None then Disabled
      else Next (set_tx x (Taking o1 e t) (s\<lparr>row_locks := (row_locks s)(t \<mapsto> x),
        session_locks := (session_locks s)(instanceID o1 \<mapsto> x)\<rparr>)))"

definition commit_lease :: "tx_id \<Rightarrow> env \<Rightarrow> 'a conc \<Rightarrow> 'a conc step_result" where
  "commit_lease x e s =
     (case open_txs s x of
        Some (Taking o1 e1 t) \<Rightarrow>
          Next (end_tx x (if outcome_applied (e_outcome e AtCommit)
            then s\<lparr>committed := acquired_db o1 e1 t (committed s)\<rparr> else s))
      | _ \<Rightarrow> Disabled)"

text \<open>\<open>AddMessages\<close> in the transaction of its caller: on an error the caller can only roll back. The
  trigger's insert waits for the row of a topic that somebody has inserted and not committed; a
  row that the trigger has written is locked.\<close>

definition add_rows ::
  "tx_id \<Rightarrow> 'a outboxImpl \<Rightarrow> env \<Rightarrow> topic \<Rightarrow> MessageOpts list \<Rightarrow> AddOpt list \<Rightarrow> 'a conc \<Rightarrow> 'a conc step_result" where
  "add_rows x o1 e t msgs aopts s =
     (if open_txs s x \<noteq> None \<or> find_topic t (committed s) = None \<and> row_locks s t \<noteq> None then Disabled
      else (case AddMessages o1 (e\<lparr>e_topic_locked := (\<lambda>u. row_locks s u \<noteq> None)\<rparr>) t msgs aopts (\<lambda>_. [])
               (begin_tx (committed s)) of
              (er, _, tx) \<Rightarrow>
                (let rows = drop (length (messages (committed s))) (messages tx);
                     wrote = find_topic t tx \<noteq> find_topic t (committed s);
                     s1 = s\<lparr>committed := rollback (committed s) tx\<rparr>
                 in if er \<noteq> None \<or> rows = [] then Next s1
                    else Next (set_tx x (Added t e rows (tx_notifies tx) wrote)
                      (if wrote then s1\<lparr>row_locks := (row_locks s)(t \<mapsto> x)\<rparr> else s1)))))"

text \<open>The caller's commit. Nobody else could write a row of \<open>topics\<close> that the trigger wrote.\<close>

definition added_db :: "topic \<Rightarrow> env \<Rightarrow> Message list \<Rightarrow> (string \<times> string) list \<Rightarrow> bool \<Rightarrow> 'a db \<Rightarrow> 'a db" where
  "added_db t e rows ns wrote d =
     commit_db ((topics_insert_trigger_fn (e_now e AtBegin) (\<lambda>_. \<not> wrote) rows
       (d\<lparr>messages := messages d @ rows\<rparr>))\<lparr>tx_notifies := ns\<rparr>)"

definition commit_rows :: "tx_id \<Rightarrow> env \<Rightarrow> 'a conc \<Rightarrow> 'a conc step_result" where
  "commit_rows x e s =
     (case open_txs s x of
        Some (Added t e1 rows ns wrote) \<Rightarrow>
          Next (end_tx x (if outcome_applied (e_outcome e AtCommit)
            then s\<lparr>committed := added_db t e1 rows ns wrote (committed s)\<rparr> else s))
      | _ \<Rightarrow> Disabled)"

text \<open>\<open>runMaintenance\<close>: the insert and the select wait for whoever has the row of the lease; then
  nobody can change it, so the check and the update are one step. The delete waits for the
  messages that a consumer has locked and locks those that it deletes, which \<open>SKIP LOCKED\<close> passes over.\<close>

definition hold_lease :: "tx_id \<Rightarrow> 'a outboxImpl \<Rightarrow> env \<Rightarrow> topic \<Rightarrow> duration \<Rightarrow> 'a conc \<Rightarrow> 'a conc step_result" where
  "hold_lease x o1 e t ttl s =
     (if open_txs s x \<noteq> None \<or> lease_locks s t \<noteq> None then Disabled
      else if maintenance_contended o1 e t (committed s) then Next s
      else Next (set_tx x (Holding o1 e t ttl (find_lease t (committed s)))
        (s\<lparr>lease_locks := (lease_locks s)(t \<mapsto> x)\<rparr>)))"

definition expired_rows :: "topic \<Rightarrow> time \<Rightarrow> 'a db \<Rightarrow> Message list" where
  "expired_rows t cutoff d = filter (\<lambda>m. m_Topic m = t \<and> m_InsertedAt m < cutoff) (messages d)"

definition deletes_locked :: "topic \<Rightarrow> time \<Rightarrow> 'a conc \<Rightarrow> bool" where
  "deletes_locked t cutoff s =
     list_ex (\<lambda>m. m_Topic m = t \<and> m_InsertedAt m < cutoff \<and> msg_locks s (m_ID m) \<noteq> None)
       (messages (committed s))"

definition purge_rows :: "tx_id \<Rightarrow> 'a conc \<Rightarrow> 'a conc step_result" where
  "purge_rows x s =
     (case open_txs s x of
        Some (Holding o1 e t ttl seen) \<Rightarrow>
          (let cutoff = e_clock e AtDeleteExpiredMessages - ttl; msgs = expired_rows t cutoff (committed s)
           in if deletes_locked t cutoff s then Disabled
              else Next (set_tx x (Purged o1 e t cutoff msgs seen)
                (s\<lparr>msg_locks := (\<lambda>i. if i \<in> m_ID ` set msgs then Some x else msg_locks s i)\<rparr>)))
      | _ \<Rightarrow> Disabled)"

definition purged_db :: "'a outboxImpl \<Rightarrow> env \<Rightarrow> topic \<Rightarrow> Message list \<Rightarrow> 'a db \<Rightarrow> 'a db" where
  "purged_db o1 e t msgs d =
     commit_db (DeleteMessagesByIds t (map m_ID msgs) (UpdateMaintenanceLease (e_now e AtBegin) t (instanceID o1)
       (InsertMaintenanceLeaseIfAbsent (e_now e AtBegin) t (instanceID o1) (begin_tx d))))"

definition commit_purge :: "tx_id \<Rightarrow> env \<Rightarrow> 'a conc \<Rightarrow> 'a conc step_result" where
  "commit_purge x e s =
     (case open_txs s x of
        Some (Purged o1 e1 t cutoff msgs seen) \<Rightarrow>
          Next (end_tx x (if outcome_applied (e_outcome e AtCommit)
            then s\<lparr>committed := purged_db o1 e1 t msgs (committed s)\<rparr> else s))
      | _ \<Rightarrow> Disabled)"

text \<open>An error, a cancelled context, a lost connection, a crashed instance.\<close>

definition roll_back :: "tx_id \<Rightarrow> 'a conc \<Rightarrow> 'a conc step_result" where
  "roll_back x s = (if open_txs s x = None then Disabled else Next (end_tx x s))"

text \<open>
  Everything else is one step of the fleet: one statement that matters here, or a transaction that keeps no lock across
  its statements that these wait for; a transaction of maintenance or of a producer whose statements follow
  each other directly can be one step too. Deleting expired messages waits for the rows that a
  consumer has locked, updating a lease for the row of the topic, writing or deleting a session for
  an attempt that has written it. The insert trigger skips topics whose row is locked, but its
  insert waits for the row that an attempt has inserted and not committed, and so do the
  registrations of an instance that starts. Maintenance waits for the row of its lease. A scan
  skips stale leases that are locked; inserting a lease waits for the row that maintenance has
  inserted and not committed.
\<close>

definition deletes_session :: "env \<Rightarrow> time option \<Rightarrow> 'a conc \<Rightarrow> bool" where
  "deletes_session e lc s \<longleftrightarrow> catchup_due e lc \<and>
     list_ex (\<lambda>c. s_ExpiresAt c < e_clock e AtDeleteExpiredConsumerSessions - consumerSessionRetention (e_timings e) \<and>
         session_locks s (s_ConsumerID c) \<noteq> None)
       (consumer_sessions (committed s))"

fun sees_locks :: "'a conc \<Rightarrow> 'a fleet_op \<Rightarrow> 'a fleet_op" where
  "sees_locks s (Produce o1 e t msgs aopts undo) =
     Produce o1 (e\<lparr>e_topic_locked := (\<lambda>t. row_locks s t \<noteq> None)\<rparr>) t msgs aopts undo"
| "sees_locks s (Scan o1 e lc mg) = Scan o1 (e\<lparr>e_lease_locked := (\<lambda>t. lease_locks s t \<noteq> None)\<rparr>) lc mg"
| "sees_locks s op1 = op1"

definition inserts_lease :: "'a fleet_op \<Rightarrow> 'a conc \<Rightarrow> bool" where
  "inserts_lease op1 s \<longleftrightarrow>
     list_ex (\<lambda>l. lease_locks s (l_Topic l) \<noteq> None \<and> find_lease (l_Topic l) (committed s) = None)
       (maintenance_leases (fleet_step (sees_locks s op1) (committed s)))"

fun must_wait :: "'a fleet_op \<Rightarrow> 'a conc \<Rightarrow> bool" where
  "must_wait (Process o1 e t popts) s = True"
| "must_wait (TryAcquire o1 e t) s = True"
| "must_wait (Produce o1 e t msgs aopts undo) s = (find_topic t (committed s) = None \<and> row_locks s t \<noteq> None)"
| "must_wait (Release o1 e t w) s =
     (lease_holder t (committed s) = Some (instanceID o1) \<and> row_locks s t \<noteq> None)"
| "must_wait (GraceExpiry o1 e t) s =
     (lease_holder t (committed s) = Some (instanceID o1) \<and> row_locks s t \<noteq> None)"
| "must_wait (Heartbeat o1 e) s = (session_locks s (instanceID o1) \<noteq> None)"
| "must_wait (Scan o1 e lc mg) s = (deletes_session e lc s \<or> inserts_lease (Scan o1 e lc mg) s)"
| "must_wait (MaintainRound o1 e t ttl) s =
     (lease_locks s t \<noteq> None \<or> deletes_locked t (e_clock e AtDeleteExpiredMessages - ttl) s)"
| "must_wait (FinishDormant o1 e t ttl) s =
     (lease_locks s t \<noteq> None \<or> deletes_locked t (e_clock e AtDeleteExpiredMessages - ttl) s)"
| "must_wait (Start fresh migrated es e fs) s =
     list_ex (\<lambda>(t, ttl). row_locks s t \<noteq> None) (expirations (new_outboxImpl fresh (outbox_opts fs)))"

definition other_step :: "'a fleet_op \<Rightarrow> 'a conc \<Rightarrow> 'a conc step_result" where
  "other_step op1 s =
     (if must_wait op1 s then Disabled
      else Next (s\<lparr>committed := fleet_step (sees_locks s op1) (committed s)\<rparr>))"

datatype 'a stmt =
    CheckAccess tx_id "'a outboxImpl" env topic "ProcessOpt list"
  | LockBatch tx_id
  | FlushBatch tx_id
  | CommitBatch tx_id env
  | TakeLease tx_id "'a outboxImpl" env topic
  | CommitLease tx_id env
  | AddRows tx_id "'a outboxImpl" env topic "MessageOpts list" "AddOpt list"
  | CommitRows tx_id env
  | HoldLease tx_id "'a outboxImpl" env topic duration
  | PurgeRows tx_id
  | CommitPurge tx_id env
  | RollBack tx_id
  | Other "'a fleet_op"

fun conc_step :: "'a stmt \<Rightarrow> 'a conc \<Rightarrow> 'a conc step_result" where
  "conc_step (CheckAccess x o1 e t popts) s = check_access x o1 e t popts s"
| "conc_step (LockBatch x) s = lock_batch x s"
| "conc_step (FlushBatch x) s = flush_batch x s"
| "conc_step (CommitBatch x e) s = commit_batch x e s"
| "conc_step (TakeLease x o1 e t) s = take_lease x o1 e t s"
| "conc_step (CommitLease x e) s = commit_lease x e s"
| "conc_step (AddRows x o1 e t msgs aopts) s = add_rows x o1 e t msgs aopts s"
| "conc_step (CommitRows x e) s = commit_rows x e s"
| "conc_step (HoldLease x o1 e t ttl) s = hold_lease x o1 e t ttl s"
| "conc_step (PurgeRows x) s = purge_rows x s"
| "conc_step (CommitPurge x e) s = commit_purge x e s"
| "conc_step (RollBack x) s = roll_back x s"
| "conc_step (Other op1) s = other_step op1 s"

text \<open>A run is a schedule; a statement that has to wait is tried again later.\<close>

definition conc_next :: "'a stmt \<Rightarrow> 'a conc \<Rightarrow> 'a conc" where
  "conc_next st s = (case conc_step st s of Next s' \<Rightarrow> s' | _ \<Rightarrow> s)"

definition conc_run :: "'a stmt list \<Rightarrow> 'a conc \<Rightarrow> 'a conc" where
  "conc_run sts s = fold conc_next sts s"

fun stmt_ok :: "'a stmt \<Rightarrow> bool" where
  "stmt_ok (Other op1) = op_ok op1"
| "stmt_ok (AddRows x o1 e t msgs aopts) = (\<forall>pub. txPub o1 = Some pub \<longrightarrow> notifies_only pub)"
| "stmt_ok st = True"

end
