(* ===== verification/Lock_Invariants.thy ===== *)
theory Lock_Invariants
  imports Row_Locks
begin

text \<open>
  The invariant of open transactions: what each of them has locked is still there, what it relies on
  still holds, and the rows of producers that have not committed have identities of their own.
  Every statement keeps it and refines an action of the abstract outbox.
\<close>

section \<open>Invariants\<close>

fun batch_held :: "'a open_tx \<Rightarrow> (topic \<times> Message list) option" where
  "batch_held (Claimed o1 f t locked msgs) = Some (t, msgs)"
| "batch_held (Flushed o1 t locked msgs) = Some (t, msgs)"
| "batch_held (Purged o1 e t cutoff msgs seen) = Some (t, msgs)"
| "batch_held tx = None"

fun tx_shape :: "'a open_tx \<Rightarrow> bool" where
  "tx_shape (Claimed o1 f t locked msgs) = (msgs \<noteq> [] \<and> sorted_wrt (<) (map m_ID msgs))"
| "tx_shape (Flushed o1 t locked msgs) = (msgs \<noteq> [] \<and> sorted_wrt (<) (map m_ID msgs))"
| "tx_shape (Purged o1 e t cutoff msgs seen) = (distinct msgs \<and> (\<forall>m \<in> set msgs. m_InsertedAt m < cutoff))"
| "tx_shape tx = True"

text \<open>The lease that maintenance has locked, as it found it.\<close>

fun lease_held :: "'a open_tx \<Rightarrow> (topic \<times> MaintenanceLease option) option" where
  "lease_held (Holding o1 e t ttl seen) = Some (t, seen)"
| "lease_held (Purged o1 e t cutoff msgs seen) = Some (t, seen)"
| "lease_held tx = None"

fun row_held :: "'a open_tx \<Rightarrow> topic option" where
  "row_held (Validated o1 f t popts locked) = (if locked then Some t else None)"
| "row_held (Claimed o1 f t locked msgs) = (if locked then Some t else None)"
| "row_held (Flushed o1 t locked msgs) = (if locked then Some t else None)"
| "row_held (Taking o1 e t) = Some t"
| "row_held (Added t e rows ns wrote) = (if wrote then Some t else None)"
| "row_held tx = None"

text \<open>The instance that a transaction past the check, with the row locked, relies on.\<close>

fun relies_on :: "'a open_tx \<Rightarrow> (uuid \<times> topic) option" where
  "relies_on (Validated o1 f t popts locked) = (if locked then Some (instanceID o1, t) else None)"
| "relies_on (Claimed o1 f t locked msgs) = (if locked then Some (instanceID o1, t) else None)"
| "relies_on (Flushed o1 t locked msgs) = (if locked then Some (instanceID o1, t) else None)"
| "relies_on tx = None"

text \<open>The rows that a producer has inserted and not committed.\<close>

fun rows_open :: "'a open_tx \<Rightarrow> Message list" where
  "rows_open (Added t e rows ns wrote) = rows"
| "rows_open tx = []"

definition rows_of :: "tx_id \<Rightarrow> 'a conc \<Rightarrow> Message list" where
  "rows_of x s = (case open_txs s x of None \<Rightarrow> [] | Some tx \<Rightarrow> rows_open tx)"

definition reserved_ids :: "'a conc \<Rightarrow> int set" where
  "reserved_ids s = (\<Union>x. m_ID ` set (rows_of x s))"

definition conc_view :: "'a conc \<Rightarrow> outbox" where
  "conc_view s = \<lparr>pending = messages (committed s), next_id = messages_id_seq (committed s),
     reserved = reserved_ids s\<rparr>"

text \<open>A batch is locked by its transaction and still stored.\<close>

definition holds_batch :: "tx_id \<Rightarrow> topic \<Rightarrow> Message list \<Rightarrow> 'a conc \<Rightarrow> bool" where
  "holds_batch x t msgs s \<longleftrightarrow>
     (\<forall>m \<in> set msgs. m_Topic m = t \<and> m \<in> set (messages (committed s)) \<and> msg_locks s (m_ID m) = Some x)"

definition batches_ok :: "'a conc \<Rightarrow> bool" where
  "batches_ok s \<longleftrightarrow> (\<forall>x tx t msgs. open_txs s x = Some tx \<longrightarrow> batch_held tx = Some (t, msgs) \<longrightarrow> holds_batch x t msgs s)"

definition rows_ok :: "'a conc \<Rightarrow> bool" where
  "rows_ok s \<longleftrightarrow> (\<forall>x tx t. open_txs s x = Some tx \<longrightarrow> row_held tx = Some t \<longrightarrow> row_locks s t = Some x)"

text \<open>What the check found about the holder still holds.\<close>

definition checks_ok :: "'a conc \<Rightarrow> bool" where
  "checks_ok s \<longleftrightarrow> (\<forall>x tx c t. open_txs s x = Some tx \<longrightarrow> relies_on tx = Some (c, t) \<longrightarrow>
     (\<forall>a. lease_holder t (committed s) = Some a \<longrightarrow> a = c))"

text \<open>Uncommitted rows have identities of their own.\<close>

definition own_rows :: "tx_id \<Rightarrow> 'a conc \<Rightarrow> bool" where
  "own_rows x s \<longleftrightarrow> sorted_wrt (<) (map m_ID (rows_of x s)) \<and>
     (\<forall>m \<in> set (rows_of x s). m_ID m < messages_id_seq (committed s) \<and> m_ID m \<notin> m_ID ` set (messages (committed s)))"

definition rows_apart :: "tx_id \<Rightarrow> tx_id \<Rightarrow> 'a conc \<Rightarrow> bool" where
  "rows_apart x y s \<longleftrightarrow> m_ID ` set (rows_of x s) \<inter> m_ID ` set (rows_of y s) = {}"

definition producers_ok :: "'a conc \<Rightarrow> bool" where
  "producers_ok s \<longleftrightarrow> (\<forall>x. own_rows x s) \<and> (\<forall>x y. x \<noteq> y \<longrightarrow> rows_apart x y s) \<and>
     (\<forall>x t e rows ns wrote. open_txs s x = Some (Added t e rows ns wrote) \<longrightarrow>
        rows \<noteq> [] \<and> (\<forall>m \<in> set rows. m_Topic m = t))"

definition shapes_ok :: "'a conc \<Rightarrow> bool" where
  "shapes_ok s \<longleftrightarrow> (\<forall>x tx. open_txs s x = Some tx \<longrightarrow> tx_shape tx)"

text \<open>A maintenance lease that is locked is as the check found it.\<close>

definition leases_ok :: "'a conc \<Rightarrow> bool" where
  "leases_ok s \<longleftrightarrow> (\<forall>x tx t seen. open_txs s x = Some tx \<longrightarrow> lease_held tx = Some (t, seen) \<longrightarrow>
     lease_locks s t = Some x \<and> find_lease t (committed s) = seen)"

definition conc_ok :: "'a conc \<Rightarrow> bool" where
  "conc_ok s \<longleftrightarrow> db_ok (committed s) \<and> batches_ok s \<and> rows_ok s \<and> checks_ok s \<and> producers_ok s \<and>
     shapes_ok s \<and> leases_ok s"

lemma conc_okI:
  assumes "db_ok (committed s)"
    and "\<And>x tx t msgs. open_txs s x = Some tx \<Longrightarrow> batch_held tx = Some (t, msgs) \<Longrightarrow> holds_batch x t msgs s"
    and "\<And>x tx t. open_txs s x = Some tx \<Longrightarrow> row_held tx = Some t \<Longrightarrow> row_locks s t = Some x"
    and "\<And>x tx c t a. open_txs s x = Some tx \<Longrightarrow> relies_on tx = Some (c, t) \<Longrightarrow>
      lease_holder t (committed s) = Some a \<Longrightarrow> a = c"
    and "producers_ok s"
    and "\<And>x tx. open_txs s x = Some tx \<Longrightarrow> tx_shape tx"
    and "\<And>x tx t seen. open_txs s x = Some tx \<Longrightarrow> lease_held tx = Some (t, seen) \<Longrightarrow>
      lease_locks s t = Some x \<and> find_lease t (committed s) = seen"
  shows "conc_ok s"
  using assms by (simp add: conc_ok_def batches_ok_def rows_ok_def checks_ok_def shapes_ok_def leases_ok_def)

lemma conc_okD:
  assumes "conc_ok s"
  shows "db_ok (committed s)"
    and "open_txs s x = Some tx \<Longrightarrow> batch_held tx = Some (t, msgs) \<Longrightarrow> holds_batch x t msgs s"
    and "open_txs s x = Some tx \<Longrightarrow> row_held tx = Some t \<Longrightarrow> row_locks s t = Some x"
    and "open_txs s x = Some tx \<Longrightarrow> relies_on tx = Some (c, t) \<Longrightarrow>
      lease_holder t (committed s) = Some a \<Longrightarrow> a = c"
    and "producers_ok s"
    and "open_txs s x = Some tx \<Longrightarrow> tx_shape tx"
    and "open_txs s x = Some tx \<Longrightarrow> lease_held tx = Some (t, seen) \<Longrightarrow> lease_locks s t = Some x"
    and "open_txs s x = Some tx \<Longrightarrow> lease_held tx = Some (t, seen) \<Longrightarrow> find_lease t (committed s) = seen"
  using assms by (simp_all add: conc_ok_def batches_ok_def rows_ok_def checks_ok_def shapes_ok_def leases_ok_def)

lemma conc_ok_start: "db_ok d \<Longrightarrow> conc_ok (conc_start d)"
  by (rule conc_okI) (simp_all add: conc_start_def producers_ok_def own_rows_def rows_apart_def rows_of_def)

lemma end_tx_simps [simp]:
  "committed (end_tx x s) = committed s"
  "open_txs (end_tx x s) = (open_txs s)(x := None)"
  "row_locks (end_tx x s) t = (if row_locks s t = Some x then None else row_locks s t)"
  "msg_locks (end_tx x s) i = (if msg_locks s i = Some x then None else msg_locks s i)"
  "lease_locks (end_tx x s) t = (if lease_locks s t = Some x then None else lease_locks s t)"
  by (simp_all add: end_tx_def release_def)

lemma set_tx_simps [simp]:
  "committed (set_tx x tx s) = committed s"
  "open_txs (set_tx x tx s) = (open_txs s)(x \<mapsto> tx)"
  "row_locks (set_tx x tx s) = row_locks s"
  "msg_locks (set_tx x tx s) = msg_locks s"
  "lease_locks (set_tx x tx s) = lease_locks s"
  by (simp_all add: set_tx_def)

lemma relies_row: "relies_on tx = Some (c, t) \<Longrightarrow> row_held tx = Some t"
  by (cases tx) (auto split: if_splits)

text \<open>The rows of the producers, as a statement leaves them.\<close>

lemma rows_of_set_tx [simp]: "rows_of y (set_tx x tx s) = (if y = x then rows_open tx else rows_of y s)"
  by (simp add: rows_of_def)

lemma rows_of_end_tx [simp]: "rows_of y (end_tx x s) = (if y = x then [] else rows_of y s)"
  by (simp add: rows_of_def)

lemma rows_of_update [simp]:
  "rows_of y (s\<lparr>committed := d\<rparr>) = rows_of y s" "rows_of y (s\<lparr>row_locks := f\<rparr>) = rows_of y s"
  "rows_of y (s\<lparr>msg_locks := g\<rparr>) = rows_of y s" "rows_of y (s\<lparr>session_locks := h\<rparr>) = rows_of y s"
  "rows_of y (s\<lparr>lease_locks := l\<rparr>) = rows_of y s"
  by (simp_all add: rows_of_def)

lemma rows_of_open: "open_txs s x = Some tx \<Longrightarrow> rows_of x s = rows_open tx"
  by (simp add: rows_of_def)

lemma rows_of_closed: "open_txs s x = None \<Longrightarrow> rows_of x s = []"
  by (simp add: rows_of_def)

lemma reserved_ids_cong: "(\<And>y. rows_of y s' = rows_of y s) \<Longrightarrow> reserved_ids s' = reserved_ids s"
  by (simp add: reserved_ids_def)

lemma reserved_ids_update [simp]: "reserved_ids (s\<lparr>committed := d\<rparr>) = reserved_ids s"
  by (simp add: reserved_ids_def)

lemma reserved_idsI:
  "open_txs s x = Some (Added t e rows ns wrote) \<Longrightarrow> m \<in> set rows \<Longrightarrow> m_ID m \<in> reserved_ids s"
  unfolding reserved_ids_def by (rule UN_I [of x]) (simp_all add: rows_of_open)

lemma producers_okD:
  assumes "producers_ok s"
  shows "own_rows x s" "x \<noteq> y \<Longrightarrow> rows_apart x y s"
    "open_txs s x = Some (Added t e rows ns wrote) \<Longrightarrow> rows \<noteq> [] \<and> (\<forall>m \<in> set rows. m_Topic m = t)"
  using assms unfolding producers_ok_def by blast+

lemma reserved_ids_end:
  assumes "producers_ok s"
  shows "reserved_ids (end_tx x (s\<lparr>committed := d'\<rparr>)) = reserved_ids s - m_ID ` set (rows_of x s)"
proof -
  have "m_ID ` set (rows_of y s) \<inter> m_ID ` set (rows_of x s) = {}" if "y \<noteq> x" for y
    using producers_okD(2) [OF assms that] by (simp add: rows_apart_def)
  then have "m_ID m \<notin> m_ID ` set (rows_of x s)" if "m \<in> set (rows_of y s)" "y \<noteq> x" for m y
    using that by blast
  then show ?thesis unfolding reserved_ids_def by (fastforce split: if_splits)
qed

text \<open>The producers do not mind a step that gives no stored row one of their identities.\<close>

lemma producers_ok_keep:
  assumes "producers_ok s" "\<And>y. rows_of y s' = rows_of y s \<or> rows_of y s' = []"
    and "\<And>y t e rows ns wrote. open_txs s' y = Some (Added t e rows ns wrote) \<Longrightarrow>
      open_txs s y = Some (Added t e rows ns wrote)"
    and "messages_id_seq (committed s) \<le> messages_id_seq (committed s')"
    and "\<And>m y. m \<in> set (messages (committed s')) \<Longrightarrow> m \<in> set (messages (committed s)) \<or>
      messages_id_seq (committed s) \<le> m_ID m \<or> (\<exists>x. m \<in> set (rows_of x s) \<and> rows_of x s' = [])"
  shows "producers_ok s'"
proof -
  have "own_rows y s'" for y
  proof (cases "rows_of y s' = []")
    case False
    with assms(2) [of y] have same: "rows_of y s' = rows_of y s" by simp
    have own: "own_rows y s" by (rule producers_okD(1) [OF assms(1)])
    have "m_ID m \<notin> m_ID ` set (messages (committed s'))" if m: "m \<in> set (rows_of y s)" for m
    proof
      assume "m_ID m \<in> m_ID ` set (messages (committed s'))"
      then obtain m' where m': "m' \<in> set (messages (committed s'))" "m_ID m' = m_ID m" by auto
      from assms(5) [OF m'(1)] show False
      proof (elim disjE exE conjE)
        fix x assume x: "m' \<in> set (rows_of x s)" "rows_of x s' = []"
        with False have "x \<noteq> y" by auto
        with producers_okD(2) [OF assms(1) this] x(1) m m'(2) show False by (force simp: rows_apart_def)
      next
        assume "m' \<in> set (messages (committed s))"
        then have "m_ID m \<in> m_ID ` set (messages (committed s))" unfolding m'(2) [symmetric] by (rule imageI)
        with own m show False by (simp add: own_rows_def)
      next
        assume "messages_id_seq (committed s) \<le> m_ID m'"
        with own m m'(2) show False by (auto simp: own_rows_def)
      qed
    qed
    with own assms(4) show ?thesis unfolding own_rows_def same by force
  qed (simp add: own_rows_def)
  moreover have "rows_apart y z s'" if "y \<noteq> z" for y z
  proof (cases "rows_of y s' = [] \<or> rows_of z s' = []")
    case True
    then show ?thesis by (auto simp: rows_apart_def)
  next
    case False
    with assms(2) have "rows_of y s' = rows_of y s" "rows_of z s' = rows_of z s" by blast+
    with producers_okD(2) [OF assms(1) that] show ?thesis by (simp only: rows_apart_def)
  qed
  moreover have "rows \<noteq> [] \<and> (\<forall>m \<in> set rows. m_Topic m = t)"
    if "open_txs s' y = Some (Added t e rows ns wrote)" for y t e rows ns wrote
    by (rule producers_okD(3) [OF assms(1) assms(3) [OF that]])
  ultimately show ?thesis unfolding producers_ok_def by (intro conjI allI impI) simp_all
qed

text \<open>Setting a transaction keeps the invariant if the others keep their locks and it has the locks
  that it should; ending one does, and so does a commit whose writes spare what the other
  transactions hold.\<close>

lemma conc_ok_set:
  assumes "conc_ok s" "committed s' = committed s" "open_txs s' = (open_txs s)(x \<mapsto> tx)"
    and "\<And>t e rows ns wrote. tx \<noteq> Added t e rows ns wrote"
    and "\<And>i y. msg_locks s i = Some y \<Longrightarrow> y \<noteq> x \<Longrightarrow> msg_locks s' i = Some y"
    and "\<And>t y. row_locks s t = Some y \<Longrightarrow> y \<noteq> x \<Longrightarrow> row_locks s' t = Some y"
    and "\<And>t msgs. batch_held tx = Some (t, msgs) \<Longrightarrow> holds_batch x t msgs s'"
    and "\<And>t. row_held tx = Some t \<Longrightarrow> row_locks s' t = Some x"
    and "\<And>c t a. relies_on tx = Some (c, t) \<Longrightarrow> lease_holder t (committed s) = Some a \<Longrightarrow> a = c"
    and "tx_shape tx" "\<And>t y. lease_locks s t = Some y \<Longrightarrow> y \<noteq> x \<Longrightarrow> lease_locks s' t = Some y"
    and "\<And>t seen. lease_held tx = Some (t, seen) \<Longrightarrow> lease_locks s' t = Some x \<and> find_lease t (committed s) = seen"
  shows "conc_ok s'"
proof (rule conc_okI)
  fix y ty t msgs
  assume y: "open_txs s' y = Some ty"
  show "batch_held ty = Some (t, msgs) \<Longrightarrow> holds_batch y t msgs s'"
    using y assms(2,3,5,7) conc_okD(2) [OF assms(1), of y ty t msgs]
    by (cases "y = x") (auto simp: holds_batch_def)
  show "row_held ty = Some t \<Longrightarrow> row_locks s' t = Some y"
    using y assms(3,6,8) conc_okD(3) [OF assms(1), of y ty t] by (cases "y = x") auto
  show "relies_on ty = Some (c, t) \<Longrightarrow> lease_holder t (committed s') = Some a \<Longrightarrow> a = c" for c a
    using y assms(2,3,9) conc_okD(4) [OF assms(1), of y ty c t a] by (cases "y = x") auto
  show "tx_shape ty"
    using y assms(3,10) conc_okD(6) [OF assms(1), of y ty] by (cases "y = x") auto
  show "lease_held ty = Some (t, seen) \<Longrightarrow> lease_locks s' t = Some y \<and> find_lease t (committed s') = seen" for seen
    using y assms(2,3,11,12) conc_okD(7,8) [OF assms(1), of y ty t seen] by (cases "y = x") auto
next
  have "rows_open tx = []"
  proof (cases tx)
    case (Added t e rows ns wrote)
    with assms(4) show ?thesis by blast
  qed simp_all
  then show "producers_ok s'"
    by (intro producers_ok_keep [OF conc_okD(5) [OF assms(1)]])
      (use assms(2-4) in \<open>auto simp: rows_of_def split: if_splits\<close>)
qed (use assms(1,2) in \<open>simp add: conc_okD(1)\<close>)

definition spares :: "tx_id \<Rightarrow> 'a db \<Rightarrow> 'a conc \<Rightarrow> bool" where
  "spares x d' s \<longleftrightarrow> db_ok d' \<and>
     (\<forall>m \<in> set (messages (committed s)). \<forall>y. msg_locks s (m_ID m) = Some y \<longrightarrow> y \<noteq> x \<longrightarrow> m \<in> set (messages d')) \<and>
     (\<forall>t y. row_locks s t = Some y \<longrightarrow> y \<noteq> x \<longrightarrow> lease_holder t d' = lease_holder t (committed s)) \<and>
     (\<forall>t y. lease_locks s t = Some y \<longrightarrow> y \<noteq> x \<longrightarrow> find_lease t d' = find_lease t (committed s)) \<and>
     messages_id_seq (committed s) \<le> messages_id_seq d' \<and>
     (\<forall>m \<in> set (messages d'). m \<in> set (messages (committed s)) \<or> m \<in> set (rows_of x s))"

lemma conc_ok_end:
  assumes "conc_ok s" "spares x d' s"
  shows "conc_ok (end_tx x (s\<lparr>committed := d'\<rparr>))"
proof (rule conc_okI)
  fix y ty t msgs
  assume "open_txs (end_tx x (s\<lparr>committed := d'\<rparr>)) y = Some ty"
  then have y: "y \<noteq> x" "open_txs s y = Some ty" by (auto split: if_splits)
  show "batch_held ty = Some (t, msgs) \<Longrightarrow> holds_batch y t msgs (end_tx x (s\<lparr>committed := d'\<rparr>))"
    using y(1) assms(2) conc_okD(2) [OF assms(1) y(2)] by (fastforce simp: holds_batch_def spares_def)
  show "row_held ty = Some t \<Longrightarrow> row_locks (end_tx x (s\<lparr>committed := d'\<rparr>)) t = Some y"
    using y(1) conc_okD(3) [OF assms(1) y(2)] by simp
  show "relies_on ty = Some (c, t) \<Longrightarrow> lease_holder t (committed (end_tx x (s\<lparr>committed := d'\<rparr>))) = Some a \<Longrightarrow> a = c"
    for c a
    using y(1) assms(2) conc_okD(3,4) [OF assms(1) y(2)] by (auto simp: spares_def dest: relies_row)
  show "tx_shape ty" by (rule conc_okD(6) [OF assms(1) y(2)])
  show "lease_held ty = Some (t, seen) \<Longrightarrow> lease_locks (end_tx x (s\<lparr>committed := d'\<rparr>)) t = Some y \<and>
      find_lease t (committed (end_tx x (s\<lparr>committed := d'\<rparr>))) = seen" for seen
    using y(1) assms(2) conc_okD(7,8) [OF assms(1) y(2), of t seen] by (auto simp: spares_def)
next
  show "producers_ok (end_tx x (s\<lparr>committed := d'\<rparr>))"
    by (rule producers_ok_keep [OF conc_okD(5) [OF assms(1)]])
      (use assms(2) in \<open>auto simp: spares_def split: if_splits\<close>)
qed (use assms(2) in \<open>simp add: spares_def\<close>)

lemma spares_same: "conc_ok s \<Longrightarrow> spares x (committed s) s"
  by (simp add: conc_okD(1) spares_def)

lemma conc_ok_end_same: "conc_ok s \<Longrightarrow> conc_ok (end_tx x s)"
  using conc_ok_end [OF _ spares_same, of s x] by simp

text \<open>A step outside every open transaction.\<close>

lemma conc_ok_other:
  assumes "conc_ok s" "db_ok d'"
    and "\<And>m y. m \<in> set (messages (committed s)) \<Longrightarrow> msg_locks s (m_ID m) = Some y \<Longrightarrow> m \<in> set (messages d')"
    and "\<And>t. lease_holder t d' = lease_holder t (committed s)"
    and "messages_id_seq (committed s) \<le> messages_id_seq d'"
    and "\<And>m. m \<in> set (messages d') \<Longrightarrow> m \<in> set (messages (committed s)) \<or> messages_id_seq (committed s) \<le> m_ID m"
    and "\<And>t. lease_locks s t \<noteq> None \<Longrightarrow> find_lease t d' = find_lease t (committed s)"
  shows "conc_ok (s\<lparr>committed := d'\<rparr>)"
proof (rule conc_okI)
  fix y ty t msgs
  assume "open_txs (s\<lparr>committed := d'\<rparr>) y = Some ty"
  then have y: "open_txs s y = Some ty" by simp
  show "batch_held ty = Some (t, msgs) \<Longrightarrow> holds_batch y t msgs (s\<lparr>committed := d'\<rparr>)"
    using assms(3) conc_okD(2) [OF assms(1) y] by (fastforce simp: holds_batch_def)
  show "lease_held ty = Some (t, seen) \<Longrightarrow> lease_locks (s\<lparr>committed := d'\<rparr>) t = Some y \<and>
      find_lease t (committed (s\<lparr>committed := d'\<rparr>)) = seen" for seen
    using assms(7) [of t] conc_okD(7,8) [OF assms(1) y, of t seen] by simp
next
  show "producers_ok (s\<lparr>committed := d'\<rparr>)"
    by (rule producers_ok_keep [OF conc_okD(5) [OF assms(1)]]) (use assms(5,6) in auto)
qed (use assms(2,4) conc_okD(3,4,6) [OF assms(1)] in auto)

section \<open>Every statement keeps the invariant and refines the outbox\<close>

fun conc_action :: "'a stmt \<Rightarrow> 'a conc \<Rightarrow> outbox_action" where
  "conc_action (CommitBatch x e) s =
     (case open_txs s x of
        Some (Flushed o1 t locked msgs) \<Rightarrow>
          if outcome_applied (e_outcome e AtCommit) then Deliver t msgs else Stutter
      | _ \<Rightarrow> Stutter)"
| "conc_action (AddRows x o1 e t msgs aopts) s =
     (case add_rows x o1 e t msgs aopts s of
        Next s' \<Rightarrow>
          (let n = nat (messages_id_seq (committed s') - messages_id_seq (committed s))
           in if open_txs s' x = None then Burn n else Reserve n)
      | _ \<Rightarrow> Stutter)"
| "conc_action (CommitRows x e) s =
     (case open_txs s x of
        Some (Added t e1 rows ns wrote) \<Rightarrow>
          if outcome_applied (e_outcome e AtCommit) then Publish_Reserved t rows
          else Release_Reserved (m_ID ` set rows)
      | _ \<Rightarrow> Stutter)"
| "conc_action (CommitPurge x e) s =
     (case open_txs s x of
        Some (Purged o1 e1 t cutoff msgs seen) \<Rightarrow>
          if outcome_applied (e_outcome e AtCommit) then Expire_Batch t cutoff msgs else Stutter
      | _ \<Rightarrow> Stutter)"
| "conc_action (RollBack x) s = Release_Reserved (m_ID ` set (rows_of x s))"
| "conc_action (Other op1) s =
     (if must_wait op1 s then Stutter else fleet_action (sees_locks s op1) (committed s))"
| "conc_action st s = Stutter"

definition conc_refines :: "'a conc \<Rightarrow> outbox_action \<Rightarrow> 'a conc \<Rightarrow> bool" where
  "conc_refines s a s' \<longleftrightarrow> conc_ok s' \<and> outbox_next a (conc_view s) = Some (conc_view s')"

lemma conc_refines_same:
  assumes "conc_ok s'" "committed s' = committed s" "\<And>y. rows_of y s' = rows_of y s"
  shows "conc_refines s Stutter s'"
  using assms by (simp add: conc_refines_def conc_view_def reserved_ids_cong [OF assms(3)])

lemma conc_refines_end:
  assumes "conc_ok s"
  shows "conc_refines s (Release_Reserved (m_ID ` set (rows_of x s))) (end_tx x s)"
  using conc_ok_end_same [OF assms] reserved_ids_end [OF conc_okD(5) [OF assms], of x "committed s"]
  by (simp add: conc_refines_def conc_view_def)

lemma conc_refines_end_plain:
  assumes "conc_ok s" "rows_of x s = []"
  shows "conc_refines s Stutter (end_tx x s)"
  by (rule conc_refines_same) (use assms in \<open>simp_all add: conc_ok_end_same\<close>)

text \<open>The statements that open a transaction or take a lock.\<close>

lemma check_access_cases:
  assumes "check_access x o1 e t popts s = Next s'"
  obtains (failed) "s' = s"
  | (validated) f locked where "getFlusher o1 t = Some f" "open_txs s x = None"
      "checkExclusiveAccessForUpdate o1 e t (committed s) = None"
      "locked \<longleftrightarrow> find_topic t (committed s) \<noteq> None" "locked \<Longrightarrow> row_locks s t = None"
      "s' = set_tx x (Validated o1 f t popts locked)
         (if locked then s\<lparr>row_locks := (row_locks s)(t \<mapsto> x)\<rparr> else s)"
proof (cases "s' = s")
  case False
  with assms obtain f where "getFlusher o1 t = Some f"
    by (auto simp: check_access_def split: option.splits if_splits)
  with assms False show ?thesis
    by (intro validated [of f "find_topic t (committed s) \<noteq> None"])
      (auto simp: check_access_def split: option.splits if_splits)
qed (rule failed)

lemma check_access_refines:
  assumes "conc_ok s" "check_access x o1 e t popts s = Next s'"
  shows "conc_refines s Stutter s'"
proof (cases rule: check_access_cases [OF assms(2)])
  case 1
  with assms(1) show ?thesis by (simp add: conc_refines_same)
next
  case (2 f locked)
  then have holder: "a = instanceID o1" if "lease_holder t (committed s) = Some a" for a
    using that by (auto simp: check_alt split: option.splits if_splits)
  from assms(1) have "conc_ok s'"
    by (rule conc_ok_set [where x = x and tx = "Validated o1 f t popts locked"])
      (use 2(5,6) holder in \<open>auto split: if_splits\<close>)
  then show ?thesis using 2(2,6) by (simp add: conc_refines_same rows_of_closed)
qed

lemma lock_batch_refines:
  assumes "conc_ok s" "lock_batch x s = Next s'"
  shows "conc_refines s Stutter s'"
proof -
  from assms(2) obtain o1 f t popts locked where tx: "open_txs s x = Some (Validated o1 f t popts locked)"
    by (auto simp: lock_batch_def split: option.splits open_tx.splits)
  define msgs where "msgs = AcquireMessagesByTopic (\<lambda>_ i. msg_locks s i \<noteq> None) t
      (Some (sint (batchSize (process_opts popts)))) (committed s)"
  show ?thesis
  proof (cases "msgs = []")
    case True
    with assms tx have "s' = end_tx x s" by (simp add: lock_batch_def Let_def msgs_def)
    with conc_refines_end_plain [OF assms(1)] tx show ?thesis by (simp add: rows_of_open)
  next
    case False
    with assms tx have s': "s' = set_tx x (Claimed o1 f t locked msgs)
        (s\<lparr>msg_locks := (\<lambda>i. if i \<in> m_ID ` set msgs then Some x else msg_locks s i)\<rparr>)"
      by (simp add: lock_batch_def Let_def msgs_def)
    have mem: "m \<in> set (messages (committed s)) \<and> m_Topic m = t \<and> msg_locks s (m_ID m) = None"
      if "m \<in> set msgs" for m
      using AcquireMessagesByTopic_mem [OF that [unfolded msgs_def]] by simp
    have sorted: "sorted_wrt (<) (map m_ID msgs)"
      using conc_okD(1) [OF assms(1)] by (simp add: msgs_def AcquireMessagesByTopic_strict)
    have kept: "msg_locks s' i = Some y" if "msg_locks s i = Some y" for i y
      using that mem by (fastforce simp: s')
    from assms(1) have "conc_ok s'"
    proof (rule conc_ok_set)
      show "holds_batch x t' msgs' s'" if "batch_held (Claimed o1 f t locked msgs) = Some (t', msgs')" for t' msgs'
        using that mem sorted False by (auto simp: holds_batch_def s')
    qed (use kept sorted False conc_okD(3,4) [OF assms(1) tx] in \<open>auto simp: s' split: if_splits\<close>)
    then show ?thesis using tx by (simp add: conc_refines_same s' rows_of_open)
  qed
qed

lemma flush_batch_refines:
  assumes "conc_ok s" "flush_batch x s = Next s'"
  shows "conc_refines s Stutter s'"
proof -
  from assms(2) obtain o1 f t locked msgs where tx: "open_txs s x = Some (Claimed o1 f t locked msgs)"
    by (auto simp: flush_batch_def split: option.splits open_tx.splits)
  have "conc_ok (set_tx x (Flushed o1 t locked msgs) s)"
    by (rule conc_ok_set [OF assms(1)])
      (use conc_okD(2,3,4,6) [OF assms(1) tx] in \<open>auto simp: holds_batch_def split: if_splits\<close>)
  with assms tx show ?thesis
    by (auto simp: flush_batch_def conc_refines_end_plain conc_refines_same rows_of_open split: option.splits)
qed

lemma take_lease_refines:
  assumes "conc_ok s" "take_lease x o1 e t s = Next s'"
  shows "conc_refines s Stutter s'"
proof -
  define opened where "opened = set_tx x (Taking o1 e t) (s\<lparr>row_locks := (row_locks s)(t \<mapsto> x),
    session_locks := (session_locks s)(instanceID o1 \<mapsto> x)\<rparr>)"
  from assms(2) consider "s' = s" | "s' = opened" "row_locks s t = None" "open_txs s x = None"
    by (auto simp: take_lease_def opened_def split: if_splits)
  then show ?thesis
  proof cases
    case 1
    with assms(1) show ?thesis by (simp add: conc_refines_same)
  next
    case 2
    have "conc_ok opened"
      by (rule conc_ok_set [OF assms(1)]) (use 2(2) in \<open>auto simp: opened_def split: if_splits\<close>)
    with 2(1,3) show ?thesis by (simp add: conc_refines_same opened_def rows_of_closed)
  qed
qed

text \<open>The commits and the end of a transaction.\<close>

lemma commit_batch_refines:
  assumes "conc_ok s" "commit_batch x e s = Next s'"
  shows "conc_refines s (conc_action (CommitBatch x e) s) s'"
proof -
  from assms(2) obtain o1 t locked msgs where tx: "open_txs s x = Some (Flushed o1 t locked msgs)"
    by (auto simp: commit_batch_def split: option.splits open_tx.splits)
  have held: "holds_batch x t msgs s" using conc_okD(2) [OF assms(1) tx] by simp
  have shape: "msgs \<noteq> []" "sorted_wrt (<) (map m_ID msgs)" using conc_okD(6) [OF assms(1) tx] by simp_all
  let ?d = "flushed_db e t msgs (begin_tx (committed s))"
  show ?thesis
  proof (cases "outcome_applied (e_outcome e AtCommit)")
    case False
    with assms(2) tx have "s' = end_tx x s" by (simp add: commit_batch_def split: if_splits)
    with conc_refines_end_plain [OF assms(1)] tx False show ?thesis by (simp add: rows_of_open)
  next
    case True
    with assms(2) tx have s': "s' = end_tx x (s\<lparr>committed := ?d\<rparr>)"
      by (simp add: commit_batch_def split: if_splits)
    have rest: "messages ?d = filter (\<lambda>m. m \<notin> set msgs) (messages (committed s))"
      using held delete_batch [OF conc_okD(1) [OF assms(1)], of msgs t] by (simp add: holds_batch_def)
    have "spares x ?d s"
      using held conc_okD(1) [OF assms(1)] unfolding spares_def rest by (auto simp: holds_batch_def schema_ok)
    from conc_ok_end [OF assms(1) this] have "conc_ok s'" by (simp add: s')
    moreover have "reserved_ids s' = reserved_ids s"
      using reserved_ids_end [OF conc_okD(5) [OF assms(1)], of x ?d] tx by (simp add: s' rows_of_open)
    then have "outbox_next (Deliver t msgs) (conc_view s) = Some (conc_view s')"
      using held rest shape by (auto simp: holds_batch_def list_all_iff conc_view_def s')
    ultimately show ?thesis using tx True by (simp add: conc_refines_def s')
  qed
qed

lemma commit_lease_refines:
  assumes "conc_ok s" "commit_lease x e s = Next s'"
  shows "conc_refines s Stutter s'"
proof -
  from assms(2) obtain o1 e1 t where tx: "open_txs s x = Some (Taking o1 e1 t)"
    by (auto simp: commit_lease_def split: option.splits open_tx.splits)
  have row: "row_locks s t = Some x" using conc_okD(3) [OF assms(1) tx] by simp
  have "spares x (acquired_db o1 e1 t (committed s)) s"
    using row conc_okD(1) [OF assms(1)] by (auto simp: spares_def schema_ok)
  from conc_ok_end [OF assms(1) this] conc_ok_end_same [OF assms(1)] assms(2) tx
  have "conc_ok s'" by (auto simp: commit_lease_def split: if_splits)
  moreover have "messages (committed s') = messages (committed s)"
      "messages_id_seq (committed s') = messages_id_seq (committed s)" "rows_of y s' = rows_of y s" for y
    using assms(2) tx rows_of_open [OF tx] by (auto simp: commit_lease_def split: if_splits)
  ultimately show ?thesis by (simp add: conc_refines_def conc_view_def reserved_ids_cong [of s' s])
qed

text \<open>Producers.\<close>

lemma number_rows_id_set: "m_ID ` set (number_rows i now vs) = {i..<i + int (length vs)}"
proof -
  have "m_ID ` set (number_rows i now vs) = (\<lambda>k. i + int k) ` {0..<length vs}"
    using arg_cong [OF number_rows_ids [of i now vs], of set] by simp
  also have "\<dots> = {i..<i + int (length vs)}"
  proof (intro equalityI subsetI)
    fix j assume "j \<in> {i..<i + int (length vs)}"
    then have "j = i + int (nat (j - i))" "nat (j - i) < length vs" by auto
    then show "j \<in> (\<lambda>k. i + int k) ` {0..<length vs}" by force
  qed auto
  finally show ?thesis .
qed

lemma number_rows_sorted: "sorted_wrt (<) (map m_ID (number_rows i now vs))"
  by (simp add: number_rows_ids sorted_wrt_map sorted_wrt_mono_rel [OF _ sorted_wrt_upt])

text \<open>How an insert can go: nothing is inserted; or rows are, and the transaction is aborted; or it
  stays open, with the row of the topic locked if the trigger wrote it.\<close>

lemma add_rows_cases:
  assumes "add_rows x o1 e t msgs aopts s = Next s'" "\<And>pub. txPub o1 = Some pub \<Longrightarrow> notifies_only pub"
  obtains (same) "s' = s" "open_txs s x = None"
  | (aborted) n where "s' = s\<lparr>committed := (committed s)\<lparr>messages_id_seq := messages_id_seq (committed s) + int n\<rparr>\<rparr>"
      "open_txs s x = None"
  | (added) docs ns wrote where "open_txs s x = None" "docs \<noteq> []" "fst ` set docs \<subseteq> {t}" "wrote \<Longrightarrow> row_locks s t = None"
      "s' = set_tx x (Added t e (number_rows (messages_id_seq (committed s)) (e_now e AtBegin) docs) ns wrote)
         (s\<lparr>committed := (committed s)\<lparr>messages_id_seq := messages_id_seq (committed s) + int (length docs)\<rparr>,
            row_locks := if wrote then (row_locks s)(t \<mapsto> x) else row_locks s\<rparr>)"
proof -
  let ?d = "committed s"
  let ?e = "e\<lparr>e_topic_locked := (\<lambda>u. row_locks s u \<noteq> None)\<rparr>"
  obtain er store tx where add: "AddMessages o1 ?e t msgs aopts (\<lambda>_. []) (begin_tx ?d) = (er, store, tx)"
    by (metis prod_cases3)
  from assms(1) have free: "open_txs s x = None" "find_topic t ?d = None \<Longrightarrow> row_locks s t = None"
    by (auto simp: add_rows_def split: if_splits)
  let ?rows = "drop (length (messages ?d)) (messages tx)"
  let ?wrote = "find_topic t tx \<noteq> find_topic t ?d"
  let ?s1 = "s\<lparr>committed := rollback ?d tx\<rparr>"
  have s': "s' = (if er \<noteq> None \<or> ?rows = [] then ?s1
      else set_tx x (Added t e ?rows (tx_notifies tx) ?wrote)
        (if ?wrote then ?s1\<lparr>row_locks := (row_locks s)(t \<mapsto> x)\<rparr> else ?s1))"
    using assms(1) free add by (auto simp: add_rows_def Let_def split: if_splits)
  show thesis
  proof (cases rule: AddMessages_rows [OF add assms(2)])
    case 2
    then show thesis using s' free(1) by (intro same) (simp_all add: rollback_def)
  next
    case (3 docs ns)
    let ?new = "number_rows (messages_id_seq ?d) (e_now e AtBegin) docs"
    have rows: "?rows = ?new" "?new \<noteq> []"
      using 3(1,3) by (simp, metis length_0_conv number_rows_length)
    have seq: "rollback ?d tx = ?d\<lparr>messages_id_seq := messages_id_seq ?d + int (length docs)\<rparr>"
      using 3(3) by (simp add: rollback_def)
    have lock: "row_locks s t = None" if "?wrote"
      using that free(2) 3(3) by (auto simp: trigger_find_topic split: option.splits if_splits)
    show thesis
    proof (cases "er = None")
      case True
      show thesis
        by (rule added [of docs ?wrote "tx_notifies tx"]) (use s' free(1) 3(1,2) rows seq lock True in simp_all)
    next
      case False
      with s' seq free(1) show thesis by (intro aborted [of "length docs"]) simp_all
    qed
  qed simp
qed

text \<open>Moving the sequence leaves everything else as it is.\<close>

lemma conc_ok_burn:
  assumes "conc_ok s"
  shows "conc_ok (s\<lparr>committed := (committed s)\<lparr>messages_id_seq := messages_id_seq (committed s) + int n\<rparr>\<rparr>)"
  by (rule conc_ok_other [OF assms])
    (use conc_okD(1) [OF assms] in \<open>auto simp: db_ok_seq intro!: holder_cong\<close>)

lemma conc_ok_add:
  fixes s :: "'a conc" and now :: time
  assumes "conc_ok s" "open_txs s x = None" "docs \<noteq> []" "fst ` set docs \<subseteq> {t}" "wrote \<Longrightarrow> row_locks s t = None"
  defines "new \<equiv> number_rows (messages_id_seq (committed s)) now docs"
  defines "s1 \<equiv> s\<lparr>committed := (committed s)\<lparr>messages_id_seq := messages_id_seq (committed s) + int (length docs)\<rparr>,
    row_locks := if wrote then (row_locks s)(t \<mapsto> x) else row_locks s\<rparr>"
  shows "conc_ok (set_tx x (Added t e new ns wrote) s1)"
proof (rule conc_okI)
  let ?d = "(committed s)\<lparr>messages_id_seq := messages_id_seq (committed s) + int (length docs)\<rparr>"
  have ok: "conc_ok (s\<lparr>committed := ?d\<rparr>)" by (rule conc_ok_burn [OF assms(1)])
  show "db_ok (committed (set_tx x (Added t e new ns wrote) s1))"
    using conc_okD(1) [OF ok] by (simp add: s1_def)
  have rows: "rows_of y s1 = rows_of y s" for y by (simp add: s1_def rows_of_def)
  have fresh: "messages_id_seq (committed s) \<le> m_ID m \<and> m_ID m < messages_id_seq ?d" if "m \<in> set new" for m
    using that number_rows_id_bounds by (auto simp: new_def)
  have other: "own_rows y s" for y by (rule producers_okD(1) [OF conc_okD(5) [OF assms(1)]])
  have "own_rows y (set_tx x (Added t e new ns wrote) s1)" for y
  proof (cases "y = x")
    case True
    have "m_ID m \<notin> m_ID ` set (messages (committed s))" if "m \<in> set new" for m
      using fresh [OF that] db_okD(5) [OF conc_okD(1) [OF assms(1)]] by fastforce
    with True fresh show ?thesis by (simp add: own_rows_def s1_def new_def number_rows_sorted)
  next
    case False
    with other [of y] show ?thesis by (fastforce simp: own_rows_def rows s1_def)
  qed
  moreover have apart: "m_ID ` set new \<inter> m_ID ` set (rows_of y s) = {}" for y
    using fresh other [of y] by (fastforce simp: own_rows_def)
  have "rows_apart y z (set_tx x (Added t e new ns wrote) s1)" if "y \<noteq> z" for y z
    using that apart [of y] apart [of z] producers_okD(2) [OF conc_okD(5) [OF assms(1)] that]
    by (simp add: rows_apart_def rows Int_commute)
  moreover have ne: "new \<noteq> []" using assms(3) by (metis length_0_conv number_rows_length new_def)
  moreover have topic: "m_Topic m = t" if "m \<in> set new" for m
    using that arg_cong [OF number_rows_fields(1) [of "messages_id_seq (committed s)" now docs], of set] assms(4)
    by (auto simp: new_def)
  moreover have "rows \<noteq> [] \<and> (\<forall>m \<in> set rows. m_Topic m = u)"
    if "open_txs (set_tx x (Added t e new ns wrote) s1) y = Some (Added u e' rows ns' wrote')" for y u e' rows ns' wrote'
    using that ne topic producers_okD(3) [OF conc_okD(5) [OF assms(1)], of y u e' rows]
    by (cases "y = x") (auto simp: s1_def)
  ultimately show "producers_ok (set_tx x (Added t e new ns wrote) s1)"
    unfolding producers_ok_def by (intro conjI allI impI) simp_all
next
  fix y ty u msgs
  assume y: "open_txs (set_tx x (Added t e new ns wrote) s1) y = Some ty"
  have holder: "lease_holder v (committed s1) = lease_holder v (committed s)" for v
    by (rule holder_cong) (simp add: s1_def)
  show "batch_held ty = Some (u, msgs) \<Longrightarrow> holds_batch y u msgs (set_tx x (Added t e new ns wrote) s1)"
    using y conc_okD(2) [OF assms(1), of y ty u msgs]
    by (cases "y = x") (auto simp: s1_def holds_batch_def)
  show "row_held ty = Some u \<Longrightarrow> row_locks (set_tx x (Added t e new ns wrote) s1) u = Some y"
    using y assms(5) conc_okD(3) [OF assms(1), of y ty u]
    by (cases "y = x") (auto simp: s1_def split: if_splits)
  show "relies_on ty = Some (c, u) \<Longrightarrow>
      lease_holder u (committed (set_tx x (Added t e new ns wrote) s1)) = Some a \<Longrightarrow> a = c" for c a
    using y conc_okD(4) [OF assms(1), of y ty c u a] holder [of u]
    by (cases "y = x") (auto simp: s1_def)
  show "tx_shape ty"
    using y conc_okD(6) [OF assms(1), of y ty] by (cases "y = x") (auto simp: s1_def)
  show "lease_held ty = Some (u, seen) \<Longrightarrow>
      lease_locks (set_tx x (Added t e new ns wrote) s1) u = Some y \<and>
      find_lease u (committed (set_tx x (Added t e new ns wrote) s1)) = seen" for seen
    using y conc_okD(7,8) [OF assms(1), of y ty u seen] by (cases "y = x") (auto simp: s1_def)
qed

lemma UN_update: "f x = {} \<Longrightarrow> (\<Union>y. if y = x then A else f y) = A \<union> (\<Union>y. f y)"
proof (intro equalityI subsetI)
  fix i assume f: "f x = {}" and i: "i \<in> A \<union> (\<Union>y. f y)"
  show "i \<in> (\<Union>y. if y = x then A else f y)"
  proof (cases "i \<in> A")
    case False
    with i obtain y where "i \<in> f y" by blast
    with f have "y \<noteq> x" by auto
    with \<open>i \<in> f y\<close> show ?thesis by auto
  qed auto
qed (auto split: if_splits)

lemma add_rows_refines:
  assumes "conc_ok s" "\<And>pub. txPub o1 = Some pub \<Longrightarrow> notifies_only pub" "add_rows x o1 e t msgs aopts s = Next s'"
  shows "conc_refines s (conc_action (AddRows x o1 e t msgs aopts) s) s'"
proof (cases rule: add_rows_cases [OF assms(3,2)])
  case 2
  with assms(1,3) show ?thesis by (simp add: conc_refines_def conc_view_def)
next
  case (3 n)
  have "conc_ok s'" unfolding 3(1) by (rule conc_ok_burn [OF assms(1)])
  with 3 assms(3) show ?thesis
    by (simp add: conc_refines_def conc_view_def)
next
  case (4 docs ns wrote)
  let ?new = "number_rows (messages_id_seq (committed s)) (e_now e AtBegin) docs"
  have "conc_ok s'" unfolding 4(5) by (rule conc_ok_add [OF assms(1) 4(1-4)])
  moreover have "rows_of y s' = (if y = x then ?new else rows_of y s)" for y
    by (simp add: 4(5) rows_of_def)
  then have "reserved_ids s' = reserved_ids s \<union> m_ID ` set ?new"
    using UN_update [of "\<lambda>y. m_ID ` set (rows_of y s)" x "m_ID ` set ?new"] rows_of_closed [OF 4(1)]
    by (simp add: reserved_ids_def if_distrib [of "\<lambda>ms. m_ID ` set ms"] Un_commute)
  ultimately show ?thesis
    using assms(3) 4(5) by (simp add: conc_refines_def conc_view_def number_rows_id_set)
qed simp

lemma added_db_simps [simp]:
  "messages (added_db t e rows ns wrote d) = messages d @ rows"
  "messages_id_seq (added_db t e rows ns wrote d) = messages_id_seq d"
  "maintenance_leases (added_db t e rows ns wrote d) = maintenance_leases d"
  "lease_holder u (added_db t e rows ns wrote d) = lease_holder u d"
  by (simp_all add: added_db_def lease_trigger lease_holder_def trigger_find_topic split: option.split)

lemma db_ok_added_db [schema_ok]:
  assumes "db_ok d" "distinct (map m_ID rows)"
    and "\<And>m. m \<in> set rows \<Longrightarrow> m_ID m < messages_id_seq d \<and> m_ID m \<notin> m_ID ` set (messages d)"
  shows "db_ok (added_db t e rows ns wrote d)"
  unfolding added_db_def using db_ok_append_rows [OF assms] by (simp add: schema_ok db_ok_notifies)

lemma commit_rows_refines:
  assumes "conc_ok s" "commit_rows x e s = Next s'"
  shows "conc_refines s (conc_action (CommitRows x e) s) s'"
proof -
  from assms(2) obtain t e1 rows ns wrote where tx: "open_txs s x = Some (Added t e1 rows ns wrote)"
    by (auto simp: commit_rows_def split: option.splits open_tx.splits)
  note open_rows = rows_of_open [OF tx, simplified]
  have own: "own_rows x s" "rows \<noteq> []" "\<forall>m \<in> set rows. m_Topic m = t"
    using producers_okD(1,3) [OF conc_okD(5) [OF assms(1)]] tx by blast+
  let ?d = "added_db t e1 rows ns wrote (committed s)"
  show ?thesis
  proof (cases "outcome_applied (e_outcome e AtCommit)")
    case False
    with assms(2) tx have "s' = end_tx x s" by (simp add: commit_rows_def)
    with conc_refines_end [OF assms(1), of x] tx False show ?thesis by (simp add: open_rows)
  next
    case True
    with assms(2) tx have s': "s' = end_tx x (s\<lparr>committed := ?d\<rparr>)" by (simp add: commit_rows_def)
    have "db_ok ?d"
      using own(1) conc_okD(1) [OF assms(1)]
      by (intro db_ok_added_db) (simp_all add: own_rows_def open_rows sorted_ids_distinct)
    then have "spares x ?d s" by (auto simp: spares_def open_rows)
    from conc_ok_end [OF assms(1) this] have "conc_ok s'" by (simp add: s')
    moreover have "m_ID m \<in> reserved_ids s" if "m \<in> set rows" for m
      using reserved_idsI [OF tx that] .
    then have "outbox_next (Publish_Reserved t rows) (conc_view s) = Some (conc_view s')"
      using own reserved_ids_end [OF conc_okD(5) [OF assms(1)], of x ?d]
      by (simp add: conc_view_def s' list_all_iff own_rows_def open_rows)
    ultimately show ?thesis using tx True by (simp add: conc_refines_def)
  qed
qed

text \<open>Maintenance.\<close>

lemma hold_lease_refines:
  assumes "conc_ok s" "hold_lease x o1 e t ttl s = Next s'"
  shows "conc_refines s Stutter s'"
proof -
  define opened where "opened = set_tx x (Holding o1 e t ttl (find_lease t (committed s)))
    (s\<lparr>lease_locks := (lease_locks s)(t \<mapsto> x)\<rparr>)"
  from assms(2) consider "s' = s" | "s' = opened" "lease_locks s t = None" "open_txs s x = None"
    by (auto simp: hold_lease_def opened_def split: if_splits)
  then show ?thesis
  proof cases
    case 1
    with assms(1) show ?thesis by (simp add: conc_refines_same)
  next
    case 2
    have "conc_ok opened"
      by (rule conc_ok_set [OF assms(1)]) (use 2(2) in \<open>auto simp: opened_def split: if_splits\<close>)
    with 2(1,3) show ?thesis by (simp add: conc_refines_same opened_def rows_of_closed)
  qed
qed

lemma expired_rows_mem:
  "m \<in> set (expired_rows t cutoff d) \<longleftrightarrow> m \<in> set (messages d) \<and> m_Topic m = t \<and> m_InsertedAt m < cutoff"
  by (auto simp: expired_rows_def)

lemma purge_rows_refines:
  assumes "conc_ok s" "purge_rows x s = Next s'"
  shows "conc_refines s Stutter s'"
proof -
  from assms(2) obtain o1 e t ttl seen where tx: "open_txs s x = Some (Holding o1 e t ttl seen)"
    by (auto simp: purge_rows_def split: option.splits open_tx.splits)
  let ?cutoff = "e_clock e AtDeleteExpiredMessages - ttl"
  define msgs where "msgs = expired_rows t ?cutoff (committed s)"
  from assms(2) tx have s': "s' = set_tx x (Purged o1 e t ?cutoff msgs seen)
      (s\<lparr>msg_locks := (\<lambda>i. if i \<in> m_ID ` set msgs then Some x else msg_locks s i)\<rparr>)"
    and free: "\<not> deletes_locked t ?cutoff s"
    by (auto simp: purge_rows_def Let_def msgs_def split: if_splits)
  have mem: "m \<in> set (messages (committed s)) \<and> m_Topic m = t \<and> m_InsertedAt m < ?cutoff \<and> msg_locks s (m_ID m) = None"
    if "m \<in> set msgs" for m
    using that free by (auto simp: msgs_def expired_rows_mem deletes_locked_def list_ex_iff)
  have dist: "distinct msgs"
    using db_okD(4) [OF conc_okD(1) [OF assms(1)]] by (simp add: msgs_def expired_rows_def distinct_map)
  have kept: "msg_locks s' i = Some y" if "msg_locks s i = Some y" for i y
    using that mem by (fastforce simp: s')
  from assms(1) have "conc_ok s'"
  proof (rule conc_ok_set)
    show "holds_batch x t' msgs' s'" if "batch_held (Purged o1 e t ?cutoff msgs seen) = Some (t', msgs')" for t' msgs'
      using that mem by (auto simp: holds_batch_def s')
  qed (use kept mem dist conc_okD(7,8) [OF assms(1) tx] in \<open>auto simp: s'\<close>)
  then show ?thesis using tx by (simp add: conc_refines_same s' rows_of_open)
qed

lemma purged_db_simps [simp]:
  "messages (purged_db o1 e t msgs d) =
     delete_where (\<lambda>m. m_Topic m = t \<and> m_ID m \<in> m_ID ` set msgs) (messages d)"
  "messages_id_seq (purged_db o1 e t msgs d) = messages_id_seq d"
  "topics (purged_db o1 e t msgs d) = topics d"
  "find_lease u (purged_db o1 e t msgs d) =
     (if u = t then Some \<lparr>l_Topic = t, l_HolderID = instanceID o1, l_AcquiredAt = e_now e AtBegin\<rparr>
      else find_lease u d)"
  by (simp_all add: purged_db_def DeleteMessagesByIds_def)
    (cases "find_lease u d"; auto dest: find_row_key)

lemma db_ok_purged_db [schema_ok]: "db_ok d \<Longrightarrow> db_ok (purged_db o1 e t msgs d)"
  by (simp add: purged_db_def schema_ok)

lemma commit_purge_refines:
  assumes "conc_ok s" "commit_purge x e s = Next s'"
  shows "conc_refines s (conc_action (CommitPurge x e) s) s'"
proof -
  from assms(2) obtain o1 e1 t cutoff msgs seen where tx: "open_txs s x = Some (Purged o1 e1 t cutoff msgs seen)"
    by (auto simp: commit_purge_def split: option.splits open_tx.splits)
  have held: "holds_batch x t msgs s" using conc_okD(2) [OF assms(1) tx] by simp
  have shape: "distinct msgs" "\<forall>m \<in> set msgs. m_InsertedAt m < cutoff"
    using conc_okD(6) [OF assms(1) tx] by simp_all
  have lease: "lease_locks s t = Some x" using conc_okD(7) [OF assms(1) tx] by simp
  let ?d = "purged_db o1 e1 t msgs (committed s)"
  show ?thesis
  proof (cases "outcome_applied (e_outcome e AtCommit)")
    case False
    with assms(2) tx have "s' = end_tx x s" by (simp add: commit_purge_def)
    with conc_refines_end_plain [OF assms(1)] tx False show ?thesis by (simp add: rows_of_open)
  next
    case True
    with assms(2) tx have s': "s' = end_tx x (s\<lparr>committed := ?d\<rparr>)" by (simp add: commit_purge_def)
    have rest: "messages ?d = filter (\<lambda>m. m \<notin> set msgs) (messages (committed s))"
      using held delete_batch [OF conc_okD(1) [OF assms(1)], of msgs t] by (simp add: holds_batch_def)
    have holder: "lease_holder u ?d = lease_holder u (committed s)" for u
      by (rule holder_cong) simp
    have "spares x ?d s"
      using held lease holder conc_okD(1) [OF assms(1)] unfolding spares_def rest
      by (auto simp: holds_batch_def schema_ok simp del: purged_db_simps(1))
    from conc_ok_end [OF assms(1) this] have "conc_ok s'" by (simp add: s')
    moreover have "reserved_ids s' = reserved_ids s"
      using reserved_ids_end [OF conc_okD(5) [OF assms(1)], of x ?d] tx by (simp add: s' rows_of_open)
    then have "outbox_next (Expire_Batch t cutoff msgs) (conc_view s) = Some (conc_view s')"
      using held rest shape by (auto simp: holds_batch_def list_all_iff conc_view_def s')
    ultimately show ?thesis using tx True by (simp add: conc_refines_def s')
  qed
qed

text \<open>Everything else keeps the messages that a consumer has locked, and the holder of every topic.\<close>

lemma maintained_keeps_locked:
  assumes "\<not> deletes_locked t (e_clock e AtDeleteExpiredMessages - ttl) s"
    and "d1 = committed s \<or> d1 = maintained_db o1 e t ttl (committed s)"
    and "m \<in> set (messages (committed s))" "msg_locks s (m_ID m) \<noteq> None"
  shows "m \<in> set (messages d1)"
  using assms by (auto simp: deletes_locked_def list_ex_iff delete_where_def)

lemma other_keeps_locked:
  assumes "op_ok op1" "db_ok (committed s)" "\<not> must_wait op1 s"
    and "m \<in> set (messages (committed s))" "msg_locks s (m_ID m) = Some y"
  shows "m \<in> set (messages (fleet_step (sees_locks s op1) (committed s)))"
proof (cases op1)
  case (Produce o1 e t msgs aopts undo)
  let ?e = "e\<lparr>e_topic_locked := (\<lambda>t. row_locks s t \<noteq> None)\<rparr>"
  have ok: "op_ok (Produce o1 ?e t msgs aopts undo)" using assms(1) Produce by simp
  show ?thesis
    by (cases rule: Produce_cases [OF ok assms(2)]) (use assms(4) in \<open>simp_all add: Produce\<close>)
next
  case (MaintainRound o1 e t ttl)
  with maintained_keeps_locked [OF _ MaintainRound_db assms(4), of t e ttl o1] assms(3,5)
  show ?thesis by simp
next
  case (FinishDormant o1 e t ttl)
  obtain d1 where d1: "d1 = committed s \<or> d1 = maintained_db o1 e t ttl (committed s)"
    and step: "finishDormantTopic o1 e t ttl (committed s) = d1 \<or>
      finishDormantTopic o1 e t ttl (committed s) = ReleaseMaintenanceLease t (instanceID o1) d1"
    by (rule FinishDormant_db [of "committed s" o1 e t ttl])
  have "m \<in> set (messages d1)"
    using maintained_keeps_locked [OF _ d1 assms(4)] assms(3,5) FinishDormant by simp
  with step show ?thesis by (auto simp: FinishDormant)
qed (use assms quiet_steps [of "committed s"] in \<open>auto simp: quiet_change_def simp del: fleet_step.simps\<close>)

lemma other_keeps_leases:
  assumes "op_ok op1" "db_ok (committed s)" "\<not> must_wait op1 s" "lease_locks s t \<noteq> None"
  shows "find_lease t (fleet_step (sees_locks s op1) (committed s)) = find_lease t (committed s)"
proof (cases op1)
  case (Produce o1 e u msgs aopts undo)
  let ?e = "e\<lparr>e_topic_locked := (\<lambda>t. row_locks s t \<noteq> None)\<rparr>"
  have ok: "op_ok (Produce o1 ?e u msgs aopts undo)" using assms(1) Produce by simp
  show ?thesis
    by (cases rule: Produce_cases [OF ok assms(2)]) (simp_all add: Produce)
next
  case (Scan o1 e lc mg)
  let ?op = "Scan o1 (e\<lparr>e_lease_locked := (\<lambda>t. lease_locks s t \<noteq> None)\<rparr>) lc mg"
  show ?thesis
  proof (cases "find_lease t (committed s)")
    case None
    have waits: "\<not> inserts_lease op1 s" using assms(3) Scan by simp
    have "find_lease t (fleet_step (sees_locks s op1) (committed s)) \<noteq> Some l" for l
    proof
      assume "find_lease t (fleet_step (sees_locks s op1) (committed s)) = Some l"
      from find_row_SomeD [OF this]
      have "l \<in> set (maintenance_leases (fleet_step (sees_locks s op1) (committed s)))" "l_Topic l = t"
        by blast+
      with waits None assms(4) show False unfolding inserts_lease_def list_ex_iff by blast
    qed
    then have "find_lease t (fleet_step (sees_locks s op1) (committed s)) = None" by (metis option.exhaust)
    then show ?thesis using None by simp
  next
    case (Some l)
    then show ?thesis
      using scan_lease [of "e\<lparr>e_lease_locked := (\<lambda>t. lease_locks s t \<noteq> None)\<rparr>" t "committed s" o1 lc mg] assms(4)
      by (simp add: Scan del: fleet_step.simps)
  qed
next
  case (MaintainRound o1 e u ttl)
  with assms(3,4) have "t \<noteq> u" by auto
  then show ?thesis unfolding MaintainRound sees_locks.simps by (rule MaintainRound_lease)
next
  case (FinishDormant o1 e u ttl)
  with assms(3,4) have "t \<noteq> u" by auto
  then show ?thesis unfolding FinishDormant sees_locks.simps using assms(2) by (rule FinishDormant_lease)
qed (use assms(3) in \<open>simp_all add: other_leases del: fleet_step.simps\<close>)

text \<open>An action that does not touch the reserved identities does not mind them.\<close>

fun spares_reserved :: "outbox_action \<Rightarrow> bool" where
  "spares_reserved (Reserve n) = False"
| "spares_reserved (Release_Reserved ids) = False"
| "spares_reserved (Publish_Reserved t ms) = False"
| "spares_reserved a = True"

lemma outbox_next_frame:
  "outbox_next a s = Some s' \<Longrightarrow> spares_reserved a \<Longrightarrow>
     outbox_next a (s\<lparr>reserved := R\<rparr>) = Some (s'\<lparr>reserved := R\<rparr>)"
  by (cases a) (auto split: if_splits)

lemma outbox_next_pending:
  "outbox_next a s = Some s' \<Longrightarrow> m \<in> set (pending s') \<Longrightarrow> m \<in> set (pending s) \<or> m \<in> set (act_published a)"
  by (cases a) (auto split: if_splits)

lemma fleet_action_spares: "spares_reserved (fleet_action op1 d)"
  by (cases op1) (simp_all add: fleet_action_def Let_def)

lemma conc_view_alt: "conc_view s = (outbox_of (committed s))\<lparr>reserved := reserved_ids s\<rparr>"
  by (simp add: conc_view_def outbox_of_def)

lemma other_step_refines:
  assumes "conc_ok s" "op_ok op1" "other_step op1 s = Next s'"
  shows "conc_refines s (conc_action (Other op1) s) s'"
proof -
  let ?d' = "fleet_step (sees_locks s op1) (committed s)"
  let ?a = "fleet_action (sees_locks s op1) (committed s)"
  from assms(3) have s': "s' = s\<lparr>committed := ?d'\<rparr>" and go: "\<not> must_wait op1 s"
    by (auto simp: other_step_def split: if_splits)
  have ok: "db_ok (committed s)" by (rule conc_okD(1) [OF assms(1)])
  have op_ok: "op_ok (sees_locks s op1)" using assms(2) by (cases op1) auto
  have ref: "db_ok ?d'" "outbox_next ?a (outbox_of (committed s)) = Some (outbox_of ?d')"
    using step_refines [OF op_ok ok] by (simp_all add: refines_def)
  have holder: "lease_holder t ?d' = lease_holder t (committed s)" for t
    using step_holder [OF op_ok ok, of t] go by (cases op1) auto
  have seq: "messages_id_seq (committed s) \<le> messages_id_seq ?d'"
    using outbox_published_ids(1) [OF ref(2)] by simp
  have new: "m \<in> set (messages (committed s)) \<or> messages_id_seq (committed s) \<le> m_ID m" if "m \<in> set (messages ?d')" for m
    using outbox_next_pending [OF ref(2), of m] outbox_published_ids(4) [OF ref(2), of m] that by auto
  have "conc_ok s'"
    unfolding s' by (rule conc_ok_other [OF assms(1) ref(1) other_keeps_locked [OF assms(2) ok go] holder seq new
        other_keeps_leases [OF assms(2) ok go]])
  moreover have "outbox_next ?a (conc_view s) = Some (conc_view s')"
    using outbox_next_frame [OF ref(2) fleet_action_spares, of "reserved_ids s"]
    unfolding conc_view_alt by (simp add: s')
  ultimately show ?thesis using go by (simp add: conc_refines_def)
qed

lemma conc_step_refines:
  assumes "conc_ok s" "stmt_ok st" "conc_step st s = Next s'"
  shows "conc_refines s (conc_action st s) s'"
proof (cases st)
  case (RollBack x)
  with assms show ?thesis by (auto simp: roll_back_def conc_refines_end split: if_splits)
next
  case (AddRows x o1 e t msgs aopts)
  with assms(2) have pub: "txPub o1 = Some pub \<Longrightarrow> notifies_only pub" for pub by simp
  show ?thesis unfolding AddRows by (rule add_rows_refines [OF assms(1) pub]) (use assms(3) AddRows in simp_all)
qed (use assms check_access_refines lock_batch_refines flush_batch_refines commit_batch_refines take_lease_refines
      commit_lease_refines commit_rows_refines other_step_refines hold_lease_refines purge_rows_refines
      commit_purge_refines in \<open>auto simp del: conc_action.simps(1-6)\<close>)

end
