(* ===== verification/Interleaving.thy ===== *)
theory Interleaving
  imports Lock_Invariants
begin

text \<open>
  Runs of the statements of \<open>Row_Locks\<close>: any schedule of any number of open transactions refines the
  abstract outbox (the interpretation \<open>conc\<close>), so the promises of the outbox hold of interleaved
  transactions; what a consumer can rely on while it has the row of its topic; that a transaction
  with the row never waits again; and the one case in which there is no row to lock.
\<close>

section \<open>Runs\<close>

text \<open>A statement that waits changes nothing and is the outbox's idle step.\<close>

definition conc_act :: "'a stmt \<Rightarrow> 'a conc \<Rightarrow> outbox_action" where
  "conc_act st s = (case conc_step st s of Next s' \<Rightarrow> conc_action st s | _ \<Rightarrow> Stutter)"

lemma conc_next_refines:
  "conc_ok s \<Longrightarrow> stmt_ok st \<Longrightarrow> conc_refines s (conc_act st s) (conc_next st s)"
  by (auto simp: conc_act_def conc_next_def conc_step_refines conc_refines_same split: step_result.split)

interpretation conc: outbox_refinement conc_next stmt_ok conc_ok conc_view conc_act
proof unfold_locales
  fix st :: "'a stmt" and s :: "'a conc"
  assume "stmt_ok st" "conc_ok s"
  then show "conc_ok (conc_next st s)"
    "outbox_next (conc_act st s) (conc_view s) = Some (conc_view (conc_next st s))"
    using conc_next_refines [of s st] by (simp_all add: conc_refines_def)
next
  fix s :: "'a conc" and m i
  assume s: "conc_ok s"
  then have "db_ok (committed s)" by (rule conc_okD(1))
  then show "distinct (map m_ID (pending (conc_view s)))"
    "m \<in> set (pending (conc_view s)) \<Longrightarrow> m_ID m < next_id (conc_view s)"
    using db_okD(4,5) by (simp_all add: conc_view_def)
  show "i \<in> reserved (conc_view s) \<Longrightarrow> i < next_id (conc_view s) \<and> i \<notin> m_ID ` set (pending (conc_view s))"
    using producers_okD(1) [OF conc_okD(5) [OF s]] by (auto simp: conc_view_def reserved_ids_def own_rows_def)
qed

lemma conc_run_ok:
  assumes "list_all stmt_ok sts" "db_ok d"
  shows "conc_ok (conc_run sts (conc_start d))"
  unfolding conc_run_def using assms(1) conc_ok_start [OF assms(2)] by (rule conc.run_inv)

definition conc_delivered :: "'a stmt list \<Rightarrow> 'a conc \<Rightarrow> Message list" where
  "conc_delivered = run_delivered conc_next conc_act"

definition conc_expired :: "'a stmt list \<Rightarrow> 'a conc \<Rightarrow> Message list" where
  "conc_expired = run_expired conc_next conc_act conc_view"

definition conc_published :: "'a stmt list \<Rightarrow> 'a conc \<Rightarrow> Message list" where
  "conc_published = run_published conc_next conc_act"

lemma conc_view_simps [simp]:
  "pending (conc_view s) = messages (committed s)" "next_id (conc_view s) = messages_id_seq (committed s)"
  "reserved (conc_view s) = reserved_ids s"
  by (simp_all add: conc_view_def)

lemma conc_run_append: "conc_run (xs @ ys) s = conc_run ys (conc_run xs s)"
  by (simp add: conc_run_def)

lemma collect_append: "collect f step (xs @ ys) s = collect f step xs s @ collect f step ys (fold step xs s)"
  by (induction xs arbitrary: s) simp_all

section \<open>Properties\<close>

text \<open>
  C8: Interleaving the statements of the transactions does not break the outbox: after any schedule
  of checks, locked reads, flushes, inserts, commits, rollbacks, attempts on leases and all other
  operations, the next statement of anybody is again an enabled action of the abstract outbox: an
  insert reserves fresh identities, the commit of a producer publishes under identities it has
  reserved, its rollback gives them up, the commit of a consumer delivers a batch all of which is
  still pending, and everything else of them is idle.
\<close>

theorem interleaving_refines_outbox:
  assumes "list_all stmt_ok sts" "db_ok d" "stmt_ok st"
  shows "outbox_next (conc_act st (conc_run sts (conc_start d))) (conc_view (conc_run sts (conc_start d))) =
    Some (conc_view (conc_next st (conc_run sts (conc_start d))))"
  using conc.refines_step [OF assms(3) conc_run_ok [OF assms(1,2)]] .

text \<open>
  C4: \<open>FOR UPDATE SKIP LOCKED\<close> gives exactly-once delivery between consumers that run at the same
  time: over every schedule of statements, however the transactions of however many instances
  overlap, no identity is delivered twice, delivered and expired, or still stored after either.
\<close>

theorem interleaved_delivers_once:
  assumes "list_all stmt_ok sts" "db_ok d"
  shows "distinct (map m_ID (messages (committed (conc_run sts (conc_start d))) @
    conc_delivered sts (conc_start d) @ conc_expired sts (conc_start d)))"
  using conc.run_once [OF assms(1) conc_ok_start [OF assms(2)]]
  by (simp add: conc_run_def conc_delivered_def conc_expired_def)

text \<open>
  C5: The outbox's guarantee across open transactions: over every schedule, the messages stored at the
  start and those that a producer's commit made visible are, as multisets, those still stored,
  those delivered and those expired; what a transaction inserts and has not committed is none of
  them.
\<close>

theorem interleaved_conserves_messages:
  assumes "list_all stmt_ok sts" "db_ok d"
  shows "mset (messages d) + mset (conc_published sts (conc_start d)) =
    mset (messages (committed (conc_run sts (conc_start d)))) + mset (conc_delivered sts (conc_start d)) +
    mset (conc_expired sts (conc_start d))"
  using conc.run_conserves [OF assms(1) conc_ok_start [OF assms(2)]]
  by (simp add: conc_run_def conc_delivered_def conc_expired_def conc_published_def) (simp add: conc_start_def)

text \<open>
  C6: A message whose transaction rolls back is never delivered: whatever happened before, while the
  transaction was open, and whatever follows, no consumer is ever handed a message with one of its
  identities, and none is ever stored.
\<close>

theorem rolled_back_never_delivered:
  assumes "list_all stmt_ok sts" "list_all stmt_ok sts'" "db_ok d"
    and "open_txs (conc_run sts (conc_start d)) x = Some (Added t e rows ns wrote)" "m \<in> set rows"
  shows "m_ID m \<notin> m_ID ` set (conc_delivered (sts @ RollBack x # sts') (conc_start d)) \<and>
    m_ID m \<notin> m_ID ` set (messages (committed (conc_run (sts @ RollBack x # sts') (conc_start d))))"
proof -
  let ?s = "conc_run sts (conc_start d)"
  let ?s' = "end_tx x ?s"
  have run: "fold conc_next sts (conc_start d) = ?s" by (simp add: conc_run_def)
  have ok: "conc_ok ?s" "conc_ok ?s'"
    using conc_run_ok [OF assms(1,3)] by (simp_all add: conc_ok_end_same)
  have undone: "conc_next (RollBack x) ?s = ?s'" "act_delivered (conc_act (RollBack x) ?s) = []"
    using assms(4) by (simp_all add: conc_next_def conc_act_def roll_back_def)
  have taken: "m_ID m \<in> reserved_ids ?s"
    using assms(4,5) by (rule reserved_idsI)
  then have "m_ID m < next_id (conc_view ?s')" "m_ID m \<notin> reserved (conc_view ?s')"
      "m_ID m \<notin> m_ID ` set (pending (conc_view ?s'))"
    using conc.inv_reserved [OF ok(1), of "m_ID m"] assms(5) rows_of_open [OF assms(4)]
      reserved_ids_end [OF conc_okD(5) [OF ok(1)], of x "committed ?s"]
    by simp_all
  from conc.run_gone [OF assms(2) ok(2) this] have after:
    "m_ID m \<notin> m_ID ` set (messages (committed (conc_run sts' ?s')))" "m_ID m \<notin> m_ID ` set (conc_delivered sts' ?s')"
    by (auto simp: conc_run_def conc_delivered_def)
  have before: "m_ID m \<notin> m_ID ` set (conc_delivered sts (conc_start d))"
    using conc.run_delivered_unreserved [OF assms(1) conc_ok_start [OF assms(3)]] taken
    by (auto simp: conc_delivered_def run)
  have "conc_delivered (sts @ RollBack x # sts') (conc_start d) =
      conc_delivered sts (conc_start d) @ conc_delivered sts' ?s'"
    by (simp add: conc_delivered_def collect_append run undone)
  moreover have "conc_run (sts @ RollBack x # sts') (conc_start d) = conc_run sts' ?s'"
    using undone(1) by (simp add: conc_run_def)
  ultimately show ?thesis using before after by auto
qed

text \<open>
  C7: The gap that the row lock closes: a consumer whose check found the row of the topic can rely on
  it until it commits. Whatever the others do, while its transaction is open the topic has no
  holder or its own instance as the holder, and nobody has a lease on the topic written and
  uncommitted.
\<close>

theorem lease_held_to_commit:
  assumes "list_all stmt_ok sts" "db_ok d"
    and "open_txs (conc_run sts (conc_start d)) x = Some (Flushed o1 t True msgs)"
  shows "lease_holder t (committed (conc_run sts (conc_start d))) \<in> {None, Some (instanceID o1)} \<and>
    open_txs (conc_run sts (conc_start d)) y \<noteq> Some (Taking o2 e2 t)"
proof
  let ?s = "conc_run sts (conc_start d)"
  have ok: "conc_ok ?s" by (rule conc_run_ok [OF assms(1,2)])
  show "lease_holder t (committed ?s) \<in> {None, Some (instanceID o1)}"
    using conc_okD(4) [OF ok assms(3)] by (cases "lease_holder t (committed ?s)") simp_all
  show "open_txs ?s y \<noteq> Some (Taking o2 e2 t)"
    using conc_okD(3) [OF ok assms(3)] conc_okD(3) [OF ok, of y "Taking o2 e2 t"] assms(3) by auto
qed

text \<open>What the remaining statements of a transaction do.\<close>

lemma own_stmts_closed [simp]:
  assumes "open_txs s x = None"
  shows "conc_next (LockBatch x) s = s" "conc_next (FlushBatch x) s = s" "conc_next (CommitBatch x e) s = s"
    "conc_next (CommitLease x e) s = s" "conc_next (CommitRows x e) s = s" "conc_next (CommitPurge x e) s = s"
  using assms by (simp_all add: conc_next_def lock_batch_def flush_batch_def commit_batch_def commit_lease_def
      commit_rows_def commit_purge_def)

lemma own_stmts_later [simp]:
  "open_txs s x = Some (Claimed o1 f t locked msgs) \<Longrightarrow> conc_next (LockBatch x) s = s"
  "open_txs s x = Some (Flushed o1 t locked msgs) \<Longrightarrow> conc_next (LockBatch x) s = s"
  "open_txs s x = Some (Flushed o1 t locked msgs) \<Longrightarrow> conc_next (FlushBatch x) s = s"
  "open_txs s x = Some (Taking o1 e1 t) \<Longrightarrow> conc_next (LockBatch x) s = s"
  "open_txs s x = Some (Taking o1 e1 t) \<Longrightarrow> conc_next (FlushBatch x) s = s"
  "open_txs s x = Some (Taking o1 e1 t) \<Longrightarrow> conc_next (CommitBatch x e) s = s"
  "open_txs s x = Some (Taking o1 e1 t) \<Longrightarrow> open_txs (conc_next (CommitLease x e) s) x = None"
  "open_txs s x = Some (Added t e1 rows ns wrote) \<Longrightarrow> conc_next (LockBatch x) s = s"
  "open_txs s x = Some (Added t e1 rows ns wrote) \<Longrightarrow> conc_next (FlushBatch x) s = s"
  "open_txs s x = Some (Added t e1 rows ns wrote) \<Longrightarrow> conc_next (CommitBatch x e) s = s"
  "open_txs s x = Some (Added t e1 rows ns wrote) \<Longrightarrow> conc_next (CommitLease x e) s = s"
  "open_txs s x = Some (Added t e1 rows ns wrote) \<Longrightarrow> open_txs (conc_next (CommitRows x e) s) x = None"
  "open_txs s x = Some (Purged o1 e1 t cutoff msgs seen) \<Longrightarrow> conc_next (LockBatch x) s = s"
  "open_txs s x = Some (Purged o1 e1 t cutoff msgs seen) \<Longrightarrow> conc_next (FlushBatch x) s = s"
  "open_txs s x = Some (Purged o1 e1 t cutoff msgs seen) \<Longrightarrow> conc_next (CommitBatch x e) s = s"
  "open_txs s x = Some (Purged o1 e1 t cutoff msgs seen) \<Longrightarrow> conc_next (CommitLease x e) s = s"
  "open_txs s x = Some (Purged o1 e1 t cutoff msgs seen) \<Longrightarrow> conc_next (CommitRows x e) s = s"
  "open_txs s x = Some (Purged o1 e1 t cutoff msgs seen) \<Longrightarrow> open_txs (conc_next (CommitPurge x e) s) x = None"
  by (simp_all add: conc_next_def lock_batch_def flush_batch_def commit_batch_def commit_lease_def commit_rows_def
      commit_purge_def)

lemma ends_flushed:
  assumes "open_txs s x = Some (Flushed o1 t locked msgs)" "row_locks s t = Some x"
  shows "open_txs (conc_run [CommitBatch x e, CommitLease x e, CommitRows x e, CommitPurge x e] s) x = None"
proof -
  have "open_txs (conc_next (CommitBatch x e) s) x = None"
    using assms by (simp add: conc_next_def commit_batch_def bump_waits_def split: option.split)
  then show ?thesis by (simp add: conc_run_def)
qed

lemma ends_claimed:
  assumes "open_txs s x = Some (Claimed o1 f t locked msgs)" "row_locks s t = Some x"
  shows "open_txs (conc_run [FlushBatch x, CommitBatch x e, CommitLease x e, CommitRows x e, CommitPurge x e] s) x = None"
proof (cases "fst (f msgs (begin_tx (committed s)))")
  case None
  with assms have "conc_next (FlushBatch x) s = set_tx x (Flushed o1 t locked msgs) s"
    by (simp add: conc_next_def flush_batch_def)
  with ends_flushed [of "set_tx x (Flushed o1 t locked msgs) s"] assms(2) show ?thesis by (simp add: conc_run_def)
next
  case (Some er)
  with assms have "conc_next (FlushBatch x) s = end_tx x s"
    by (simp add: conc_next_def flush_batch_def)
  then show ?thesis by (simp add: conc_run_def)
qed

lemma ends_validated:
  assumes "open_txs s x = Some (Validated o1 f t popts locked)" "row_locks s t = Some x"
  shows "open_txs (conc_run [LockBatch x, FlushBatch x, CommitBatch x e, CommitLease x e, CommitRows x e, CommitPurge x e] s) x = None"
proof -
  define msgs where "msgs = AcquireMessagesByTopic (\<lambda>_ i. msg_locks s i \<noteq> None) t
      (Some (sint (batchSize (process_opts popts)))) (committed s)"
  define g where "g = (\<lambda>i. if i \<in> m_ID ` set msgs then Some x else msg_locks s i)"
  have "conc_next (LockBatch x) s = (if msgs = [] then end_tx x s
      else set_tx x (Claimed o1 f t locked msgs) (s\<lparr>msg_locks := g\<rparr>))"
    using assms(1) by (simp add: conc_next_def lock_batch_def Let_def msgs_def g_def)
  then consider "conc_next (LockBatch x) s = end_tx x s"
    | "conc_next (LockBatch x) s = set_tx x (Claimed o1 f t locked msgs) (s\<lparr>msg_locks := g\<rparr>)"
    by presburger
  then show ?thesis
  proof cases
    case 1
    then show ?thesis by (simp add: conc_run_def)
  next
    case 2
    with ends_claimed [of "set_tx x (Claimed o1 f t locked msgs) (s\<lparr>msg_locks := g\<rparr>)"] assms(2)
    show ?thesis by (simp add: conc_run_def)
  qed
qed

text \<open>The lease that an open transaction of maintenance took comes from a statement of the schedule that
  found it free.\<close>

fun maintains :: "'a open_tx \<Rightarrow> ('a outboxImpl \<times> env \<times> topic \<times> time \<times> MaintenanceLease option) option" where
  "maintains (Holding o1 e t ttl seen) = Some (o1, e, t, e_clock e AtDeleteExpiredMessages - ttl, seen)"
| "maintains (Purged o1 e t cutoff msgs seen) = Some (o1, e, t, cutoff, seen)"
| "maintains tx = None"

lemma maintains_step:
  assumes "open_txs (conc_next st s) x = Some tx" "maintains tx = Some (o1, e, t, cutoff, seen)"
    and "\<And>tx0. open_txs s x = Some tx0 \<Longrightarrow> maintains tx0 \<noteq> Some (o1, e, t, cutoff, seen)"
  shows "\<exists>ttl. st = HoldLease x o1 e t ttl \<and> cutoff = e_clock e AtDeleteExpiredMessages - ttl \<and>
    \<not> maintenance_contended o1 e t (committed s) \<and> seen = find_lease t (committed s)"
proof -
  have new: "open_txs s x \<noteq> Some tx" using assms(2,3) by blast
  show ?thesis
  proof (cases st)
    case (HoldLease y o2 e2 u ttl)
    with assms new show ?thesis
      by (auto simp: conc_next_def hold_lease_def split: if_splits)
  next
    case (PurgeRows y)
    with assms new show ?thesis
      by (fastforce simp: conc_next_def purge_rows_def Let_def split: if_splits option.splits open_tx.splits step_result.splits)
  qed (use assms(1,2) new in \<open>auto simp: conc_next_def check_access_def lock_batch_def flush_batch_def commit_batch_def
      take_lease_def commit_lease_def add_rows_def commit_rows_def commit_purge_def roll_back_def other_step_def Let_def
      split: if_splits option.splits open_tx.splits step_result.splits prod.splits\<close>)
qed

lemma maintains_origin:
  assumes "open_txs (conc_run sts (conc_start d)) x = Some tx" "maintains tx = Some (o1, e, t, cutoff, seen)"
  shows "\<exists>sts1 sts2 ttl. sts = sts1 @ HoldLease x o1 e t ttl # sts2 \<and>
    cutoff = e_clock e AtDeleteExpiredMessages - ttl \<and>
    \<not> maintenance_contended o1 e t (committed (conc_run sts1 (conc_start d))) \<and>
    find_lease t (committed (conc_run sts1 (conc_start d))) = seen"
  using assms
proof (induction sts arbitrary: tx rule: rev_induct)
  case Nil
  then show ?case by (simp add: conc_run_def conc_start_def)
next
  case (snoc st sts)
  show ?case
  proof (cases "\<exists>tx0. open_txs (conc_run sts (conc_start d)) x = Some tx0 \<and>
      maintains tx0 = Some (o1, e, t, cutoff, seen)")
    case True
    with snoc.IH obtain sts1 sts2 ttl where "sts = sts1 @ HoldLease x o1 e t ttl # sts2"
      "cutoff = e_clock e AtDeleteExpiredMessages - ttl"
      "\<not> maintenance_contended o1 e t (committed (conc_run sts1 (conc_start d)))"
      "find_lease t (committed (conc_run sts1 (conc_start d))) = seen"
      by blast
    then show ?thesis by (intro exI [of _ sts1] exI [of _ "sts2 @ [st]"] exI [of _ ttl]) simp
  next
    case False
    with maintains_step [of st "conc_run sts (conc_start d)" x tx o1 e t cutoff seen] snoc.prems
    obtain ttl where "st = HoldLease x o1 e t ttl" "cutoff = e_clock e AtDeleteExpiredMessages - ttl"
      "\<not> maintenance_contended o1 e t (committed (conc_run sts (conc_start d)))"
      "seen = find_lease t (committed (conc_run sts (conc_start d)))"
      by (auto simp: conc_run_def)
    then show ?thesis by (intro exI [of _ sts] exI [of _ "[]"] exI [of _ ttl]) simp
  qed
qed

text \<open>
  C18: Maintenance deletes under a lease that stays its own: while an open transaction has deleted the
  expired messages of a topic and not committed, the row of the lease is the one that its check
  found, free, lapsed or its own, whatever ran in between; what it has deleted is still stored, old
  enough and locked, so no consumer can claim it.
\<close>

theorem purge_under_own_lease:
  assumes "list_all stmt_ok sts" "db_ok d"
    and "open_txs (conc_run sts (conc_start d)) x = Some (Purged o1 e t cutoff msgs seen)"
  shows "(\<exists>sts1 sts2 ttl. sts = sts1 @ HoldLease x o1 e t ttl # sts2 \<and>
      cutoff = e_clock e AtDeleteExpiredMessages - ttl \<and>
      \<not> maintenance_contended o1 e t (committed (conc_run sts1 (conc_start d))) \<and>
      find_lease t (committed (conc_run sts1 (conc_start d))) = seen) \<and>
    find_lease t (committed (conc_run sts (conc_start d))) = seen \<and>
    set msgs \<subseteq> {m \<in> set (messages (committed (conc_run sts (conc_start d)))). m_Topic m = t \<and> m_InsertedAt m < cutoff \<and>
      msg_locks (conc_run sts (conc_start d)) (m_ID m) = Some x}"
proof (intro conjI)
  let ?s = "conc_run sts (conc_start d)"
  have ok: "conc_ok ?s" by (rule conc_run_ok [OF assms(1,2)])
  show "find_lease t (committed ?s) = seen" using conc_okD(8) [OF ok assms(3)] by simp
  show "set msgs \<subseteq> {m \<in> set (messages (committed ?s)). m_Topic m = t \<and> m_InsertedAt m < cutoff \<and> msg_locks ?s (m_ID m) = Some x}"
    using conc_okD(2,6) [OF ok assms(3)] by (auto simp: holds_batch_def)
qed (rule maintains_origin [OF assms(3)], simp)


section \<open>Witnesses\<close>

text \<open>Instance 1 takes the lease of topic \<open>b\<close>, and checks, locks and flushes one message; instance 2
  asks for the lease a minute later, when it has lapsed, and waits.\<close>

lemmas conc_eval = conc_run_def conc_next_def conc_start_def check_access_def lock_batch_def flush_batch_def
  commit_batch_def take_lease_def commit_lease_def set_tx_def end_tx_def release_def Let_def

definition sample_schedule :: "unit stmt list" where
  "sample_schedule =
     [TakeLease 1 (sample_consumer 1) (quiet_env 0) ''b'', CommitLease 1 (quiet_env 0),
      CheckAccess 3 (sample_consumer 1) (quiet_env 50) ''b'' [WithBatchSize 1],
      LockBatch 3, FlushBatch 3, TakeLease 2 (sample_outbox 2) (quiet_env (60 * second)) ''b'']"

definition sample_held_db :: "unit db" where
  "sample_held_db = acquired_db (sample_consumer 1) (quiet_env 0) ''b'' sample_db"

definition sample_message_2 :: "Message list" where
  "sample_message_2 = AcquireMessagesByTopic (\<lambda>_ _. False) ''b'' (Some 1) sample_held_db"

lemma sample_message_2: "map m_ID sample_message_2 = [2]"
  by (simp add: sample_message_2_def sample_held_db_def AcquireMessagesByTopic_alt claimable_messages_def sample_db_def
      sample_message_def empty_db_def)

lemma sample_message_2_ne [simp]: "sample_message_2 \<noteq> []"
  using sample_message_2 by auto

lemma sample_held_check:
  "checkExclusiveAccessForUpdate (sample_consumer 1) (quiet_env 50) ''b'' sample_held_db = None"
  by (simp add: check_alt sample_held_db_def lease_expiry_def default_timings_def)

lemma sample_held_row: "find_topic ''b'' sample_held_db \<noteq> None"
  by (simp add: sample_held_db_def acquired_db_def)

definition sample_state :: "unit conc" where
  "sample_state = \<lparr>committed = sample_held_db,
     open_txs = [3 \<mapsto> Flushed (sample_consumer 1) ''b'' True sample_message_2],
     row_locks = [''b'' \<mapsto> 3], msg_locks = [2 \<mapsto> 3], session_locks = Map.empty, lease_locks = Map.empty\<rparr>"

lemma sample_taken:
  "conc_run [TakeLease 1 (sample_consumer 1) (quiet_env 0) ''b'', CommitLease 1 (quiet_env 0)] (conc_start sample_db) =
     conc_start sample_held_db"
  by (simp add: conc_eval lease_contended_def sample_held_db_def fun_eq_iff)

lemma sample_flushed:
  "conc_run [CheckAccess 3 (sample_consumer 1) (quiet_env 50) ''b'' [WithBatchSize 1], LockBatch 3, FlushBatch 3]
     (conc_start sample_held_db) = sample_state"
proof -
  have "m_ID ` set sample_message_2 = {2}" using sample_message_2 by (metis list.set(1,2) set_map)
  moreover have "sint (batchSize (process_opts [WithBatchSize 1])) = 1"
    by (simp add: process_opts_def defaultProcessOpts_def MaxInt32_def)
  ultimately show ?thesis
    using sample_held_check sample_held_row
    by (simp add: conc_eval sample_message_2_def [symmetric] sample_state_def fun_eq_iff)
qed

lemma sample_waits:
  "conc_next (TakeLease 2 (sample_outbox 2) (quiet_env (60 * second)) ''b'') sample_state = sample_state"
  by (simp add: conc_next_def take_lease_def sample_state_def)

lemma sample_reached: "conc_run sample_schedule (conc_start sample_db) = sample_state"
proof -
  have split: "sample_schedule =
      [TakeLease 1 (sample_consumer 1) (quiet_env 0) ''b'', CommitLease 1 (quiet_env 0)] @
      [CheckAccess 3 (sample_consumer 1) (quiet_env 50) ''b'' [WithBatchSize 1], LockBatch 3, FlushBatch 3] @
      [TakeLease 2 (sample_outbox 2) (quiet_env (60 * second)) ''b'']"
    by (simp add: sample_schedule_def)
  have stay: "conc_run [TakeLease 2 (sample_outbox 2) (quiet_env (60 * second)) ''b''] sample_state = sample_state"
    unfolding conc_run_def fold_simps by (rule sample_waits)
  show ?thesis unfolding split conc_run_append sample_taken sample_flushed by (rule stay)
qed

lemma sample_schedule_ok: "list_all stmt_ok sample_schedule"
  by (simp add: sample_schedule_def)

lemma sample_commit_act:
  "conc_act (CommitBatch 3 (quiet_env 70)) sample_state = Deliver ''b'' sample_message_2"
  by (simp add: conc_act_def commit_batch_def sample_state_def bump_waits_def split: option.split)

theorem interleaving_refines_outbox_witness:
  "outbox_next (Deliver ''b'' sample_message_2) (conc_view sample_state) =
     Some (conc_view (conc_next (CommitBatch 3 (quiet_env 70)) sample_state)) \<and>
   map m_ID sample_message_2 = [2]"
  using interleaving_refines_outbox [OF sample_schedule_ok db_ok_sample, of "CommitBatch 3 (quiet_env 70)"]
  by (simp only: sample_reached sample_commit_act sample_message_2 stmt_ok.simps)

theorem lease_held_to_commit_witness:
  "lease_holder ''b'' (committed sample_state) = Some 1 \<and>
   conc_next (TakeLease 2 (sample_outbox 2) (quiet_env (60 * second)) ''b'') sample_state = sample_state"
proof -
  have "open_txs (conc_run sample_schedule (conc_start sample_db)) 3 =
      Some (Flushed (sample_consumer 1) ''b'' True sample_message_2)"
    by (simp add: sample_reached sample_state_def)
  from lease_held_to_commit [OF sample_schedule_ok db_ok_sample this]
  have "lease_holder ''b'' (committed sample_state) \<in> {None, Some 1}"
    by (simp add: sample_reached)
  moreover have "lease_holder ''b'' (committed sample_state) \<noteq> None"
    by (simp add: sample_state_def sample_held_db_def)
  ultimately have "lease_holder ''b'' (committed sample_state) = Some 1" by blast
  then show ?thesis using sample_waits by blast
qed


theorem interleaved_delivers_once_witness:
  "2 \<notin> m_ID ` set (messages (committed (conc_run (sample_schedule @ [CommitBatch 3 (quiet_env 70)]) (conc_start sample_db)))) \<and>
   2 \<in> m_ID ` set (conc_delivered (sample_schedule @ [CommitBatch 3 (quiet_env 70)]) (conc_start sample_db))"
proof -
  let ?sts = "sample_schedule @ [CommitBatch 3 (quiet_env 70)]"
  have "fold conc_next sample_schedule (conc_start sample_db) = sample_state"
    using sample_reached by (simp add: conc_run_def)
  then have "set sample_message_2 \<subseteq> set (conc_delivered ?sts (conc_start sample_db))"
    by (simp add: conc_delivered_def collect_append sample_commit_act)
  moreover have "2 \<in> m_ID ` set sample_message_2"
    using sample_message_2 by (metis list.set_intros(1) set_map)
  ultimately have two: "2 \<in> m_ID ` set (conc_delivered ?sts (conc_start sample_db))" by blast
  moreover have "list_all stmt_ok ?sts" using sample_schedule_ok by simp
  ultimately show ?thesis
    using interleaved_delivers_once [OF _ db_ok_sample, of ?sts] by auto
qed

theorem interleaved_conserves_messages_witness:
  "3 + length (conc_published (sample_schedule @ [CommitBatch 3 (quiet_env 70)]) (conc_start sample_db)) =
     length (messages (committed (conc_run (sample_schedule @ [CommitBatch 3 (quiet_env 70)]) (conc_start sample_db)))) +
     length (conc_delivered (sample_schedule @ [CommitBatch 3 (quiet_env 70)]) (conc_start sample_db)) +
     length (conc_expired (sample_schedule @ [CommitBatch 3 (quiet_env 70)]) (conc_start sample_db))"
proof -
  have "list_all stmt_ok (sample_schedule @ [CommitBatch 3 (quiet_env 70)])" using sample_schedule_ok by simp
  from arg_cong [OF interleaved_conserves_messages [OF this db_ok_sample], of size]
  show ?thesis by (simp add: sample_db_def)
qed

text \<open>Instance 1 purges topic \<open>b\<close> of what is older than 50; while it has not committed, a consumer finds
  nothing to claim.\<close>

definition sample_purge :: "unit stmt list" where
  "sample_purge = [HoldLease 5 (sample_outbox 1) (quiet_env 100) ''b'' 50, PurgeRows 5,
     CheckAccess 3 (sample_consumer 1) (quiet_env 100) ''b'' []]"

lemma sample_purged:
  "open_txs (conc_run sample_purge (conc_start sample_db)) 5 =
     Some (Purged (sample_outbox 1) (quiet_env 100) ''b'' 50 [sample_message 3 ''b'' 30, sample_message 2 ''b'' 20] None)"
  "open_txs (conc_next (LockBatch 3) (conc_run sample_purge (conc_start sample_db))) 3 = None"
proof -
  let ?rows = "[sample_message 3 ''b'' 30, sample_message 2 ''b'' 20]"
  let ?s = "set_tx 5 (Purged (sample_outbox 1) (quiet_env 100) ''b'' 50 ?rows None)
    ((conc_start sample_db)\<lparr>lease_locks := [''b'' \<mapsto> 5], msg_locks := [3 \<mapsto> 5, 2 \<mapsto> 5]\<rparr>)"
  have "find_lease ''b'' sample_db = None" by (simp add: sample_db_def empty_db_def)
  moreover have "expired_rows ''b'' 50 sample_db = ?rows"
    by (simp add: expired_rows_def sample_db_def sample_message_def)
  moreover have "m_ID (sample_message i t n) = i" for i t n by (simp add: sample_message_def)
  ultimately have s: "conc_run [HoldLease 5 (sample_outbox 1) (quiet_env 100) ''b'' 50, PurgeRows 5] (conc_start sample_db) = ?s"
    by (simp add: conc_run_def conc_next_def hold_lease_def purge_rows_def maintenance_contended_def conc_start_def
        set_tx_def deletes_locked_def list_ex_iff fun_eq_iff)
  have claimed: "AcquireMessagesByTopic (\<lambda>_ i. msg_locks ?s i \<noteq> None) ''b'' (Some n) sample_db = []" for n
    by (simp add: AcquireMessagesByTopic_def conc_start_def sample_db_def sample_message_def)
  have run: "conc_run sample_purge (conc_start sample_db) = conc_next (CheckAccess 3 (sample_consumer 1) (quiet_env 100) ''b'' []) ?s"
    unfolding s [symmetric] by (simp add: sample_purge_def conc_run_def)
  show "open_txs (conc_run sample_purge (conc_start sample_db)) 5 =
     Some (Purged (sample_outbox 1) (quiet_env 100) ''b'' 50 ?rows None)"
    unfolding run by (auto simp: conc_next_def check_access_def split: option.splits)
  show "open_txs (conc_next (LockBatch 3) (conc_run sample_purge (conc_start sample_db))) 3 = None"
    unfolding run using claimed
    by (auto simp: conc_next_def check_access_def lock_batch_def Let_def conc_start_def split: option.splits)
qed

theorem purge_under_own_lease_witness:
  "find_lease ''b'' (committed (conc_run sample_purge (conc_start sample_db))) = None \<and>
   msg_locks (conc_run sample_purge (conc_start sample_db)) 2 = Some 5 \<and>
   open_txs (conc_next (LockBatch 3) (conc_run sample_purge (conc_start sample_db))) 3 = None"
proof -
  have "list_all stmt_ok sample_purge" by (simp add: sample_purge_def)
  from purge_under_own_lease [OF this db_ok_sample sample_purged(1)] sample_purged(2)
  show ?thesis by (simp add: sample_message_def)
qed

text \<open>Instance 3 inserts a message on topic \<open>b\<close> and its transaction rolls back; then instance 1 delivers
  what is there.\<close>

definition sample_insert :: "unit stmt" where
  "sample_insert = AddRows 7 (sample_outbox 3) (quiet_env 1) ''b'' [\<lparr>Payload = ''1''\<rparr>] []"

definition sample_consume :: "unit stmt list" where
  "sample_consume = [CheckAccess 3 (sample_consumer 1) (quiet_env 50) ''b'' [], LockBatch 3, FlushBatch 3,
     CommitBatch 3 (quiet_env 70)]"

definition sample_row :: Message where
  "sample_row = \<lparr>m_ID = 4, m_InsertedAt = 1, m_Topic = ''b'', m_Payload = ''1''\<rparr>"

lemma sample_inserted:
  "\<exists>ns wrote. open_txs (conc_run [sample_insert] (conc_start sample_db)) 7 =
     Some (Added ''b'' (quiet_env 1) [sample_row] ns wrote)"
proof -
  have pub: "txPub (sample_outbox 3) = None" "pubsub (sample_outbox 3) = None"
    by (simp_all add: sample_outbox_def new_outboxImpl_def defaultOpts_def asTxPublisher_def)
  have seq: "messages_id_seq sample_db = 4" by (simp add: sample_db_def)
  show ?thesis
    using pub seq
    by (simp add: conc_run_def conc_next_def sample_insert_def add_rows_def conc_start_def AddMessages_def
        InsertMessage_alt copy_messages_def Let_def sample_row_def)
qed

theorem rolled_back_never_delivered_witness:
  "4 \<in> reserved_ids (conc_run [sample_insert] (conc_start sample_db)) \<and>
   4 \<notin> m_ID ` set (conc_delivered ([sample_insert] @ RollBack 7 # sample_consume) (conc_start sample_db))"
proof -
  obtain ns wrote where add: "open_txs (conc_run [sample_insert] (conc_start sample_db)) 7 =
      Some (Added ''b'' (quiet_env 1) [sample_row] ns wrote)"
    using sample_inserted by blast
  have ok: "list_all stmt_ok [sample_insert]" "list_all stmt_ok sample_consume"
    by (simp_all add: sample_insert_def sample_consume_def sample_outbox_def new_outboxImpl_def defaultOpts_def
        asTxPublisher_def)
  have "m_ID sample_row = 4" by (simp add: sample_row_def)
  moreover have "m_ID sample_row \<in> reserved_ids (conc_run [sample_insert] (conc_start sample_db))"
    using add by (rule reserved_idsI) simp
  ultimately show ?thesis
    using rolled_back_never_delivered [OF ok db_ok_sample add, of sample_row] by auto
qed

section \<open>A topic without a row\<close>

text \<open>Instance 1 checks topic \<open>b\<close>, which has no row, so nothing is locked; instance 2 acquires the
  topic, and a message is produced.\<close>

definition gap_op :: "unit fleet_op" where
  "gap_op = Produce (sample_outbox 3) (quiet_env 1) ''b'' [\<lparr>Payload = ''1''\<rparr>] [] False"

definition gap_schedule :: "unit stmt list" where
  "gap_schedule =
     [CheckAccess 4 (sample_consumer 1) (quiet_env 0) ''b'' [],
      TakeLease 2 (sample_outbox 2) (quiet_env 0) ''b'', CommitLease 2 (quiet_env 0),
      Other gap_op, LockBatch 4, FlushBatch 4]"

definition gap_db :: "unit db" where
  "gap_db = acquired_db (sample_outbox 2) (quiet_env 0) ''b'' (empty_db ())"

definition gap_message :: Message where
  "gap_message = \<lparr>m_ID = 1, m_InsertedAt = 1, m_Topic = ''b'', m_Payload = ''1''\<rparr>"

lemma gap_taken:
  "conc_run [CheckAccess 4 (sample_consumer 1) (quiet_env 0) ''b'' [],
      TakeLease 2 (sample_outbox 2) (quiet_env 0) ''b'', CommitLease 2 (quiet_env 0)] (conc_start (empty_db ())) =
   set_tx 4 (Validated (sample_consumer 1) NopFlusher_Flush ''b'' [] False) (conc_start gap_db)"
proof -
  have "find_topic ''b'' (empty_db ()) = None" by (simp add: empty_db_def)
  then show ?thesis
    by (simp add: conc_eval check_alt gap_db_def [symmetric] fun_eq_iff)
qed

lemma expiry_trigger: "lease_expiry t (topics_insert_trigger_fn now lk ins d) = lease_expiry t d"
  by (simp add: lease_expiry_def lease_override_def lease_holder_def trigger_find_topic session_expiry_def
      split: option.split)

lemma gap_produced:
  "messages (fleet_step gap_op gap_db) = [gap_message]"
  "lease_holder t (fleet_step gap_op gap_db) = lease_holder t gap_db"
  "lease_expiry t (fleet_step gap_op gap_db) = lease_expiry t gap_db"
proof -
  have "txPub (sample_outbox 3) = None" "pubsub (sample_outbox 3) = None"
    by (simp_all add: sample_outbox_def new_outboxImpl_def defaultOpts_def asTxPublisher_def)
  moreover have "e_topic_locked (quiet_env 1) = (\<lambda>_. False)" by (simp add: quiet_env_def)
  ultimately have "fleet_step gap_op gap_db =
      commit_db (topics_insert_trigger_fn 1 (\<lambda>_. False) [gap_message]
        ((begin_tx gap_db)\<lparr>messages := [gap_message], messages_id_seq := 2\<rparr>))"
    by (simp add: gap_op_def produce_def AddMessages_def InsertMessage_alt copy_messages_def gap_db_def
        empty_db_def gap_message_def commit_tx_def acquired_db_def Let_def)
  then show "messages (fleet_step gap_op gap_db) = [gap_message]"
    "lease_holder t (fleet_step gap_op gap_db) = lease_holder t gap_db"
    "lease_expiry t (fleet_step gap_op gap_db) = lease_expiry t gap_db"
    by (simp_all add: lease_trigger expiry_trigger lease_cong [of "begin_tx gap_db\<lparr>messages := [gap_message], messages_id_seq := 2\<rparr>" gap_db])
qed

definition gap_state :: "unit conc" where
  "gap_state = \<lparr>committed = fleet_step gap_op gap_db,
     open_txs = [4 \<mapsto> Flushed (sample_consumer 1) ''b'' False [gap_message]],
     row_locks = Map.empty, msg_locks = [1 \<mapsto> 4], session_locks = Map.empty, lease_locks = Map.empty\<rparr>"

lemma gap_seen: "sees_locks (set_tx 4 tx (conc_start gap_db)) gap_op = gap_op"
  by (simp add: gap_op_def conc_start_def quiet_env_def)

lemma gap_batch:
  "AcquireMessagesByTopic (\<lambda>_ _. False) ''b'' (Some (sint (batchSize (process_opts [])))) (fleet_step gap_op gap_db) = [gap_message]"
  by (simp add: AcquireMessagesByTopic_def gap_produced process_opts_def defaultProcessOpts_def
      defaultBatchSize_def del: fleet_step.simps)
    (simp add: gap_message_def)

lemma gap_other:
  "conc_next (Other gap_op) (set_tx 4 tx (conc_start gap_db)) =
     (set_tx 4 tx (conc_start gap_db))\<lparr>committed := fleet_step gap_op gap_db\<rparr>"
proof -
  have "\<not> must_wait gap_op (set_tx 4 tx (conc_start gap_db))"
    by (simp add: gap_op_def conc_start_def)
  moreover have "committed (set_tx 4 tx (conc_start gap_db)) = gap_db" by (simp add: conc_start_def)
  ultimately show ?thesis
    by (simp only: conc_next_def conc_step.simps other_step_def gap_seen if_False step_result.case)
qed

lemma gap_flushed:
  "conc_run [Other gap_op, LockBatch 4, FlushBatch 4]
     (set_tx 4 (Validated (sample_consumer 1) NopFlusher_Flush ''b'' [] False) (conc_start gap_db)) = gap_state"
  unfolding conc_run_def fold_simps gap_other
  by (simp add: conc_next_def lock_batch_def flush_batch_def gap_batch conc_start_def set_tx_def gap_state_def
      fun_eq_iff gap_message_def)

lemma gap_reached: "conc_run gap_schedule (conc_start (empty_db ())) = gap_state"
proof -
  have split: "gap_schedule =
      [CheckAccess 4 (sample_consumer 1) (quiet_env 0) ''b'' [],
       TakeLease 2 (sample_outbox 2) (quiet_env 0) ''b'', CommitLease 2 (quiet_env 0)] @
      [Other gap_op, LockBatch 4, FlushBatch 4]"
    by (simp add: gap_schedule_def)
  show ?thesis unfolding split conc_run_append gap_taken by (rule gap_flushed)
qed


end
