(* ===== verification/Starved_Bump.thy ===== *)
theory Starved_Bump
  imports Interleaving
begin

text \<open>
  The activity stamp under interleaving. The insert trigger skips a topic whose row a consumer has
  locked, and the consumer makes up for it when it commits a batch. A consumer whose flusher fails
  does not, and neither does one that polls an idle topic while a producer's transaction is open
  and finds nothing: then the stamp stays old, and the scanner does not list a topic that holds a
  message older than its TTL until the next catch-up sweep. That is why \<open>AddMessages_invariants\<close> asks for
  the row to be free, and why \<open>scanner_recovers_backlog\<close> rests on the sweep.
\<close>

text \<open>Topic \<open>b\<close> expires after a minute and was last used an hour ago; instance 1 has it locked when
  instance 3 adds a message, and fails to flush it.\<close>

definition idle_topic :: Topic where
  "idle_topic = \<lparr>t_Topic = ''b'', t_ExpirationNanos = Some (60 * second), t_ExclusiveConsumerID = None,
     t_ExclusiveConsumerExpiresAt = None, t_LastInsertedAt = Some 0\<rparr>"

definition idle_db :: "unit db" where
  "idle_db = (empty_db ())\<lparr>topics := [idle_topic]\<rparr>"

definition failing_consumer :: "unit outboxImpl" where
  "failing_consumer = AddFlusher ''b'' (\<lambda>ms tx. (Some ContextCanceled, tx)) (sample_outbox 1)"

definition late_op :: "unit fleet_op" where
  "late_op = Produce (sample_outbox 3) (quiet_env (3600 * second)) ''b'' [\<lparr>Payload = ''1''\<rparr>] [] False"

definition late_message :: Message where
  "late_message = \<lparr>m_ID = 1, m_InsertedAt = 3600 * second, m_Topic = ''b'', m_Payload = ''1''\<rparr>"

definition starving_schedule :: "unit stmt list" where
  "starving_schedule =
     [CheckAccess 4 failing_consumer (quiet_env (3600 * second)) ''b'' [], Other late_op, LockBatch 4, FlushBatch 4]"

definition starved_db :: "unit db" where
  "starved_db = idle_db\<lparr>messages := [late_message], messages_id_seq := 2\<rparr>"

lemma idle_find: "find_topic ''b'' idle_db = Some idle_topic"
  by (simp add: idle_db_def idle_topic_def)

lemma idle_free: "lease_holder ''b'' idle_db = None"
  using idle_find by (simp add: lease_holder_def idle_topic_def)

abbreviation locked_state :: "unit open_tx \<Rightarrow> unit db \<Rightarrow> unit conc" where
  "locked_state tx d \<equiv> \<lparr>committed = d, open_txs = [4 \<mapsto> tx], row_locks = [''b'' \<mapsto> 4],
     msg_locks = Map.empty, session_locks = Map.empty, lease_locks = Map.empty\<rparr>"

lemma getFlusher_failing: "getFlusher failing_consumer ''b'' = Some (\<lambda>ms tx. (Some ContextCanceled, tx))"
  by (simp add: failing_consumer_def AddFlusher_def getFlusher_def)

lemma starving_check:
  "conc_next (CheckAccess 4 failing_consumer (quiet_env n) ''b'' []) (conc_start idle_db) =
     locked_state (Validated failing_consumer (\<lambda>ms tx. (Some ContextCanceled, tx)) ''b'' [] True) idle_db"
  using idle_find idle_free
  by (simp add: conc_next_def check_access_def conc_start_def set_tx_def getFlusher_failing check_alt)

text \<open>The insert goes through and the trigger skips the locked row.\<close>

lemma starving_insert:
  "conc_next (Other late_op) (locked_state tx idle_db) = locked_state tx starved_db"
proof -
  have "fleet_step (sees_locks (locked_state tx idle_db) late_op) idle_db = starved_db"
    by (simp add: late_op_def produce_def AddMessages_def InsertMessage_alt copy_messages_def idle_db_def
        empty_db_def late_message_def commit_tx_def Let_def starved_db_def topics_insert_trigger_fn_def
        idle_topic_def update_where_def sample_outbox_def new_outboxImpl_def defaultOpts_def asTxPublisher_def
        begin_tx_def commit_db_def)
  moreover have "\<not> must_wait late_op (locked_state tx idle_db)"
    by (simp add: late_op_def idle_find)
  ultimately show ?thesis by (simp add: conc_next_def other_step_def)
qed

text \<open>The message is claimed, the flusher fails, and the transaction rolls back without a bump.\<close>

lemma starving_batch:
  "AcquireMessagesByTopic (\<lambda>_ _. False) ''b'' (Some (sint (batchSize (process_opts [])))) starved_db = [late_message]"
  by (simp add: AcquireMessagesByTopic_def starved_db_def process_opts_def defaultProcessOpts_def
      defaultBatchSize_def late_message_def)

lemma starving_flush:
  "conc_run [LockBatch 4, FlushBatch 4]
     (locked_state (Validated failing_consumer (\<lambda>ms tx. (Some ContextCanceled, tx)) ''b'' [] True) starved_db) =
   conc_start starved_db"
  by (simp add: conc_eval starving_batch late_message_def fun_eq_iff)

lemma starved: "conc_run starving_schedule (conc_start idle_db) = conc_start starved_db"
  using starving_flush by (simp add: starving_schedule_def conc_run_def starving_check starving_insert)

text \<open>A stamp an hour old on a topic with a new message; a minute and forty seconds later the message has
  expired, the topic is not a candidate of the scan of any instance, and the slack that should
  cover a skipped bump has not run out.\<close>

lemma starved_stamp:
  "\<not> activity_ok starved_db" "m_InsertedAt late_message < 3700 * second - 60 * second"
  "3700 * second < m_InsertedAt late_message + 60 * second + maintenanceActivitySlack default_timings"
  "scan_candidates (sample_outbox i) (quiet_env (3700 * second)) [] starved_db = []"
  by (simp_all add: activity_ok_def scan_candidates_def GetMaintenanceCandidateTopics_def candidate_topic_def
      starved_db_def idle_db_def idle_topic_def late_message_def bump_granularity_def quiet_env_def default_timings_def)

theorem failed_flush_starves_bump:
  "committed (conc_run starving_schedule (conc_start idle_db)) = starved_db \<and>
   \<not> activity_ok starved_db \<and>
   m_InsertedAt late_message < 3700 * second - 60 * second \<and>
   3700 * second < m_InsertedAt late_message + 60 * second + maintenanceActivitySlack default_timings \<and>
   scan_candidates (sample_outbox i) (quiet_env (3700 * second)) [] starved_db = []"
  using starved_stamp(1-3) starved_stamp(4) [of i] unfolding starved by (simp add: conc_start_def)

text \<open>A poll that finds nothing: the row is locked while instance 3 inserts, the batch is empty because the
  insert is not committed, and the consumer is gone when it is.\<close>

definition polling_schedule :: "unit stmt list" where
  "polling_schedule =
     [CheckAccess 4 (sample_consumer 1) (quiet_env (3600 * second)) ''b'' [],
      AddRows 5 (sample_outbox 3) (quiet_env (3600 * second)) ''b'' [\<lparr>Payload = ''1''\<rparr>] [],
      LockBatch 4, CommitRows 5 (quiet_env (3600 * second))]"

definition polling_state :: "unit conc" where
  "polling_state = \<lparr>committed = idle_db\<lparr>messages_id_seq := 2\<rparr>,
     open_txs = [4 \<mapsto> Validated (sample_consumer 1) NopFlusher_Flush ''b'' [] True,
       5 \<mapsto> Added ''b'' (quiet_env (3600 * second)) [late_message] [] False],
     row_locks = [''b'' \<mapsto> 4], msg_locks = Map.empty, session_locks = Map.empty, lease_locks = Map.empty\<rparr>"

lemma polling_check:
  "conc_next (CheckAccess 4 (sample_consumer 1) (quiet_env n) ''b'' []) (conc_start idle_db) =
     locked_state (Validated (sample_consumer 1) NopFlusher_Flush ''b'' [] True) idle_db"
  using idle_find idle_free
  by (simp add: conc_next_def check_access_def conc_start_def set_tx_def check_alt)

lemma polling_insert:
  "conc_next (AddRows 5 (sample_outbox 3) (quiet_env (3600 * second)) ''b'' [\<lparr>Payload = ''1''\<rparr>] [])
     (locked_state (Validated (sample_consumer 1) NopFlusher_Flush ''b'' [] True) idle_db) = polling_state"
  by (simp add: conc_next_def add_rows_def AddMessages_def InsertMessage_alt copy_messages_def idle_db_def
      empty_db_def late_message_def Let_def topics_insert_trigger_fn_def idle_topic_def update_where_def
      sample_outbox_def new_outboxImpl_def defaultOpts_def asTxPublisher_def begin_tx_def rollback_def
      polling_state_def set_tx_def fun_upd_twist)

lemma polling_end: "conc_run [LockBatch 4, CommitRows 5 e] polling_state =
    (if outcome_applied (e_outcome e AtCommit) then conc_start starved_db
     else conc_start (idle_db\<lparr>messages_id_seq := 2\<rparr>))"
proof -
  have empty: "AcquireMessagesByTopic lk ''b'' (Some n) (idle_db\<lparr>messages_id_seq := 2\<rparr>) = []" for lk n
    by (simp add: AcquireMessagesByTopic_def idle_db_def empty_db_def)
  have "added_db ''b'' (quiet_env (3600 * second)) [late_message] [] False (idle_db\<lparr>messages_id_seq := 2\<rparr>) = starved_db"
    by (simp add: added_db_def topics_insert_trigger_fn_def Let_def update_where_def idle_db_def empty_db_def
        late_message_def idle_topic_def starved_db_def commit_db_def)
  then show ?thesis
    by (simp add: conc_run_def conc_next_def lock_batch_def commit_rows_def polling_state_def empty end_tx_def
        release_def conc_start_def fun_eq_iff)
qed

lemma polled: "conc_run polling_schedule (conc_start idle_db) = conc_start starved_db"
proof -
  have "outcome_applied (e_outcome (quiet_env (3600 * second)) AtCommit)" by simp
  with polling_end [of "quiet_env (3600 * second)"]
  have "conc_run [LockBatch 4, CommitRows 5 (quiet_env (3600 * second))] polling_state = conc_start starved_db"
    by (simp only: if_True)
  then show ?thesis
    unfolding polling_schedule_def conc_run_def fold_simps polling_check polling_insert .
qed


end
