(* ===== verification/Sequential_Runs.thy ===== *)
theory Sequential_Runs
  imports Interleaving
begin

text \<open>
  The statements of \<open>Row_Locks\<close> add up to the handlers: run one after the other by a transaction that
  is alone, and without faults, they leave the database that the handler leaves as one step. So
  the model of statements and the model of handlers are about the same program. What a flusher
  writes to the application's tables is left out of the former, and so of the comparison.
\<close>

section \<open>The application's tables\<close>

lemma flushed_db_app: "(flushed_db e t ms (d\<lparr>app := a\<rparr>))\<lparr>app := b\<rparr> = flushed_db e t ms (d\<lparr>app := b\<rparr>)"
  by (simp add: flushed_db_def BumpTopicActivityIfStale_def DeleteMessagesByIds_def commit_db_def)

lemma begin_app: "(begin_tx d)\<lparr>app := app d\<rparr> = begin_tx d"
  by (simp add: begin_tx_def)

lemma no_notifies: "tx_notifies d = [] \<Longrightarrow> commit_db (begin_tx d) = d"
  by (simp add: begin_tx_def commit_db_def)

section \<open>Consumers\<close>

lemma conc_run_Cons: "conc_run (st # sts) s = conc_run sts (conc_next st s)"
  by (simp add: conc_run_def)

definition alone :: "tx_id \<Rightarrow> topic \<Rightarrow> bool \<Rightarrow> int set \<Rightarrow> 'a open_tx \<Rightarrow> 'a db \<Rightarrow> 'a conc" where
  "alone x t locked ids tx d =
     \<lparr>committed = d, open_txs = [x \<mapsto> tx], row_locks = (\<lambda>u. if locked \<and> u = t then Some x else None),
      msg_locks = (\<lambda>i. if i \<in> ids then Some x else None), session_locks = Map.empty, lease_locks = Map.empty\<rparr>"

lemma end_alone: "end_tx x ((alone x t locked ids tx d)\<lparr>committed := d'\<rparr>) = conc_start d'"
  "end_tx x (alone x t locked ids tx d) = conc_start d"
  by (simp_all add: alone_def end_tx_def release_def conc_start_def fun_eq_iff)

lemma alone_simps [simp]:
  "committed (alone x t locked ids tx d) = d" "open_txs (alone x t locked ids tx d) x = Some tx"
  by (simp_all add: alone_def)

lemma alone_check:
  assumes "getFlusher o1 t = Some f" "checkExclusiveAccessForUpdate o1 e t d = None"
    and "locked = (find_topic t d \<noteq> None)"
  shows "conc_next (CheckAccess x o1 e t popts) (conc_start d) = alone x t locked {} (Validated o1 f t popts locked) d"
  using assms by (auto simp: conc_next_def check_access_def conc_start_def alone_def set_tx_def fun_eq_iff)

lemma alone_lock:
  assumes "e_msg_locked e = (\<lambda>_ _. False)"
  shows "conc_next (LockBatch x) (alone x t locked {} (Validated o1 f t popts locked) d) =
    (if batch_of e t popts d = [] then conc_start d
     else alone x t locked (m_ID ` set (batch_of e t popts d)) (Claimed o1 f t locked (batch_of e t popts d)) d)"
proof -
  have b: "AcquireMessagesByTopic (\<lambda>_ _. False) t (Some (sint (batchSize (process_opts popts)))) d = batch_of e t popts d"
    using assms by (simp add: batch_of_def)
  show ?thesis
    by (auto simp: conc_next_def lock_batch_def Let_def b end_alone)
      (simp_all add: alone_def b set_tx_def fun_eq_iff end_tx_def release_def conc_start_def)
qed

lemma alone_flush:
  "conc_next (FlushBatch x) (alone x t locked ids (Claimed o1 f t locked ms) d) =
     (if fst (f ms (begin_tx d)) = None then alone x t locked ids (Flushed o1 t locked ms) d else conc_start d)"
  by (auto simp: conc_next_def flush_batch_def end_alone split: option.split)
    (simp add: alone_def set_tx_def fun_eq_iff)

lemma alone_commit:
  assumes "e_outcome e AtCommit = Done" "locked = (find_topic t d \<noteq> None)"
  shows "conc_next (CommitBatch x e) (alone x t locked ids (Flushed o1 t locked ms) d) =
    conc_start (flushed_db e t ms (begin_tx d))"
proof -
  have "\<not> bump_waits x n t (alone x t locked ids (Flushed o1 t locked ms) d)" for n
    using assms(2) by (simp add: bump_waits_def alone_def split: option.split)
  with assms show ?thesis by (simp add: conc_next_def commit_batch_def end_alone)
qed

text \<open>What the handler leaves without faults.\<close>

lemma ProcessMessages_db:
  assumes "no_faults e" "getFlusher o1 t = Some f" "app_only f" "checkExclusiveAccessForUpdate o1 e t d = None"
    and "tx_notifies d = []"
  shows "(snd (snd (ProcessMessages o1 e t popts d)))\<lparr>app := app d\<rparr> =
    (if batch_of e t popts d = [] \<or> fst (f (batch_of e t popts d) (begin_tx d)) \<noteq> None then d
     else flushed_db e t (batch_of e t popts d) (begin_tx d))"
proof -
  let ?b = "batch_of e t popts d"
  have b: "AcquireMessagesByTopic (e_msg_locked e) t (Some (sint (batchSize (process_opts popts)))) (begin_tx d) = ?b"
    by (simp add: batch_of_def AcquireMessagesByTopic_def)
  obtain er a where f: "f ?b (begin_tx d) = (er, (begin_tx d)\<lparr>app := a\<rparr>)"
    using app_onlyD [OF assms(3)] by (metis prod.collapse)
  have same: "(d\<lparr>app := app d\<rparr>) = d" by simp
  have flushed: "(flushed_db e t ?b ((begin_tx d)\<lparr>app := a\<rparr>))\<lparr>app := app d\<rparr> = flushed_db e t ?b (begin_tx d)"
    by (simp add: flushed_db_app begin_app)
  show ?thesis
  proof (cases "?b = []")
    case True
    with assms(1,2,4) b show ?thesis
      by (simp add: ProcessMessages_def Let_def commit_tx_def no_notifies [OF assms(5)])
  next
    case False
    with assms(1,2,4) b f flushed show ?thesis
      by (cases er) (simp_all add: ProcessMessages_def Let_def commit_tx_def flushed_db_def rollback_def)
  qed
qed

lemma consume_alone:
  assumes "no_faults e" "e_msg_locked e = (\<lambda>_ _. False)" "tx_notifies d = []"
    and "\<And>f. getFlusher o1 t = Some f \<Longrightarrow> app_only f"
  shows "conc_run [CheckAccess x o1 e t popts, LockBatch x, FlushBatch x, CommitBatch x e] (conc_start d) =
    conc_start ((snd (snd (ProcessMessages o1 e t popts d)))\<lparr>app := app d\<rparr>)"
proof (cases "getFlusher o1 t")
  case None
  then have "conc_next (CheckAccess x o1 e t popts) (conc_start d) = conc_start d"
    by (simp add: conc_next_def check_access_def conc_start_def)
  with None show ?thesis
    by (simp add: conc_run_Cons ProcessMessages_def) (simp add: conc_run_def conc_start_def)
next
  case (Some f)
  show ?thesis
  proof (cases "checkExclusiveAccessForUpdate o1 e t d")
    case (Some er)
    with \<open>getFlusher o1 t = Some f\<close> have "conc_next (CheckAccess x o1 e t popts) (conc_start d) = conc_start d"
      by (auto simp: conc_next_def check_access_def conc_start_def split: step_result.split)
    moreover have "snd (snd (ProcessMessages o1 e t popts d)) = d"
      using Some \<open>getFlusher o1 t = Some f\<close> assms(1) by (simp add: ProcessMessages_def Let_def)
    ultimately show ?thesis by (simp add: conc_run_Cons) (simp add: conc_run_def conc_start_def)
  next
    case None
    note db = ProcessMessages_db [OF assms(1) Some assms(4) [OF Some] None assms(3), of popts]
    obtain locked where locked: "locked = (find_topic t d \<noteq> None)" by blast
    have "open_txs (conc_start d) x = None" by (simp add: conc_start_def)
    moreover have "e_outcome e AtCommit = Done" using assms(1) by simp
    note alone_commit [OF this locked]
    ultimately show ?thesis
      unfolding conc_run_Cons alone_check [OF Some None locked] alone_lock [OF assms(2)] db
      by (auto simp: alone_flush conc_run_def)
  qed
qed

section \<open>Attempts on a lease\<close>

lemma attempt_alone:
  assumes "no_faults e"
  shows "conc_run [TakeLease x o1 e t, CommitLease x e] (conc_start d) = conc_start (snd (tryAcquireTopicLease o1 e t d))"
  using assms
  by (simp add: tryAcquire_no_faults conc_run_def conc_next_def take_lease_def commit_lease_def conc_start_def
      set_tx_def end_tx_def release_def fun_eq_iff)

section \<open>Producers\<close>

text \<open>The insert trigger leaves the row of a topic that is registered and fresh.\<close>

lemma update_where_none: "(\<And>r. r \<in> set rs \<Longrightarrow> \<not> P r) \<Longrightarrow> update_where P f rs = rs"
  by (induction rs) (auto simp: update_where_def)

lemma trigger_idle:
  assumes "distinct (map t_Topic (topics d))" "m_Topic ` set ins \<subseteq> {t}"
    and "find_topic t d = Some r" "\<not> stale_activity now r \<or> lk t"
  shows "topics_insert_trigger_fn now lk ins d = d"
proof -
  have "r' = r" if "r' \<in> set (topics d)" "t_Topic r' = t" for r'
    using that assms(3) find_row_unique [OF assms(1) that(1)] by simp
  then have "update_where (\<lambda>r'. t_Topic r' \<in> set (remdups (map m_Topic ins)) \<and> stale_activity now r' \<and> \<not> lk (t_Topic r'))
      (\<lambda>r'. r'\<lparr>t_LastInsertedAt := Some now\<rparr>) (topics d) = topics d"
    using assms(2,4) by (intro update_where_none) auto
  moreover have "t \<in> t_Topic ` set (topics d)"
    using assms(3) by (metis find_row_None_iff option.distinct(1))
  with assms(2) have "filter (\<lambda>u. u \<notin> t_Topic ` set (topics d)) (remdups (map m_Topic ins)) = []"
    by (auto simp: filter_empty_conv)
  ultimately show ?thesis by (simp add: topics_insert_trigger_fn_def Let_def)
qed

lemma trigger_update [simp]:
  "topics_insert_trigger_fn now lk ins (d\<lparr>tx_notifies := ns\<rparr>) =
     (topics_insert_trigger_fn now lk ins d)\<lparr>tx_notifies := ns\<rparr>"
  by (simp add: topics_insert_trigger_fn_def Let_def)

text \<open>The commit of the open transaction leaves what the trigger left in it.\<close>

lemma trigger_rerun:
  assumes "distinct (map t_Topic (topics d))" "m_Topic ` set ins = {t}"
    and "wrote = (find_topic t (topics_insert_trigger_fn now (\<lambda>_. False) ins d) \<noteq> find_topic t d)"
  shows "topics_insert_trigger_fn now (\<lambda>_. \<not> wrote) ins d = topics_insert_trigger_fn now (\<lambda>_. False) ins d"
proof (cases wrote)
  case False
  with assms(2,3) have same: "find_topic t (topics_insert_trigger_fn now (\<lambda>_. False) ins d) = find_topic t d" by simp
  then obtain r where r: "find_topic t d = Some r"
    using assms(2) by (cases "find_topic t d") (simp_all add: trigger_find_topic)
  have "\<not> stale_activity now r"
  proof
    assume "stale_activity now r"
    with same r assms(2) have "r\<lparr>t_LastInsertedAt := Some now\<rparr> = r" by (simp add: trigger_find_topic)
    then have "t_LastInsertedAt r = Some now" by (metis Topic.select_convs(5) Topic.surjective Topic.update_convs(5))
    with \<open>stale_activity now r\<close> show False by (simp add: stale_activity_def bump_granularity_def)
  qed
  then show ?thesis using assms(1,2) r by (simp add: trigger_idle)
qed simp

lemma rows_alone:
  fixes d :: "'a db" and docs :: "(topic \<times> string) list" and e :: env and ns :: "(string \<times> string) list"
  assumes "db_ok d" "docs \<noteq> []" "fst ` set docs \<subseteq> {t}"
  defines "new \<equiv> number_rows (messages_id_seq d) (e_now e AtBegin) docs"
  defines "tx \<equiv> (topics_insert_trigger_fn (e_now e AtBegin) (\<lambda>_. False) new
    ((begin_tx d)\<lparr>messages := messages d @ new, messages_id_seq := messages_id_seq d + int (length docs)\<rparr>))\<lparr>tx_notifies := ns\<rparr>"
  shows "drop (length (messages d)) (messages tx) = new" "new \<noteq> []"
    and "added_db t e new (tx_notifies tx) (find_topic t tx \<noteq> find_topic t d) (rollback d tx) = commit_db tx"
proof -
  let ?d = "d\<lparr>messages_id_seq := messages_id_seq d + int (length docs)\<rparr>"
  let ?t = "topics_insert_trigger_fn (e_now e AtBegin) (\<lambda>_. False) new (?d\<lparr>messages := messages d @ new\<rparr>)"
  let ?wrote = "find_topic t tx \<noteq> find_topic t d"
  have tx: "tx = ?t\<lparr>tx_notifies := ns\<rparr>"
    by (simp add: tx_def begin_tx_def topics_insert_trigger_fn_def Let_def)
  have seq: "rollback d tx = ?d" by (simp add: tx rollback_def)
  have topic: "m_Topic ` set new = {t}"
    using arg_cong [OF number_rows_fields(1) [of "messages_id_seq d" "e_now e AtBegin" docs], of set] assms(2,3)
    by (cases docs) (auto simp: new_def)
  then show "new \<noteq> []" by auto
  show "drop (length (messages d)) (messages tx) = new" by (simp add: tx)
  have "topics_insert_trigger_fn (e_now e AtBegin) (\<lambda>_. \<not> ?wrote) new (?d\<lparr>messages := messages d @ new\<rparr>) = ?t"
    using db_okD(1) [OF assms(1)] by (intro trigger_rerun [OF _ topic]) (simp_all add: tx)
  then show "added_db t e new (tx_notifies tx) ?wrote (rollback d tx) = commit_db tx"
    unfolding added_db_def seq by (simp add: tx)
qed

lemma alone_rows:
  assumes "e_topic_locked e = (\<lambda>_. False)" "AddMessages o1 e t msgs aopts (\<lambda>_. []) (begin_tx d) = (er, store, tx)"
  shows "conc_next (AddRows x o1 e t msgs aopts) (conc_start d) =
    (let rows = drop (length (messages d)) (messages tx); wrote = find_topic t tx \<noteq> find_topic t d
     in if er \<noteq> None \<or> rows = [] then conc_start (rollback d tx)
        else set_tx x (Added t e rows (tx_notifies tx) wrote)
          (if wrote then (conc_start (rollback d tx))\<lparr>row_locks := [t \<mapsto> x]\<rparr> else conc_start (rollback d tx)))"
proof -
  have e: "e\<lparr>e_topic_locked := (\<lambda>_. False)\<rparr> = e" by (rule env.equality) (simp_all add: assms(1))
  show ?thesis by (simp add: conc_next_def add_rows_def conc_start_def e assms(2) Let_def)
qed

lemma idle_end: "conc_next (if undo then RollBack x else CommitRows x e) (conc_start d) = conc_start d"
  by (simp add: conc_next_def commit_rows_def roll_back_def conc_start_def)

lemma produce_alone:
  assumes "no_faults e" "e_topic_locked e = (\<lambda>_. False)" "db_ok d" "tx_notifies d = []"
    and "\<And>pub. txPub o1 = Some pub \<Longrightarrow> notifies_only pub"
  shows "conc_run [AddRows x o1 e t msgs aopts, if undo then RollBack x else CommitRows x e] (conc_start d) =
    conc_start (produce o1 e t msgs aopts undo d)"
proof -
  have run: "conc_run [a, b] s = conc_next b (conc_next a s)" for a b :: "'a stmt" and s by (simp add: conc_run_def)
  obtain er store tx where add: "AddMessages o1 e t msgs aopts (\<lambda>_. []) (begin_tx d) = (er, store, tx)"
    by (metis prod_cases3)
  note step = alone_rows [OF assms(2) add, of x]
  show ?thesis
  proof (cases rule: AddMessages_rows [OF add assms(5)])
    case 2
    with no_notifies [OF assms(4)] assms(1) show ?thesis
      by (simp add: run step idle_end produce_def add commit_tx_def)
  next
    case (3 docs ns)
    note tx = 3(3) [unfolded assms(2)]
    note rows = rows_alone(1,3) [OF assms(3) 3(1,2), where e = e and ns = ns, folded tx]
      rows_alone(2) [OF assms(3) 3(1,2), where e = e]
    show ?thesis
    proof (cases "er = None")
      case True
      with rows assms(1) show ?thesis
        by (simp add: run step produce_def add commit_tx_def Let_def)
          (auto simp: conc_next_def commit_rows_def roll_back_def conc_start_def set_tx_def end_tx_def release_def
            fun_eq_iff)
    qed (simp add: run step idle_end produce_def add Let_def)
  qed simp
qed

section \<open>Maintenance\<close>

lemma purge_all_expired:
  assumes "db_ok d"
  shows "purged_db o1 e t (expired_rows t (e_clock e AtDeleteExpiredMessages - ttl) d) d = maintained_db o1 e t ttl d"
proof -
  let ?ms = "expired_rows t (e_clock e AtDeleteExpiredMessages - ttl) d"
  have "delete_where (\<lambda>m. m_Topic m = t \<and> m_ID m \<in> m_ID ` set ?ms) (messages d) =
      filter (\<lambda>m. m \<notin> set ?ms) (messages d)"
    using assms by (rule delete_batch) (simp add: expired_rows_mem)
  also have "\<dots> = delete_where (\<lambda>m. m_Topic m = t \<and> m_InsertedAt m < e_clock e AtDeleteExpiredMessages - ttl) (messages d)"
    unfolding delete_where_def by (intro filter_cong) (auto simp: expired_rows_mem)
  finally have "delete_where (\<lambda>m. m_Topic m = t \<and> m_ID m \<in> m_ID ` set ?ms) (messages d) =
      delete_where (\<lambda>m. m_Topic m = t \<and> m_InsertedAt m < e_clock e AtDeleteExpiredMessages - ttl) (messages d)" .
  then show ?thesis
    by (simp add: purged_db_def maintained_db_def DeleteMessagesByIds_def DeleteExpiredMessages_def)
qed

lemma maintain_alone:
  assumes "no_faults e" "db_ok d"
  shows "conc_run [HoldLease x o1 e t ttl, PurgeRows x, CommitPurge x e] (conc_start d) =
    conc_start (snd (runMaintenance o1 e t ttl d))"
proof (cases "maintenance_contended o1 e t d")
  case True
  with assms(1) show ?thesis
    by (simp add: runMaintenance_no_faults conc_run_def conc_next_def hold_lease_def purge_rows_def commit_purge_def
        conc_start_def)
next
  case False
  have "\<not> deletes_locked u c ((conc_start d)\<lparr>lease_locks := l\<rparr>)" for u c l
    by (simp add: deletes_locked_def conc_start_def list_ex_iff)
  with False purge_all_expired [OF assms(2), of o1 e t ttl] assms(1) show ?thesis
    by (simp add: runMaintenance_no_faults conc_run_def conc_next_def hold_lease_def purge_rows_def commit_purge_def
        conc_start_def set_tx_def end_tx_def release_def deletes_locked_def list_ex_iff Let_def fun_eq_iff)
qed

text \<open>What the loop finds when it looks for the oldest message of its topic.\<close>

definition round_due :: "env \<Rightarrow> topic \<Rightarrow> duration \<Rightarrow> 'a db \<Rightarrow> bool" where
  "round_due e t ttl d =
     (case GetOldestMessageInsertedAt t d of None \<Rightarrow> False | Some oldest \<Rightarrow> oldest + ttl \<le> e_clock e AtLoopCheck)"

lemma round_alone:
  assumes "no_faults e"
  shows "snd (maintenance_round o1 e t ttl d) = (if round_due e t ttl d then snd (runMaintenance o1 e t ttl d) else d)"
  using assms
  by (simp add: maintenance_round_def round_due_def query_one_def Let_def split: option.split)

section \<open>A handler and its statements\<close>

fun statements :: "tx_id \<Rightarrow> 'a db \<Rightarrow> 'a fleet_op \<Rightarrow> 'a stmt list" where
  "statements x d (Process o1 e t popts) = [CheckAccess x o1 e t popts, LockBatch x, FlushBatch x, CommitBatch x e]"
| "statements x d (TryAcquire o1 e t) = [TakeLease x o1 e t, CommitLease x e]"
| "statements x d (Produce o1 e t msgs aopts undo) =
     [AddRows x o1 e t msgs aopts, if undo then RollBack x else CommitRows x e]"
| "statements x d (MaintainRound o1 e t ttl) =
     (if round_due e t ttl d then [HoldLease x o1 e t ttl, PurgeRows x, CommitPurge x e] else [])"
| "statements x d op1 = [Other op1]"

text \<open>No call fails and nobody else holds a lock.\<close>

fun undisturbed :: "'a fleet_op \<Rightarrow> bool" where
  "undisturbed (Process o1 e t popts) = (no_faults e \<and> e_msg_locked e = (\<lambda>_ _. False))"
| "undisturbed (TryAcquire o1 e t) = no_faults e"
| "undisturbed (Produce o1 e t msgs aopts undo) = (no_faults e \<and> e_topic_locked e = (\<lambda>_. False))"
| "undisturbed (MaintainRound o1 e t ttl) = no_faults e"
| "undisturbed (Scan o1 e lc mg) = (e_lease_locked e = (\<lambda>_. False))"
| "undisturbed op1 = True"

text \<open>A handler as one step, with the application's tables as they were.\<close>

fun serial_step :: "'a fleet_op \<Rightarrow> 'a db \<Rightarrow> 'a db" where
  "serial_step (Process o1 e t popts) d = (fleet_step (Process o1 e t popts) d)\<lparr>app := app d\<rparr>"
| "serial_step op1 d = fleet_step op1 d"

lemma other_alone:
  assumes "statements x d op1 = [Other op1]" "undisturbed op1"
  shows "conc_run [Other op1] (conc_start d) = conc_start (fleet_step op1 d)"
proof -
  have "sees_locks (conc_start d) op1 = op1"
  proof (cases op1)
    case (Scan o1 e lc mg)
    with assms(2) show ?thesis by (simp add: conc_start_def)
  qed (use assms(1) in \<open>simp_all add: conc_start_def\<close>)
  moreover have "\<not> must_wait op1 (conc_start d)"
    using assms(1)
    by (cases op1) (auto simp: conc_start_def deletes_locked_def deletes_session_def inserts_lease_def list_ex_iff
        split: if_splits)
  ultimately show ?thesis by (simp add: conc_run_def conc_next_def other_step_def conc_start_def)
qed

lemma statements_alone:
  assumes "op_ok op1" "undisturbed op1" "db_ok d" "tx_notifies d = []"
  shows "conc_run (statements x d op1) (conc_start d) = conc_start (serial_step op1 d)"
proof (cases op1)
  case (Process o1 e t popts)
  with assms show ?thesis by (simp add: consume_alone)
next
  case (TryAcquire o1 e t)
  with assms show ?thesis by (simp add: attempt_alone)
next
  case (Produce o1 e t msgs aopts undo)
  with assms show ?thesis by (simp add: produce_alone)
next
  case (MaintainRound o1 e t ttl)
  with assms show ?thesis by (simp add: maintain_alone round_alone) (simp add: conc_run_def)
qed (use other_alone [of x d op1] assms(2) in simp_all)

text \<open>No handler leaves a notification that is neither sent nor dropped.\<close>

lemma maintenance_quiet: "tx_notifies d = [] \<Longrightarrow> tx_notifies (snd (runMaintenance o1 e t ttl d)) = []"
  by (auto simp: runMaintenance_def Let_def commit_tx_def on_err_def split: option.split prod.split sum.split)

lemma step_quiet:
  assumes "tx_notifies d = []"
  shows "tx_notifies (fleet_step op1 d) = []"
proof (cases op1)
  case (Produce o1 e t msgs aopts undo)
  with assms show ?thesis by (auto simp: produce_def commit_tx_def split: prod.split)
next
  case (Process o1 e t popts)
  with assms show ?thesis
    by (auto simp: ProcessMessages_def Let_def commit_tx_def split: option.split prod.split on_err_splits)
next
  case (TryAcquire o1 e t)
  with assms show ?thesis
    by (auto simp: tryAcquireTopicLease_def Let_def commit_tx_def on_err_def split: option.split prod.split sum.split)
next
  case (MaintainRound o1 e t ttl)
  with assms show ?thesis by (auto simp: maintenance_round_def Let_def maintenance_quiet split: sum.split)
next
  case (FinishDormant o1 e t ttl)
  with maintenance_quiet [OF assms, of o1 e t ttl] show ?thesis
    by (auto simp: finishDormantTopic_def exec_pool_def split: option.split prod.split sum.split)
qed (use assms quiet_steps [of d] in \<open>simp_all add: quiet_change_def\<close>)

lemma serial_ok:
  assumes "op_ok op1" "db_ok d" "tx_notifies d = []"
  shows "db_ok (serial_step op1 d) \<and> tx_notifies (serial_step op1 d) = []"
proof -
  have "db_ok (fleet_step op1 d)" using assms(1,2) by (rule fleet.inv_step)
  with step_quiet [OF assms(3), of op1] show ?thesis by (cases op1) simp_all
qed

text \<open>A run in which the statements of one handler follow those of another.\<close>

fun serial_statements :: "tx_id \<Rightarrow> 'a fleet_op list \<Rightarrow> 'a db \<Rightarrow> 'a stmt list" where
  "serial_statements x [] d = []"
| "serial_statements x (op1 # ops) d = statements x d op1 @ serial_statements x ops (serial_step op1 d)"



end
