(* ===== verification/Migrations.thy ===== *)
theory Migrations
  imports Sql_Names Options
begin

text \<open>
  \<open>migrate.go\<close>: the schema is created under its quoted name, the migrations run on connections
  whose \<open>search_path\<close> is the raw name. The catalog maps the name of every schema to what has been
  migrated into it. The migration tool is a third-party package and a parameter: it gets the
  \<open>search_path\<close> and the catalog. \<open>fs.Sub\<close> on the embedded directory cannot fail, since
  the path is a constant of the source.
\<close>

section \<open>Running the migrations\<close>

type_synonym 's catalog = "string \<Rightarrow> 's option"

type_synonym 's goose = "string \<Rightarrow> 's catalog \<Rightarrow> go_err option \<times> 's catalog"

text \<open>\<open>CREATE SCHEMA IF NOT EXISTS\<close> of a quoted name.\<close>

definition create_schema :: "'s \<Rightarrow> string \<Rightarrow> 's catalog \<Rightarrow> 's catalog" where
  "create_schema fresh schema cat =
     (if cat schema = None then cat(schema \<mapsto> fresh) else cat)"

definition runMigrations ::
  "'s goose \<Rightarrow> 's \<Rightarrow> env \<Rightarrow> string \<Rightarrow> 's catalog \<Rightarrow> go_err option \<times> 's catalog" where
  "runMigrations goose fresh e schema cat =
     on_err (validateSchemaName schema) (\<lambda>er. (Some er, cat))
     (let cat1 = (if outcome_applied (e_outcome e AtCreateSchema)
                  then create_schema fresh schema cat else cat) in
      on_err (call_err e AtCreateSchema)
        (\<lambda>er. (Some (Wrap ''could not create schema'' schema er), cat1))
      (on_err (call_err e AtGooseProvider)
        (\<lambda>er. (Some (Wrap ''could not create migration provider'' [] er), cat1))
       (case goose schema cat1 of
          (Some er, cat2) \<Rightarrow> (Some (Wrap ''could not apply migrations'' [] er), cat2)
        | (None, cat2) \<Rightarrow> (None, cat2))))"

definition Migrate ::
  "'s goose \<Rightarrow> 's \<Rightarrow> env \<Rightarrow> 'p OutboxOpt list \<Rightarrow> 's catalog \<Rightarrow> go_err option \<times> 's catalog" where
  "Migrate goose fresh e fs cat = runMigrations goose fresh e (opt_schema (outbox_opts fs)) cat"

section \<open>Where the tables land\<close>

text \<open>
  PostgreSQL reads the names in \<open>search_path\<close> as it reads identifiers in a statement: without
  quotes the letters are folded to lower case. A statement that creates an unqualified table puts
  it into the schema that the path names and fails when there is none.
\<close>

definition lower :: "char \<Rightarrow> char" where
  "lower c = (if between 65 90 c then char_of (of_char c + (32 :: nat)) else c)"

definition no_upper :: "string \<Rightarrow> bool" where
  "no_upper s \<longleftrightarrow> list_all (\<lambda>c. \<not> between 65 90 c) s"

definition in_search_path :: "go_err \<Rightarrow> ('s \<Rightarrow> 's) \<Rightarrow> 's goose" where
  "in_search_path missing migrated path cat =
     (case cat (map lower path) of
        None \<Rightarrow> (Some missing, cat)
      | Some s \<Rightarrow> (None, cat(map lower path \<mapsto> migrated s)))"

lemma map_lower_id: "map lower s = s \<longleftrightarrow> no_upper s"
proof -
  have "lower c = c \<longleftrightarrow> \<not> between 65 90 c" for c
  proof (cases "between 65 90 c")
    case True
    then have "of_char (lower c) = (of_char c + 32 :: nat)" by (simp add: lower_def between_def)
    then have "of_char (lower c) \<noteq> (of_char c :: nat)" by simp
    then have "lower c \<noteq> c" by metis
    with True show ?thesis by simp
  qed (simp add: lower_def)
  then show ?thesis by (simp add: no_upper_def list_all_iff map_idI) (metis map_eq_conv map_ident)
qed



text \<open>With a capital letter in the name the migrations miss the schema. The name passes the
  check and the schema is created, but the tables go to the schema with the folded name if there
  is one, and otherwise \<open>Migrate\<close> fails; in no case is the schema migrated that the queries
  are sent to.\<close>

theorem capital_schema_not_migrated:
  assumes "goose = in_search_path missing migrated"
    and "validateSchemaName schema = None" and "\<not> no_upper schema"
  shows "\<exists>er cat'. runMigrations goose fresh e schema cat = (er, cat') \<and>
    cat' schema \<in> {cat schema, Some fresh} \<and>
    (cat (map lower schema) = None \<longrightarrow> er \<noteq> None)"
proof -
  have l: "map lower schema \<noteq> schema" using assms(3) by (simp add: map_lower_id)
  then show ?thesis
    using assms(2)
    by (cases "cat schema"; cases "e_outcome e AtCreateSchema"; cases "e_outcome e AtGooseProvider")
      (auto simp: assms(1) runMigrations_def Let_def create_schema_def in_search_path_def
        split: option.splits)
qed

theorem capital_schema_not_migrated_witness:
  "\<exists>er cat'. validateSchemaName ''Orders'' = None \<and>
     runMigrations (in_search_path ErrNoRows (\<lambda>n. n + 3)) (0 :: nat) (quiet_env 0) ''Orders'' (\<lambda>_. None) =
       (Some er, cat') \<and> cat' ''Orders'' \<in> {None, Some 0}"
proof -
  have v: "validateSchemaName ''Orders'' = None" "\<not> no_upper ''Orders''"
    by (simp_all add: validateSchemaName_def schemaNameRE_MatchString_def ident_char_def
        ident_start_def between_def no_upper_def)
  from capital_schema_not_migrated [OF refl this, of ErrNoRows "\<lambda>n. n + 3" "0 :: nat" "quiet_env 0" "\<lambda>_. None"]
  show ?thesis using v(1) by auto
qed

end
