(* ===== verification/Spec2Isabelle.thy ===== *)
theory Spec2Isabelle
  imports Background_Loops Starved_Bump Sequential_Runs Migrations
begin

text \<open>
  A verification library for pgoutbox, a transactional outbox on PostgreSQL written in Go.

  The program. Producers add messages to a topic inside their own transaction
  (\<open>AddMessages\<close>, \<open>outbox.go\<close>, over the bulk copy of \<open>sqlc/copyfrom.go\<close>);
  consumers take batches, hand them to a flusher and delete them in one transaction
  (\<open>ProcessMessages\<close>), directly or in the loop of \<open>Subscribe\<close> (\<open>subscribe.go\<close>). A topic can be
  consumed exclusively: \<open>AcquireTopic\<close> and \<open>ReleaseTopic\<close> write a lease in the topic's
  row, a heartbeat keeps the instance's session alive, and a watcher goroutine per topic
  (\<open>exclusive_lease_watcher.go\<close>) ends the lease when the caller's context ends. In the
  background every instance claims a fair share of the topics that have an expiration and deletes
  their expired messages (\<open>scanTopics\<close>, \<open>runMaintenance\<close>). New messages can be announced over a
  publish/subscribe transport, for which \<open>pgpubsub.go\<close> uses \<open>LISTEN\<close> and \<open>NOTIFY\<close>. All SQL goes through the
  generated queries (\<open>sqlc/queries.sql.go\<close>) and a wrapper that qualifies table names with the
  schema (\<open>internal/dbwrap/wrap.go\<close>); \<open>migrate.go\<close> creates the schema. Instances interact only
  through the database.

  The theories, from the bottom up.

  \<^item> \<open>Outbox_Prelude\<close>: names of types, nullable values, tables as lists of rows with a key, the
    locale \<open>pk_table\<close> with what holds of look-up after update, upsert and delete, and the
    collection \<open>schema_ok\<close>.
  \<^item> \<open>Go_Runtime\<close>: errors as values with \<open>errors.Is\<close>; the sites at which a handler calls the
    database or reads a clock; the environment of a handler call, which says how every such call
    ends and what the clocks show; the package's durations. \<open>Go_Channels\<close>: buffered channels.
  \<^item> \<open>Tables\<close>: the four tables of \<open>sqlc/schema.sql\<close>, the identity sequence, the notifications,
    the application's own tables (a type parameter), transactions and the insert trigger; the
    interpretations of \<open>pk_table\<close> and the invariant \<open>db_ok\<close>.
  \<^item> \<open>Queries\<close>, \<open>Query_Laws\<close>: one definition per query, its frame, what a key finds after it, and
    that it keeps \<open>db_ok\<close>; the laws of the batch query and of the loose index scan.
  \<^item> \<open>Sql_Names\<close>: the schema-name check of \<open>migrate.go\<close> and the statement rewriting, with
    the regular expressions as scanners.
  \<^item> \<open>Options\<close>: the functional options; \<open>int\<close> and \<open>int32\<close> are words of 64 and 32 bits.
  \<^item> \<open>Producer\<close>: the instance, flushers, \<open>AddMessages\<close>, the \<open>Notifier\<close>, and the invariant
    \<open>activity_ok\<close> that ties messages to the activity stamps of their topics.
  \<^item> \<open>Lease_Contract\<close>: the locale \<open>lease_contract\<close>, what any lease promises, with its client lemmas.
    It is interpreted for exclusive leases in \<open>Exclusive\<close> and for maintenance leases in
    \<open>Maintenance\<close>.
  \<^item> \<open>Lease_Watcher\<close>: the watcher's goroutines as a step function over all interleavings, its
    invariants, and its refinement to the sequential \<open>watcher_Start\<close> and \<open>watcher_Stop\<close>.
  \<^item> \<open>Exclusive\<close>: acquiring, releasing, checking and renewing exclusive leases.
  \<^item> \<open>Consumer\<close>, \<open>Subscriber\<close>: \<open>ProcessMessages\<close>; the drain and the subscription loop.
  \<^item> \<open>Maintenance\<close>, \<open>Maintenance_Claims\<close>: the scanner, the claims, the loops, the deletion, the
    dormancy exit and \<open>NewOutbox\<close>. \<open>Background_Loops\<close>: the two loops around the ticks.
  \<^item> \<open>Utf8_Text\<close>, \<open>Json_Text\<close>, \<open>Base64_Text\<close>: what \<open>pgpubsub.go\<close> uses of \<open>unicode/utf8\<close>,
    \<open>encoding/json\<close> and \<open>encoding/base64\<close>, with what holds of reading after writing. The JSON
    reader is a recursive descent with fuel \<open>2 * length s + 2\<close>; \<open>parse_fuel\<close> shows that more fuel
    never changes a result, since every call consumes a character.
  \<^item> \<open>Notify_Envelope\<close>: the envelope of a notification (\<open>marshalPubSubMessage\<close>, the reading in
    \<open>serveConn\<close>), its round trip and its length.
  \<^item> \<open>Notify_Bus\<close>: \<open>Pub\<close> and \<open>PubInTx\<close> on the database, and the receiving side as a step function:
    \<open>bus_step\<close> has the steps of callers in \<open>Sub\<close>, of the listener goroutine, of the goroutine each
    subscription leaves, of consumers and of PostgreSQL; what runs under \<open>subscribersMu\<close> is one
    step, \<open>listenMu\<close> is part of the state. Invariants over all reachable states.
  \<^item> \<open>Notify_Path\<close>: from \<open>AddMessages\<close> through the commit and the listener to a subscriber.
  \<^item> \<open>Migrations\<close>: \<open>runMigrations\<close> and \<open>Migrate\<close>; the migration tool is a parameter that gets the
    search path and the catalog of schemas.
  \<^item> \<open>Outbox_Spec\<close>: the abstract outbox, what its actions promise, and the locale
    \<open>outbox_refinement\<close> for systems whose steps refine them.
  \<^item> \<open>Fleet\<close>, \<open>Fleet_Runs\<close>: all instances on one database. \<open>fleet_step\<close> is one operation of one
    instance with any environment; every step refines an action of the outbox, from which
    conservation of messages and delivery at most once follow for every run.
  \<^item> \<open>Row_Locks\<close>: \<open>ProcessMessages\<close>, the attempt of \<open>AcquireTopic\<close>, \<open>runMaintenance\<close> and the transaction
    of a producer around \<open>AddMessages\<close>, statement by statement. \<open>check_access\<close>, \<open>lock_batch\<close>,
    \<open>flush_batch\<close> and \<open>commit_batch\<close> are the statements of the first, \<open>take_lease\<close> and
    \<open>commit_lease\<close> of the second, \<open>hold_lease\<close>, \<open>purge_rows\<close> and \<open>commit_purge\<close> of the third,
    \<open>add_rows\<close> and \<open>commit_rows\<close> of the fourth; any number of transactions are open at once, and
    tables of locks on topics, messages, sessions and maintenance leases say who waits. The rows
    of a producer that has not committed are its own: the abstract outbox has their identities
    reserved, until a commit publishes them or a rollback gives them up.
  \<^item> \<open>Lease_Rows\<close>, \<open>Lock_Invariants\<close>: who writes the rows of maintenance leases; the invariant of
    open transactions, and that every statement keeps it and refines an action of the outbox.
  \<^item> \<open>Interleaving\<close>: every schedule refines the same abstract outbox (a second interpretation of the
    locale), with what that yields, and what transactions can rely on while they hold a lock.
    \<open>Starved_Bump\<close>: schedules that leave the activity stamp of a topic behind its messages.
  \<^item> \<open>Sequential_Runs\<close>: the statements of a handler, run alone and without faults, add up to the
    handler, so that the two models are of one program.

  How state corresponds. The database record has a list of rows per table and a nullable column is
  an option; an instance is the record \<open>outboxImpl\<close>, with its watched topics
  (\<open>watched\<close>) and its maintenance loops (\<open>managed\<close>) passed explicitly, because different handlers
  change them. A handler takes the instance, an environment, its arguments and the database, and
  returns what the source returns with the database after it. A transaction begins with
  \<open>begin_tx\<close>, ends in \<open>commit_tx\<close>, or is thrown away by \<open>rollback\<close>, which keeps only the identity
  sequence. An outcome can be \<open>Unacked\<close>: the server did the work and the client saw an error.
  Times and durations are integers of nanoseconds, without the limits of \<open>int64\<close>, and
  points in time are read on two clocks, the instance's and the database's, that nothing ties
  together; a theorem that needs them close says so.

  Loops that wait (\<open>AcquireTopic\<close>, \<open>processTopicUntilEmpty\<close>, \<open>Subscribe\<close>, \<open>runMaintenanceLoop\<close>,
  \<open>runTopicScanner\<close>, \<open>runConsumerSessionRenewer\<close>)
  are functions of a script of rounds, in which each round has its environment and what other
  instances did to the database before it; a script that runs out is \<open>None\<close>, the call has not
  returned. That a drain returns is proved for any script with one round more than the topic has
  messages. The other loops of the source end only with their context.

  What the properties show: delivery and removal of a batch are one transaction and a message
  leaves the outbox only flushed or expired; exclusive topics are processed by the holder of a
  live lease only, leases change hands only when lapsed, and none is left behind without a
  watcher as long as commits are acknowledged; maintenance deletes only expired messages under
  its own lease and misses none; claims respect the fair share and other instances' leases;
  the watcher calls back at most once and never after \<open>Stop\<close> returned; notifications are published
  exactly with the messages, wake every open subscription of a connected listener, and no
  interleaving makes the transport panic. Over every run of the whole fleet a message is
  delivered at most once and never lost, and an exclusive lease changes hands only when lapsed;
  delivery at most once and conservation hold of interleaved statements, what a producer rolls back is never
  delivered, a consumer that locked the row of its topic keeps its claim on the topic and maintenance
  its lease until they commit, and nobody deadlocks on these locks.
  Seven theorems record behaviour that the comments of the source exclude: a lease orphaned by a lost
  commit answer, two watchers after concurrent starts, a loop that deletes with an outdated
  expiration, a stored expiration that a new configuration does not change, a schema name with
  capital letters that is never migrated, a check that locks nothing where the topic has no row, and an activity stamp
  that nobody renews when a consumer polls during an insert or its flush fails.

  What the fleet asks of code that is not the program's: a flusher writes the application's tables
  only (\<open>app_only\<close>), a publisher queues notifications only (\<open>notifies_only\<close>, which \<open>pgPubSub\<close>
  fulfils).

  What is not modelled: logging; the internals of the migration tool, of the driver and of its
  connection pool; the test harness and the examples, which are setup code without logic of
  their own. Outside \<open>Row_Locks\<close> transactions of different instances interleave as a whole, and
  what others hold locked is a parameter of the statements that skip locked rows; there, a producer
  calls \<open>AddMessages\<close> once per transaction, a statement gets all its row locks at once or waits, and
  what flushers and producers write to the application's tables is left out.
\<close>

end
